(* ===== verification/Prelude.thy ===== *)
theory Prelude
  imports Main "HOL-Library.Word"
begin

unbundle bit_operations_syntax

text \<open>
  Shared vocabulary of the development: the ways a run of the C code can go wrong, the
  result type of the operations that cannot give the processor away, the resumption type of
  those that can, and the generic list and word lemmas the components share.
\<close>

section \<open>Errors\<close>

text \<open>
  The constructors separate what the C code does on purpose (\<open>Assert_Spin\<close>: the
  \<open>assert\<close> macro of \<open>assert.h\<close> calls \<open>user_spin\<close>, which loops for ever;
  \<open>Panic_Spin\<close>: \<open>PANIC\<close> of \<open>debug.h\<close>, the same; \<open>Idle_Spin\<close>: the
  \<open>while(1)\<close> of the scheduler on an empty ready list; \<open>Diverges\<close>: a loop with no exit)
  from undefined behaviour (\<open>Null_Deref\<close>, \<open>Bad_Access\<close> of a cell or object that is not
  allocated or of the wrong kind, \<open>Out_Of_Bounds\<close>, \<open>Buffer_Overflow\<close>).
\<close>

datatype error =
    Assert_Spin | Panic_Spin | Idle_Spin | Diverges
  | Null_Deref | Bad_Access | Out_Of_Bounds | Buffer_Overflow

type_synonym 'a result = "error + 'a"

named_theorems res_simps \<open>evaluation of the result and resumption combinators\<close>

subsection \<open>Sequencing of results\<close>

definition andthen :: "'a result \<Rightarrow> ('a \<Rightarrow> 'b result) \<Rightarrow> 'b result" where
  "andthen m f = (case m of Inl e \<Rightarrow> Inl e | Inr a \<Rightarrow> f a)"

lemma andthen_Inl [simp, res_simps]: "andthen (Inl e) f = Inl e"
  by (simp add: andthen_def)

lemma andthen_Inr [simp, res_simps]: "andthen (Inr a) f = f a"
  by (simp add: andthen_def)

lemma andthen_eq_Inr: "andthen m f = Inr b \<longleftrightarrow> (\<exists>a. m = Inr a \<and> f a = Inr b)"
  by (cases m) auto

lemma andthen_assoc: "andthen (andthen m f) g = andthen m (\<lambda>a. andthen (f a) g)"
  by (cases m) auto

lemma andthen_cong [fundef_cong]:
  "m = m' \<Longrightarrow> (\<And>a. m' = Inr a \<Longrightarrow> f a = f' a) \<Longrightarrow> andthen m f = andthen m' f'"
  by (cases m') auto

text \<open>A condition checked by the \<open>assert\<close> macro, and a pointer that is dereferenced.\<close>

text \<open>A sequence of stores. A prefix of it is what has been done when something comes in between.\<close>

primrec stores :: "('s \<Rightarrow> 's result) list \<Rightarrow> 's \<Rightarrow> 's result" where
  "stores [] s = Inr s"
| "stores (f # fs) s = andthen (f s) (stores fs)"

lemma andthen_done [simp]: "andthen m Inr = m"
  by (cases m) simp_all

lemma stores_Nil [simp]: "stores [] = Inr"
  by (simp add: fun_eq_iff)

definition assert_c :: "bool \<Rightarrow> 'a result \<Rightarrow> 'a result" where
  "assert_c b m = (if b then m else Inl Assert_Spin)"

lemma assert_c_True [simp, res_simps]: "assert_c True m = m"
  by (simp add: assert_c_def)

lemma assert_c_False [simp, res_simps]: "assert_c False m = Inl Assert_Spin"
  by (simp add: assert_c_def)

definition deref :: "'a option \<Rightarrow> 'a result" where
  "deref p = (case p of None \<Rightarrow> Inl Null_Deref | Some a \<Rightarrow> Inr a)"

lemma deref_simps [simp, res_simps]: "deref None = Inl Null_Deref" "deref (Some a) = Inr a"
  by (simp_all add: deref_def)

section \<open>Resumptions\<close>

text \<open>
  A C function that may give the processor to another task. \<open>Done a s\<close>: it returned \<open>a\<close>
  in state \<open>s\<close>. \<open>Switch s k\<close>: it called \<open>context_swap\<close>; \<open>s\<close> is the state in which the
  next task runs, and \<open>k\<close> is the rest of the function, run in whatever state the task is
  resumed in. \<open>Leave s\<close>: it called \<open>context_set\<close> and is never resumed. \<open>Fail e\<close>: it
  loops for ever or meets undefined behaviour. The type is coinductive, because a task may
  be woken and put back to sleep without bound.
\<close>

codatatype ('s, 'a) run =
    Done 'a 's
  | Switch 's "'s \<Rightarrow> ('s, 'a) run"
  | Leave 's
  | Fail error

primcorec bind_run :: "('s, 'a) run \<Rightarrow> ('a \<Rightarrow> 's \<Rightarrow> ('s, 'b) run) \<Rightarrow> ('s, 'b) run" where
  "bind_run m f = (case m of
       Done a s \<Rightarrow> f a s
     | Switch s k \<Rightarrow> Switch s (\<lambda>t. bind_run (k t) f)
     | Leave s \<Rightarrow> Leave s
     | Fail e \<Rightarrow> Fail e)"

lemma bind_run_simps [simp, res_simps]:
  "bind_run (Done a s) f = f a s"
  "bind_run (Switch s k) f = Switch s (\<lambda>t. bind_run (k t) f)"
  "bind_run (Leave s) f = Leave s"
  "bind_run (Fail e) f = Fail e"
  by (subst bind_run.code, simp)+

definition lift_run :: "'s result \<Rightarrow> ('s, unit) run" where
  "lift_run m = (case m of Inl e \<Rightarrow> Fail e | Inr s \<Rightarrow> Done () s)"

definition lift_val :: "('a \<times> 's) result \<Rightarrow> ('s, 'a) run" where
  "lift_val m = (case m of Inl e \<Rightarrow> Fail e | Inr (a, s) \<Rightarrow> Done a s)"

lemma lift_run_simps [simp, res_simps]:
  "lift_run (Inl e) = Fail e" "lift_run (Inr s) = Done () s"
  by (simp_all add: lift_run_def)

lemma lift_val_simps [simp, res_simps]:
  "lift_val (Inl e) = Fail e" "lift_val (Inr (a, s)) = Done a s"
  by (simp_all add: lift_val_def)

text \<open>
  A loop that gives the processor away at least once in every turn. \<open>adv\<close> runs a pending part
  \<open>j\<close> of the loop to its next switch or to the end.
\<close>

datatype ('s, 'a, 'j) advance =
    is_finished: Finished (finished_value: 'a) (finished_in: 's)
  | is_suspended: Suspended (suspended_in: 's) (suspended_job: "'s \<Rightarrow> 'j")
  | is_left: Left (left_in: 's)
  | is_crashed: Crashed (crashed_by: error)

primcorec drive :: "('j \<Rightarrow> ('s, 'a, 'j) advance) \<Rightarrow> 'j \<Rightarrow> ('s, 'a) run" where
  "drive adv j = (case adv j of
       Finished a s \<Rightarrow> Done a s
     | Suspended s k \<Rightarrow> Switch s (\<lambda>t. drive adv (k t))
     | Left s \<Rightarrow> Leave s
     | Crashed e \<Rightarrow> Fail e)"

section \<open>Machine words\<close>

text \<open>
  The names \<open>include/stdint.h\<close> gives to the types of C. A word has no sign: where the code
  compares, divides or extends a signed number, the model reads it with \<open>sint\<close> or \<open>scast\<close>.
\<close>

type_synonym int8_t = "8 word"

type_synonym int16_t = "16 word"

type_synonym int32_t = "32 word"

type_synonym uint8_t = "8 word"

type_synonym uint16_t = "16 word"

type_synonym uint32_t = "32 word"

type_synonym uint64_t = "64 word"

type_synonym uintptr_t = "64 word"

lemma unat_plus1_less:
  fixes x y :: "'a::len word"
  assumes "x < y"
  shows "unat (x + 1) = Suc (unat x)"
proof -
  have "unat y < 2 ^ LENGTH('a)" and "unat x < unat y"
    using assms by (simp_all add: word_less_nat_alt)
  then have "Suc (unat x) < 2 ^ LENGTH('a)" by linarith
  then show ?thesis by (simp add: unat_word_ariths(1))
qed

end
