(* ===== verification/CList.thy ===== *)
theory CList
  imports Prelude
begin

text \<open>
  The intrusive doubly linked lists of \<open>lib/list.c\<close> and \<open>include/list.h\<close>, at the level
  of pointers: a heap of list cells, and each C function as the sequence of reads and writes
  it performs. The second half abstracts a heap to the contents of its lists and proves that
  each function implements the corresponding operation on HOL lists, leaving every other
  list of the heap as it was.
\<close>

section \<open>Cells and heaps\<close>

text \<open>
  \<open>struct list_elem\<close>: two pointers, \<open>None\<close> being \<open>NULL\<close>. \<open>struct list\<close>: the addresses
  of its two sentinel cells. A heap maps the addresses of the allocated cells to their
  contents.
\<close>

record 'e list_elem =
  prev :: "'e option"
  nxt :: "'e option"

record 'e clist =
  head :: 'e
  tail :: 'e

type_synonym 'e heap = "'e \<rightharpoonup> 'e list_elem"

text \<open>Reading and writing through a pointer to a cell.\<close>

definition rd :: "'e heap \<Rightarrow> 'e \<Rightarrow> 'e list_elem result" where
  "rd h p = (case h p of None \<Rightarrow> Inl Bad_Access | Some c \<Rightarrow> Inr c)"

definition set_next :: "'e option \<Rightarrow> 'e option \<Rightarrow> 'e heap \<Rightarrow> 'e heap result" where
  "set_next p v h = andthen (deref p) (\<lambda>a. andthen (rd h a) (\<lambda>c. Inr (h(a \<mapsto> c\<lparr>nxt := v\<rparr>))))"

definition set_prev :: "'e option \<Rightarrow> 'e option \<Rightarrow> 'e heap \<Rightarrow> 'e heap result" where
  "set_prev p v h = andthen (deref p) (\<lambda>a. andthen (rd h a) (\<lambda>c. Inr (h(a \<mapsto> c\<lparr>prev := v\<rparr>))))"

section \<open>The functions of list.c\<close>

definition list_init :: "'e clist \<Rightarrow> 'e heap \<Rightarrow> 'e heap result" where
  "list_init l h =
     andthen (set_prev (Some (head l)) None h) (\<lambda>h.
     andthen (set_next (Some (head l)) (Some (tail l)) h) (\<lambda>h.
     andthen (set_prev (Some (tail l)) (Some (head l)) h) (\<lambda>h.
     set_next (Some (tail l)) None h)))"

definition list_insert_before :: "'e option \<Rightarrow> 'e \<Rightarrow> 'e heap \<Rightarrow> 'e heap result" where
  "list_insert_before before elem h =
     andthen (deref before) (\<lambda>b.
     andthen (rd h b) (\<lambda>cb.
     andthen (set_next (prev cb) (Some elem) h) (\<lambda>h.
     andthen (rd h b) (\<lambda>cb.
     andthen (set_prev (Some elem) (prev cb) h) (\<lambda>h.
     andthen (set_next (Some elem) before h) (\<lambda>h.
     set_prev before (Some elem) h))))))"

definition list_push :: "'e clist \<Rightarrow> 'e \<Rightarrow> 'e heap \<Rightarrow> 'e heap result" where
  "list_push plist elem h =
     andthen (rd h (head plist)) (\<lambda>c. list_insert_before (nxt c) elem h)"

definition list_append :: "'e clist \<Rightarrow> 'e \<Rightarrow> 'e heap \<Rightarrow> 'e heap result" where
  "list_append plist elem h = list_insert_before (Some (tail plist)) elem h"

definition list_remove :: "'e option \<Rightarrow> 'e heap \<Rightarrow> 'e heap result" where
  "list_remove pelem h =
     andthen (deref pelem) (\<lambda>e.
     andthen (rd h e) (\<lambda>c.
     andthen (set_next (prev c) (nxt c) h) (\<lambda>h.
     andthen (rd h e) (\<lambda>c.
     set_prev (nxt c) (prev c) h))))"

definition list_pop :: "'e clist \<Rightarrow> 'e heap \<Rightarrow> ('e option \<times> 'e heap) result" where
  "list_pop plist h =
     andthen (rd h (head plist)) (\<lambda>c.
     andthen (list_remove (nxt c) h) (\<lambda>h.
     Inr (nxt c, h)))"

definition list_empty :: "'e clist \<Rightarrow> 'e heap \<Rightarrow> bool result" where
  "list_empty plist h =
     andthen (rd h (head plist)) (\<lambda>c. Inr (nxt c = Some (tail plist)))"

text \<open>
  The three loops follow \<open>next\<close> pointers until they meet the tail sentinel. On a heap whose
  chain is circular they would not end: the loop bodies are partial functions, \<open>None\<close>
  meaning that the loop does not return, and the function around the loop turns this into
  \<open>Diverges\<close>.
\<close>

definition returns :: "'a result option \<Rightarrow> 'a result" where
  "returns r = (case r of None \<Rightarrow> Inl Diverges | Some m \<Rightarrow> m)"

partial_function (option) elem_find_loop ::
  "'e heap \<Rightarrow> 'e \<Rightarrow> 'e \<Rightarrow> 'e option \<Rightarrow> bool result option" where
  "elem_find_loop h t obj_elem elem =
     (if elem = Some t then Some (Inr False)
      else if elem = Some obj_elem then Some (Inr True)
      else case andthen (deref elem) (rd h) of
          Inl err \<Rightarrow> Some (Inl err)
        | Inr c \<Rightarrow> elem_find_loop h t obj_elem (nxt c))"

definition elem_find :: "'e clist \<Rightarrow> 'e \<Rightarrow> 'e heap \<Rightarrow> bool result" where
  "elem_find plist obj_elem h =
     andthen (rd h (head plist)) (\<lambda>c.
     returns (elem_find_loop h (tail plist) obj_elem (nxt c)))"

text \<open>The callback of \<open>list_traversal\<close> takes the element and the \<open>int\<close> argument.\<close>

partial_function (option) list_traversal_loop ::
  "'e heap \<Rightarrow> 'e \<Rightarrow> ('e option \<Rightarrow> 'arg \<Rightarrow> bool result) \<Rightarrow> 'arg \<Rightarrow> 'e option
     \<Rightarrow> 'e option result option" where
  "list_traversal_loop h t func arg elem =
     (if elem = Some t then Some (Inr None)
      else case func elem arg of
        Inl err \<Rightarrow> Some (Inl err)
      | Inr hit \<Rightarrow>
          (if hit then Some (Inr elem)
           else case andthen (deref elem) (rd h) of
               Inl err \<Rightarrow> Some (Inl err)
             | Inr c \<Rightarrow> list_traversal_loop h t func arg (nxt c)))"

definition list_traversal ::
  "'e clist \<Rightarrow> ('e option \<Rightarrow> 'arg \<Rightarrow> bool result) \<Rightarrow> 'arg \<Rightarrow> 'e heap \<Rightarrow> 'e option result" where
  "list_traversal plist func arg h =
     andthen (rd h (head plist)) (\<lambda>c.
     andthen (list_empty plist h) (\<lambda>b.
     if b then Inr None
     else returns (list_traversal_loop h (tail plist) func arg (nxt c))))"

partial_function (option) list_len_loop ::
  "'e heap \<Rightarrow> 'e \<Rightarrow> 'e option \<Rightarrow> 32 word \<Rightarrow> 32 word result option" where
  "list_len_loop h t elem len =
     (if elem = Some t then Some (Inr len)
      else case andthen (deref elem) (rd h) of
          Inl err \<Rightarrow> Some (Inl err)
        | Inr c \<Rightarrow> list_len_loop h t (nxt c) (len + 1))"

definition list_len :: "'e clist \<Rightarrow> 'e heap \<Rightarrow> 32 word result" where
  "list_len plist h =
     andthen (rd h (head plist)) (\<lambda>c. returns (list_len_loop h (tail plist) (nxt c) 0))"

section \<open>Chains of cells\<close>

definition nx :: "'e heap \<Rightarrow> 'e \<Rightarrow> 'e option" where
  "nx h a = Option.bind (h a) nxt"

definition pv :: "'e heap \<Rightarrow> 'e \<Rightarrow> 'e option" where
  "pv h a = Option.bind (h a) prev"

fun links :: "'e heap \<Rightarrow> 'e list \<Rightarrow> bool" where
  "links h (a # b # zs) = (nx h a = Some b \<and> pv h b = Some a \<and> links h (b # zs))"
| "links h zs = True"

lemma nx_upd [simp]: "nx (h(a \<mapsto> c)) b = (if b = a then nxt c else nx h b)"
  by (simp add: nx_def)

lemma pv_upd [simp]: "pv (h(a \<mapsto> c)) b = (if b = a then prev c else pv h b)"
  by (simp add: pv_def)

lemma nx_SomeE: "nx h a = Some b \<Longrightarrow> (\<And>c. h a = Some c \<Longrightarrow> nxt c = Some b \<Longrightarrow> P) \<Longrightarrow> P"
  by (auto simp: nx_def Option.bind_eq_Some_conv)

lemma pv_SomeE: "pv h a = Some b \<Longrightarrow> (\<And>c. h a = Some c \<Longrightarrow> prev c = Some b \<Longrightarrow> P) \<Longrightarrow> P"
  by (auto simp: pv_def Option.bind_eq_Some_conv)

lemma links_Cons: "links h (a # zs) \<longleftrightarrow>
    zs = [] \<or> nx h a = Some (hd zs) \<and> pv h (hd zs) = Some a \<and> links h zs"
  by (cases zs) auto

lemma links_split: "links h (xs @ y # ys) \<longleftrightarrow> links h (xs @ [y]) \<and> links h (y # ys)"
  by (induction xs) (auto simp: links_Cons hd_append)

lemma links_cong:
  assumes "\<And>z. z \<in> set (butlast zs) \<Longrightarrow> nx h z = nx h' z"
    and "\<And>z. z \<in> set (tl zs) \<Longrightarrow> pv h z = pv h' z"
  shows "links h zs = links h' zs"
  using assms by (induction h zs rule: links.induct) auto

section \<open>The list at two sentinels\<close>

definition dll :: "'e heap \<Rightarrow> 'e clist \<Rightarrow> 'e list \<Rightarrow> bool" where
  "dll h l xs \<longleftrightarrow>
     distinct (head l # xs @ [tail l]) \<and> links h (head l # xs @ [tail l]) \<and>
     h (head l) \<noteq> None \<and> pv h (head l) = None \<and> nx h (tail l) = None"

text \<open>The cells a list is made of, and the part of the heap an operation may write.\<close>

definition list_cells :: "'e clist \<Rightarrow> 'e list \<Rightarrow> 'e set" where
  "list_cells l xs = insert (head l) (insert (tail l) (set xs))"

definition only_changes :: "'e set \<Rightarrow> 'e heap \<Rightarrow> 'e heap \<Rightarrow> bool" where
  "only_changes A h h' \<longleftrightarrow> dom h' = dom h \<and> (\<forall>a. a \<notin> A \<longrightarrow> h' a = h a)"

lemma nx_cong: "h a = h' a \<Longrightarrow> nx h a = nx h' a"
  by (simp add: nx_def)

lemma pv_cong: "h a = h' a \<Longrightarrow> pv h a = pv h' a"
  by (simp add: pv_def)

lemma dll_cong:
  assumes eq: "\<And>a. a \<in> list_cells l xs \<Longrightarrow> h' a = h a" and "dll h l xs"
  shows "dll h' l xs"
proof -
  have "links h' (head l # xs @ [tail l]) = links h (head l # xs @ [tail l])"
    by (rule links_cong) (auto intro!: nx_cong pv_cong eq simp: list_cells_def
        dest!: in_set_butlastD list.set_sel(2)[rotated])
  then show ?thesis
    using assms(2) by (simp add: dll_def nx_def pv_def eq list_cells_def)
qed

lemma dll_frame:
  assumes "only_changes A h h'" and "A \<inter> list_cells l xs = {}" and "dll h l xs"
  shows "dll h' l xs"
  by (rule dll_cong [OF _ assms(3)]) (use assms(1,2) in \<open>auto simp: only_changes_def\<close>)

lemma dll_linksD:
  assumes "dll h l (xs @ ys)"
  shows "nx h (last (head l # xs)) = Some (hd (ys @ [tail l]))"
    and "pv h (hd (ys @ [tail l])) = Some (last (head l # xs))"
proof -
  let ?b = "hd (ys @ [tail l])" and ?p = "last (head l # xs)"
  have "head l # (xs @ ys) @ [tail l] = butlast (head l # xs) @ ?p # ys @ [tail l]"
    by (simp del: last.simps butlast.simps)
  then have "links h (?p # ys @ [tail l])"
    using assms unfolding dll_def by (metis links_split)
  then show "nx h ?p = Some ?b" "pv h ?b = Some ?p"
    by (auto simp: links_Cons)
qed

lemma dll_allocated:
  assumes "dll h l xs" and "a \<in> list_cells l xs"
  shows "h a \<noteq> None"
proof -
  consider "a = head l" | "a = tail l" | "a \<in> set xs"
    using assms(2) by (auto simp: list_cells_def)
  then show ?thesis
  proof cases
    case 1
    then show ?thesis using assms(1) by (simp add: dll_def)
  next
    case 2
    then show ?thesis using dll_linksD(2) [of h l xs "[]"] assms(1) by (auto elim: pv_SomeE)
  next
    case 3
    then obtain us ws where "xs = us @ a # ws" by (meson split_list)
    then show ?thesis using dll_linksD(2) [of h l us "a # ws"] assms(1) by (auto elim: pv_SomeE)
  qed
qed

text \<open>
  The pointer surgery of an insertion and of a deletion, between the last cell of the part
  before and the first of the part after. The two halves of the chain are unchanged because
  the only cell they share with the surgery keeps the pointer that faces them.
\<close>

lemma links_before:
  assumes "links h (as @ [p])" and "p \<notin> set as" and "\<And>a. a \<in> set as \<Longrightarrow> h' a = h a"
    and "pv h' p = pv h p"
  shows "links h' (as @ [p])"
proof -
  have "links h (as @ [p]) = links h' (as @ [p])"
  proof (rule links_cong)
    show "nx h z = nx h' z" if "z \<in> set (butlast (as @ [p]))" for z
      using that assms(3) by (simp add: nx_def)
    show "pv h z = pv h' z" if "z \<in> set (tl (as @ [p]))" for z
    proof (cases "z = p")
      case False
      then have "z \<in> set as" using that by (cases as) auto
      then show ?thesis using assms(3) by (simp add: pv_def)
    qed (simp add: assms(4))
  qed
  with assms(1) show ?thesis by simp
qed

lemma links_after:
  assumes "links h (b # bs)" and "b \<notin> set bs" and "\<And>a. a \<in> set bs \<Longrightarrow> h' a = h a"
    and "nx h' b = nx h b"
  shows "links h' (b # bs)"
proof -
  have "links h (b # bs) = links h' (b # bs)"
  proof (rule links_cong)
    show "pv h z = pv h' z" if "z \<in> set (tl (b # bs))" for z
      using that assms(3) by (simp add: pv_def)
    show "nx h z = nx h' z" if "z \<in> set (butlast (b # bs))" for z
    proof (cases "z = b")
      case False
      then have "z \<in> set bs" using in_set_butlastD [OF that] by simp
      then show ?thesis using assms(3) by (simp add: nx_def)
    qed (simp add: assms(4))
  qed
  with assms(1) show ?thesis by simp
qed

lemma links_insert:
  assumes "links h (as @ p # b # bs)" and "distinct (as @ p # b # bs)"
    and "e \<notin> set (as @ p # b # bs)"
    and "\<And>a. a \<notin> {p, e, b} \<Longrightarrow> h' a = h a"
    and "nx h' p = Some e" "pv h' p = pv h p"
    and "nx h' e = Some b" "pv h' e = Some p"
    and "nx h' b = nx h b" "pv h' b = Some e"
  shows "links h' (as @ p # e # b # bs)"
proof -
  have l: "links h (as @ [p])" "links h (b # bs)"
    using assms(1) links_split [of h as p "b # bs"] by simp_all
  have "links h' (as @ [p])"
    by (rule links_before [OF l(1)]) (use assms(2,3,5-) in \<open>auto intro!: assms(4)\<close>)
  moreover have "links h' (b # bs)"
    by (rule links_after [OF l(2)]) (use assms(2,3,5-) in \<open>auto intro!: assms(4)\<close>)
  ultimately show ?thesis
    using assms(5,7,8,10) links_split [of h' as p "e # b # bs"] by simp
qed

lemma links_delete:
  assumes "links h (as @ p # e # b # bs)" and "distinct (as @ p # e # b # bs)"
    and "\<And>a. a \<notin> {p, b} \<Longrightarrow> h' a = h a"
    and "nx h' p = Some b" "pv h' p = pv h p"
    and "nx h' b = nx h b" "pv h' b = Some p"
  shows "links h' (as @ p # b # bs)"
proof -
  have l: "links h (as @ [p])" "links h (b # bs)"
    using assms(1) links_split [of h as p "e # b # bs"] by simp_all
  have "links h' (as @ [p])"
    by (rule links_before [OF l(1)]) (use assms(2,4-) in \<open>auto intro!: assms(3)\<close>)
  moreover have "links h' (b # bs)"
    by (rule links_after [OF l(2)]) (use assms(2,4-) in \<open>auto intro!: assms(3)\<close>)
  ultimately show ?thesis
    using assms(4,7) links_split [of h' as p "b # bs"] by simp
qed

section \<open>What the functions do to one list\<close>

lemma rd_Some [simp]: "h p = Some c \<Longrightarrow> rd h p = Inr c"
  by (simp add: rd_def)

lemma set_next_Some [simp]: "h p = Some c \<Longrightarrow> set_next (Some p) v h = Inr (h(p \<mapsto> c\<lparr>nxt := v\<rparr>))"
  by (simp add: set_next_def)

lemma set_prev_Some [simp]: "h p = Some c \<Longrightarrow> set_prev (Some p) v h = Inr (h(p \<mapsto> c\<lparr>prev := v\<rparr>))"
  by (simp add: set_prev_def)

lemma list_init_spec:
  assumes "h (head l) \<noteq> None" and "h (tail l) \<noteq> None" and "head l \<noteq> tail l"
  shows "\<exists>h'. list_init l h = Inr h' \<and> dll h' l [] \<and> only_changes (list_cells l []) h h'"
  using assms by (auto simp: list_init_def dll_def only_changes_def list_cells_def)

text \<open>The chain of a list, from sentinel to sentinel, cut at the place of an operation.\<close>

lemma dll_chainD:
  assumes "dll h l xs" and "head l # xs @ [tail l] = zs"
  shows "distinct zs" and "links h zs" and "set zs = list_cells l xs"
  using assms by (auto simp: dll_def list_cells_def)

lemma dll_chainI:
  assumes "dll h l ys" and "head l # xs @ [tail l] = zs" and "distinct zs" and "links h' zs"
    and "pv h' (head l) = pv h (head l)" and "nx h' (tail l) = nx h (tail l)"
  shows "dll h' l xs"
proof -
  have "links h' (head l # xs @ [tail l])" using assms(2,4) by simp
  then have "nx h' (head l) \<noteq> None" by (auto simp: links_Cons)
  then have "h' (head l) \<noteq> None" by (auto elim: nx_SomeE)
  then show ?thesis using assms by (auto simp: dll_def)
qed

lemma only_changesI:
  assumes "\<And>a. a \<notin> A \<Longrightarrow> h' a = h a" and "\<And>a. a \<in> A \<Longrightarrow> h a \<noteq> None"
    and "\<And>a. a \<in> A \<Longrightarrow> h' a \<noteq> None"
  shows "only_changes A h h'"
  using assms by (fastforce simp: only_changes_def dom_def)

lemma list_insert_before_spec:
  assumes "dll h l (xs @ ys)" and "e \<notin> list_cells l (xs @ ys)" and "h e \<noteq> None"
  shows "\<exists>h'. list_insert_before (Some (hd (ys @ [tail l]))) e h = Inr h' \<and>
    dll h' l (xs @ e # ys) \<and> only_changes (insert e (list_cells l (xs @ ys))) h h'"
proof -
  define p where "p = last (head l # xs)"
  define b where "b = hd (ys @ [tail l])"
  define fs where "fs = butlast (head l # xs)"
  define bs where "bs = tl (ys @ [tail l])"
  have front: "head l # xs = fs @ [p]" and rear: "ys @ [tail l] = b # bs"
    by (simp_all add: fs_def p_def b_def bs_def)
  have old: "head l # (xs @ ys) @ [tail l] = fs @ p # b # bs"
    and new: "head l # (xs @ e # ys) @ [tail l] = fs @ p # e # b # bs"
    using arg_cong2 [OF front rear, of append] arg_cong2 [OF front rear, of "\<lambda>u v. u @ e # v"]
    by simp_all
  note z = dll_chainD [OF assms(1) old]
  have e: "e \<notin> set (fs @ p # b # bs)" using assms(2) z(3) by simp
  have nb: "nx h p = Some b" "pv h b = Some p"
    using dll_linksD [OF assms(1)] by (simp_all only: p_def b_def)
  obtain cp cb ce where c: "h p = Some cp" "h b = Some cb" "h e = Some ce" "prev cb = Some p"
    using nb assms(3) by (auto elim!: nx_SomeE pv_SomeE)
  have ne: "p \<noteq> b" "p \<noteq> e" "b \<noteq> e" using z(1) e by auto
  let ?h = "h(p \<mapsto> cp\<lparr>nxt := Some e\<rparr>, e \<mapsto> ce\<lparr>prev := Some p, nxt := Some b\<rparr>,
      b \<mapsto> cb\<lparr>prev := Some e\<rparr>)"
  have run: "list_insert_before (Some b) e h = Inr ?h"
    using c ne by (simp add: list_insert_before_def)
  have pn: "pv ?h p = pv h p" "nx ?h b = nx h b" using c ne by (simp_all add: pv_def nx_def)
  have "links ?h (fs @ p # e # b # bs)"
    by (rule links_insert [OF z(2,1) e]) (use pn ne in auto)
  moreover have "distinct (fs @ p # e # b # bs)" using z(1) e by auto
  moreover have "b \<in> set (ys @ [tail l])" "p \<in> set (head l # xs)"
    using front rear by simp_all
  then have "head l \<noteq> b" "tail l \<noteq> p" "head l \<noteq> e" "tail l \<noteq> e"
    using assms(1,2) by (auto simp: dll_def list_cells_def)
  then have "pv ?h (head l) = pv h (head l)" "nx ?h (tail l) = nx h (tail l)"
    using pn ne by simp_all
  ultimately have "dll ?h l (xs @ e # ys)" by (intro dll_chainI [OF assms(1) new])
  moreover have "only_changes (insert e (list_cells l (xs @ ys))) h ?h"
    using c z(3) dll_allocated [OF assms(1)] by (intro only_changesI) auto
  ultimately show ?thesis using run b_def by blast
qed

lemma list_remove_spec:
  assumes "dll h l (xs @ e # ys)"
  shows "\<exists>h'. list_remove (Some e) h = Inr h' \<and> dll h' l (xs @ ys) \<and>
    only_changes (list_cells l (xs @ ys)) h h'"
proof -
  define p where "p = last (head l # xs)"
  define b where "b = hd (ys @ [tail l])"
  define fs where "fs = butlast (head l # xs)"
  define bs where "bs = tl (ys @ [tail l])"
  have front: "head l # xs = fs @ [p]" and rear: "ys @ [tail l] = b # bs"
    by (simp_all add: fs_def p_def b_def bs_def)
  have old: "head l # (xs @ e # ys) @ [tail l] = fs @ p # e # b # bs"
    and new: "head l # (xs @ ys) @ [tail l] = fs @ p # b # bs"
    using arg_cong2 [OF front rear, of append] arg_cong2 [OF front rear, of "\<lambda>u v. u @ e # v"]
    by simp_all
  note z = dll_chainD [OF assms old]
  have nb: "nx h p = Some e" "pv h e = Some p" "nx h e = Some b" "pv h b = Some e"
    using dll_linksD [OF assms] dll_linksD [of h l "xs @ [e]" ys] assms
    by (simp_all add: p_def b_def)
  obtain cp ce cb where c: "h p = Some cp" "h e = Some ce" "h b = Some cb"
      "prev ce = Some p" "nxt ce = Some b"
    using nb by (auto elim!: nx_SomeE pv_SomeE)
  have ne: "p \<noteq> b" "p \<noteq> e" "b \<noteq> e" using z(1) by auto
  let ?h = "h(p \<mapsto> cp\<lparr>nxt := Some b\<rparr>, b \<mapsto> cb\<lparr>prev := Some p\<rparr>)"
  have run: "list_remove (Some e) h = Inr ?h"
    using c ne by (simp add: list_remove_def)
  have pn: "pv ?h p = pv h p" "nx ?h b = nx h b" using c ne by (simp_all add: pv_def nx_def)
  have "links ?h (fs @ p # b # bs)"
    by (rule links_delete [OF z(2,1)]) (use pn ne in auto)
  moreover have "distinct (fs @ p # b # bs)" using z(1) by auto
  moreover have "b \<in> set (ys @ [tail l])" "p \<in> set (head l # xs)"
    using front rear by simp_all
  then have "head l \<noteq> b" "tail l \<noteq> p"
    using assms by (auto simp: dll_def)
  then have "pv ?h (head l) = pv h (head l)" "nx ?h (tail l) = nx h (tail l)"
    using pn ne by simp_all
  ultimately have "dll ?h l (xs @ ys)" by (intro dll_chainI [OF assms new])
  moreover have "p \<in> list_cells l (xs @ ys)" "b \<in> list_cells l (xs @ ys)"
      "list_cells l (xs @ ys) \<subseteq> list_cells l (xs @ e # ys)"
    using \<open>b \<in> _\<close> \<open>p \<in> _\<close> by (auto simp: list_cells_def)
  then have "only_changes (list_cells l (xs @ ys)) h ?h"
    using c dll_allocated [OF assms] by (intro only_changesI) auto
  ultimately show ?thesis using run by blast
qed

lemma list_append_spec:
  assumes "dll h l xs" and "e \<notin> list_cells l xs" and "h e \<noteq> None"
  shows "\<exists>h'. list_append l e h = Inr h' \<and> dll h' l (xs @ [e]) \<and>
    only_changes (insert e (list_cells l xs)) h h'"
  using list_insert_before_spec [of h l xs "[]" e] assms by (simp add: list_append_def)

lemma list_first:
  assumes "dll h l xs"
  shows "\<exists>c. h (head l) = Some c \<and> nxt c = Some (hd (xs @ [tail l]))"
  using dll_linksD(1) [of h l "[]" xs] assms by (auto elim: nx_SomeE)

lemma list_push_spec:
  assumes "dll h l xs" and "e \<notin> list_cells l xs" and "h e \<noteq> None"
  shows "\<exists>h'. list_push l e h = Inr h' \<and> dll h' l (e # xs) \<and>
    only_changes (insert e (list_cells l xs)) h h'"
  using list_insert_before_spec [of h l "[]" xs e] list_first [OF assms(1)] assms
  by (auto simp: list_push_def)

lemma list_pop_spec:
  assumes "dll h l (e # xs)"
  shows "\<exists>h'. list_pop l h = Inr (Some e, h') \<and> dll h' l xs \<and>
    only_changes (list_cells l xs) h h'"
  using list_remove_spec [of h l "[]" e xs] list_first [OF assms] assms
  by (auto simp: list_pop_def)

text \<open>
  Popping the empty list takes the tail sentinel out: its \<open>next\<close> is \<open>NULL\<close> and the second
  write of \<open>list_remove\<close> goes through it.
\<close>

lemma list_pop_empty:
  assumes "dll h l []"
  shows "list_pop l h = Inl Null_Deref"
proof -
  obtain c where c: "h (head l) = Some c" "nxt c = Some (tail l)"
    using list_first [OF assms] by auto
  moreover obtain d where d: "h (tail l) = Some d" "prev d = Some (head l)" "nxt d = None"
    using dll_linksD(2) [of h l "[]" "[]"] assms by (auto simp: dll_def nx_def elim: pv_SomeE)
  moreover have "head l \<noteq> tail l" using assms by (simp add: dll_def)
  ultimately show ?thesis
    by (simp add: list_pop_def list_remove_def set_prev_def)
qed

lemma list_empty_spec: "dll h l xs \<Longrightarrow> list_empty l h = Inr (xs = [])"
  using list_first [of h l xs] by (cases xs) (auto simp: list_empty_def dll_def)

text \<open>The loops, on the part of the chain they still have to walk.\<close>

lemma links_step:
  assumes "links h ((y # ys) @ [t])"
  shows "\<exists>c. rd h y = Inr c \<and> nxt c = Some (hd (ys @ [t])) \<and> links h (ys @ [t])"
proof -
  have "nx h y = Some (hd (ys @ [t]))" and "links h (ys @ [t])"
    using assms by (simp_all add: links_Cons)
  then show ?thesis by (auto elim: nx_SomeE)
qed

lemma elem_find_loop_spec:
  assumes "links h (ys @ [t])" and "t \<notin> set ys"
  shows "elem_find_loop h t x (Some (hd (ys @ [t]))) = Some (Inr (x \<in> set ys))"
  using assms
proof (induction ys)
  case Nil
  show ?case by (simp add: elem_find_loop.simps)
next
  case (Cons y ys)
  obtain c where "rd h y = Inr c" "nxt c = Some (hd (ys @ [t]))" "links h (ys @ [t])"
    using links_step [OF Cons.prems(1)] by blast
  with Cons show ?case by (subst elem_find_loop.simps) auto
qed

lemma list_traversal_loop_spec:
  assumes "links h (ys @ [t])" and "t \<notin> set ys"
    and "\<And>y. y \<in> set ys \<Longrightarrow> func (Some y) arg = Inr (P y)"
  shows "list_traversal_loop h t func arg (Some (hd (ys @ [t]))) = Some (Inr (find P ys))"
  using assms
proof (induction ys)
  case Nil
  show ?case by (simp add: list_traversal_loop.simps)
next
  case (Cons y ys)
  obtain c where "rd h y = Inr c" "nxt c = Some (hd (ys @ [t]))" "links h (ys @ [t])"
    using links_step [OF Cons.prems(1)] by blast
  with Cons show ?case by (subst list_traversal_loop.simps) auto
qed

lemma list_len_loop_spec:
  assumes "links h (ys @ [t])" and "t \<notin> set ys"
  shows "list_len_loop h t (Some (hd (ys @ [t]))) n = Some (Inr (n + of_nat (length ys)))"
  using assms
proof (induction ys arbitrary: n)
  case Nil
  show ?case by (simp add: list_len_loop.simps)
next
  case (Cons y ys)
  obtain c where "rd h y = Inr c" "nxt c = Some (hd (ys @ [t]))" "links h (ys @ [t])"
    using links_step [OF Cons.prems(1)] by blast
  with Cons show ?case by (subst list_len_loop.simps) (auto simp: algebra_simps)
qed

lemma dll_tail:
  assumes "dll h l xs"
  shows "links h (xs @ [tail l])" and "tail l \<notin> set xs"
  using assms by (auto simp: dll_def links_Cons)

lemma returns_Some [simp]: "returns (Some m) = m"
  by (simp add: returns_def)

lemma elem_find_spec: "dll h l xs \<Longrightarrow> elem_find l x h = Inr (x \<in> set xs)"
  using list_first [of h l xs] dll_tail [of h l xs]
  by (auto simp: elem_find_def elem_find_loop_spec)

lemma list_traversal_spec:
  assumes "dll h l xs" and "\<And>y. y \<in> set xs \<Longrightarrow> func (Some y) arg = Inr (P y)"
  shows "list_traversal l func arg h = Inr (find P xs)"
proof -
  obtain c where "h (head l) = Some c" "nxt c = Some (hd (xs @ [tail l]))"
    using list_first [OF assms(1)] by blast
  moreover have "list_traversal_loop h (tail l) func arg (Some (hd (xs @ [tail l])))
      = Some (Inr (find P xs))"
    by (rule list_traversal_loop_spec) (use dll_tail [OF assms(1)] assms(2) in auto)
  ultimately show ?thesis
    using list_empty_spec [OF assms(1)] by (auto simp: list_traversal_def)
qed

lemma list_len_spec: "dll h l xs \<Longrightarrow> list_len l h = Inr (of_nat (length xs))"
  using list_first [of h l xs] dll_tail [of h l xs]
  by (auto simp: list_len_def list_len_loop_spec)

section \<open>A heap of several lists\<close>

text \<open>
  The program threads the same objects onto several lists, so the unit of reasoning is a heap
  that holds a family of lists: \<open>L i\<close> are the sentinels of list \<open>i\<close>, \<open>D\<close> the lists that
  exist, \<open>lv i\<close> the contents of list \<open>i\<close>. No cell is in two lists.
\<close>

definition heap_lists ::
  "('i \<Rightarrow> 'e clist) \<Rightarrow> 'i set \<Rightarrow> 'e heap \<Rightarrow> ('i \<Rightarrow> 'e list) \<Rightarrow> bool" where
  "heap_lists L D h lv \<longleftrightarrow>
     (\<forall>i\<in>D. dll h (L i) (lv i)) \<and>
     (\<forall>i\<in>D. \<forall>j\<in>D. i \<noteq> j \<longrightarrow> list_cells (L i) (lv i) \<inter> list_cells (L j) (lv j) = {})"

definition free_cell ::
  "('i \<Rightarrow> 'e clist) \<Rightarrow> 'i set \<Rightarrow> 'e heap \<Rightarrow> ('i \<Rightarrow> 'e list) \<Rightarrow> 'e \<Rightarrow> bool" where
  "free_cell L D h lv e \<longleftrightarrow> h e \<noteq> None \<and> (\<forall>i\<in>D. e \<notin> list_cells (L i) (lv i))"

lemma list_cells_mono: "set xs \<subseteq> set ys \<Longrightarrow> list_cells l xs \<subseteq> list_cells l ys"
  by (auto simp: list_cells_def)

lemma heap_lists_update:
  assumes "heap_lists L D h lv" and "i \<in> D" and "dll h' (L i) xs"
    and "only_changes A h h'"
    and "A \<union> list_cells (L i) xs \<subseteq> B \<union> list_cells (L i) (lv i)"
    and "\<And>j. j \<in> D \<Longrightarrow> j \<noteq> i \<Longrightarrow> B \<inter> list_cells (L j) (lv j) = {}"
  shows "heap_lists L D h' (lv(i := xs))"
proof -
  have sep: "(A \<union> list_cells (L i) xs) \<inter> list_cells (L j) (lv j) = {}" if "j \<in> D" "j \<noteq> i" for j
  proof -
    have "list_cells (L i) (lv i) \<inter> list_cells (L j) (lv j) = {}"
      using assms(1,2) that by (auto simp: heap_lists_def)
    then show ?thesis using assms(5) assms(6) [OF that] by blast
  qed
  have "dll h' (L j) ((lv(i := xs)) j)" if "j \<in> D" for j
  proof (cases "j = i")
    case False
    then show ?thesis
      using dll_frame [OF assms(4), of "L j" "lv j"] sep [OF that False] assms(1) that
      by (simp add: heap_lists_def Int_Un_distrib2)
  qed (simp add: assms(3))
  moreover have "list_cells (L j) ((lv(i := xs)) j) \<inter> list_cells (L k) ((lv(i := xs)) k) = {}"
    if "j \<in> D" "k \<in> D" "j \<noteq> k" for j k
    using sep [of j] sep [of k] assms(1) that
    by (auto simp: heap_lists_def)
  ultimately show ?thesis by (simp add: heap_lists_def)
qed

lemma heap_lists_dll: "heap_lists L D h lv \<Longrightarrow> i \<in> D \<Longrightarrow> dll h (L i) (lv i)"
  by (simp add: heap_lists_def)

lemma heap_lists_cong:
  assumes "heap_lists L D h lv" and "\<And>i a. i \<in> D \<Longrightarrow> a \<in> list_cells (L i) (lv i) \<Longrightarrow> h' a = h a"
  shows "heap_lists L D h' lv"
  using assms(1) dll_cong [of "L _" "lv _" h' h] assms(2) by (simp add: heap_lists_def)

lemma only_changes_dom: "only_changes A h h' \<Longrightarrow> dom h' = dom h"
  by (simp add: only_changes_def)

lemma hl_init:
  assumes "heap_lists L D h lv" and "i \<notin> D" and "head (L i) \<noteq> tail (L i)"
    and "free_cell L D h lv (head (L i))" and "free_cell L D h lv (tail (L i))"
  shows "\<exists>h'. list_init (L i) h = Inr h' \<and>
    heap_lists L (insert i D) h' (lv(i := [])) \<and> dom h' = dom h"
proof -
  obtain h' where h': "list_init (L i) h = Inr h'" "dll h' (L i) []"
      "only_changes (list_cells (L i) []) h h'"
    using list_init_spec [of h "L i"] assms(3-5) by (auto simp: free_cell_def)
  have sep: "list_cells (L i) [] \<inter> list_cells (L j) (lv j) = {}" if "j \<in> D" for j
    using assms(4,5) that by (auto simp: free_cell_def list_cells_def)
  have "dll h' (L j) (lv j)" if "j \<in> D" for j
    using dll_frame [OF h'(3) sep [OF that] heap_lists_dll [OF assms(1) that]] .
  then have "heap_lists L (insert i D) h' (lv(i := []))"
    using assms(1,2) h'(2) sep unfolding heap_lists_def by (auto simp: fun_upd_def; blast)
  with h' only_changes_dom [OF h'(3)] show ?thesis by blast
qed

lemma hl_append:
  assumes "heap_lists L D h lv" and "i \<in> D" and "free_cell L D h lv e"
  shows "\<exists>h'. list_append (L i) e h = Inr h' \<and>
    heap_lists L D h' (lv(i := lv i @ [e])) \<and> dom h' = dom h"
proof -
  obtain h' where h': "list_append (L i) e h = Inr h'" "dll h' (L i) (lv i @ [e])"
      "only_changes (insert e (list_cells (L i) (lv i))) h h'"
    using list_append_spec [OF heap_lists_dll [OF assms(1,2)]] assms(2,3)
    by (auto simp: free_cell_def)
  have "heap_lists L D h' (lv(i := lv i @ [e]))"
    by (rule heap_lists_update [OF assms(1,2) h'(2,3), of "{e}"])
      (use assms(3) in \<open>auto simp: list_cells_def free_cell_def\<close>)
  with h' only_changes_dom [OF h'(3)] show ?thesis by blast
qed

lemma hl_push:
  assumes "heap_lists L D h lv" and "i \<in> D" and "free_cell L D h lv e"
  shows "\<exists>h'. list_push (L i) e h = Inr h' \<and>
    heap_lists L D h' (lv(i := e # lv i)) \<and> dom h' = dom h"
proof -
  obtain h' where h': "list_push (L i) e h = Inr h'" "dll h' (L i) (e # lv i)"
      "only_changes (insert e (list_cells (L i) (lv i))) h h'"
    using list_push_spec [OF heap_lists_dll [OF assms(1,2)]] assms(2,3)
    by (auto simp: free_cell_def)
  have "heap_lists L D h' (lv(i := e # lv i))"
    by (rule heap_lists_update [OF assms(1,2) h'(2,3), of "{e}"])
      (use assms(3) in \<open>auto simp: list_cells_def free_cell_def\<close>)
  with h' only_changes_dom [OF h'(3)] show ?thesis by blast
qed

lemma hl_remove:
  assumes "heap_lists L D h lv" and "i \<in> D" and "e \<in> set (lv i)"
  shows "\<exists>h'. list_remove (Some e) h = Inr h' \<and>
    heap_lists L D h' (lv(i := remove1 e (lv i))) \<and> dom h' = dom h"
proof -
  obtain us ws where uw: "lv i = us @ e # ws" "e \<notin> set us"
    using assms(3) by (meson split_list_first)
  then have r: "remove1 e (lv i) = us @ ws" by (simp add: remove1_append)
  obtain h' where h': "list_remove (Some e) h = Inr h'" "dll h' (L i) (us @ ws)"
      "only_changes (list_cells (L i) (us @ ws)) h h'"
    using list_remove_spec [of h "L i" us e ws] heap_lists_dll [OF assms(1,2)] uw by auto
  have "heap_lists L D h' (lv(i := us @ ws))"
    by (rule heap_lists_update [OF assms(1,2) h'(2,3), of "{}"])
      (auto simp: list_cells_def uw)
  with h' r only_changes_dom [OF h'(3)] show ?thesis by simp
qed

lemma hl_pop:
  assumes "heap_lists L D h lv" and "i \<in> D" and "lv i = e # xs"
  shows "\<exists>h'. list_pop (L i) h = Inr (Some e, h') \<and>
    heap_lists L D h' (lv(i := xs)) \<and> dom h' = dom h"
proof -
  obtain h' where h': "list_pop (L i) h = Inr (Some e, h')" "dll h' (L i) xs"
      "only_changes (list_cells (L i) xs) h h'"
    using list_pop_spec [of h "L i" e xs] heap_lists_dll [OF assms(1,2)] assms(3) by auto
  have "heap_lists L D h' (lv(i := xs))"
    by (rule heap_lists_update [OF assms(1,2) h'(2,3), of "{}"])
      (auto simp: list_cells_def assms(3))
  with h' only_changes_dom [OF h'(3)] show ?thesis by blast
qed

text \<open>The cells that can be elements of lists: allocated, and no sentinel.\<close>

definition node_cells :: "('i \<Rightarrow> 'e clist) \<Rightarrow> 'i set \<Rightarrow> 'e heap \<Rightarrow> 'e set" where
  "node_cells L D h = {e. h e \<noteq> None \<and> (\<forall>i\<in>D. e \<noteq> head (L i) \<and> e \<noteq> tail (L i))}"

lemma free_cell_node:
  "free_cell L D h lv e \<longleftrightarrow> e \<in> node_cells L D h \<and> (\<forall>i\<in>D. e \<notin> set (lv i))"
  by (auto simp: free_cell_def node_cells_def list_cells_def)

lemma node_cells_dom: "dom h' = dom h \<Longrightarrow> node_cells L D h' = node_cells L D h"
  by (auto simp: node_cells_def dom_def set_eq_iff)

lemma heap_lists_distinct: "heap_lists L D h lv \<Longrightarrow> i \<in> D \<Longrightarrow> distinct (lv i)"
  by (auto simp: heap_lists_def dll_def)

lemma heap_lists_disjoint:
  assumes "heap_lists L D h lv" and "i \<in> D" and "j \<in> D" and "i \<noteq> j" and "e \<in> set (lv i)"
  shows "e \<notin> set (lv j)"
  using assms unfolding heap_lists_def list_cells_def by fastforce

lemma heap_lists_nodes:
  assumes "heap_lists L D h lv" and "i \<in> D"
  shows "set (lv i) \<subseteq> node_cells L D h"
proof
  fix e assume e: "e \<in> set (lv i)"
  have d: "dll h (L i) (lv i)" by (rule heap_lists_dll [OF assms])
  have "h e \<noteq> None" using dll_allocated [OF d] e by (simp add: list_cells_def)
  moreover have "e \<noteq> head (L j) \<and> e \<noteq> tail (L j)" if "j \<in> D" for j
  proof (cases "j = i")
    case True
    then show ?thesis using d e by (auto simp: dll_def)
  next
    case False
    then have "list_cells (L i) (lv i) \<inter> list_cells (L j) (lv j) = {}"
      using assms that by (auto simp: heap_lists_def)
    then show ?thesis using e by (auto simp: list_cells_def)
  qed
  ultimately show "e \<in> node_cells L D h" by (simp add: node_cells_def)
qed

section \<open>The interface of the lists\<close>

text \<open>
  What the rest of the program relies on: a store of lists, in which an element is on at
  most one list, and the seven operations. \<open>nodes h\<close> are the cells that may be linked; no
  operation allocates or frees any.
\<close>

locale list_store =
  fixes ok :: "'h \<Rightarrow> ('i \<Rightarrow> 'e list) \<Rightarrow> bool"
    and valid :: "'i set"
    and nodes :: "'h \<Rightarrow> 'e set"
    and app :: "'i \<Rightarrow> 'e \<Rightarrow> 'h \<Rightarrow> 'h result"
    and push :: "'i \<Rightarrow> 'e \<Rightarrow> 'h \<Rightarrow> 'h result"
    and pop :: "'i \<Rightarrow> 'h \<Rightarrow> ('e option \<times> 'h) result"
    and rem :: "'e \<Rightarrow> 'h \<Rightarrow> 'h result"
    and mem :: "'i \<Rightarrow> 'e \<Rightarrow> 'h \<Rightarrow> bool result"
    and isempty :: "'i \<Rightarrow> 'h \<Rightarrow> bool result"
  assumes ok_distinct: "ok h lv \<Longrightarrow> i \<in> valid \<Longrightarrow> distinct (lv i)"
    and ok_disjoint:
      "ok h lv \<Longrightarrow> i \<in> valid \<Longrightarrow> j \<in> valid \<Longrightarrow> i \<noteq> j \<Longrightarrow> e \<in> set (lv i) \<Longrightarrow> e \<notin> set (lv j)"
    and ok_nodes: "ok h lv \<Longrightarrow> i \<in> valid \<Longrightarrow> set (lv i) \<subseteq> nodes h"
    and app_ok: "ok h lv \<Longrightarrow> i \<in> valid \<Longrightarrow> e \<in> nodes h \<Longrightarrow> \<forall>j\<in>valid. e \<notin> set (lv j) \<Longrightarrow>
      \<exists>h'. app i e h = Inr h' \<and> ok h' (lv(i := lv i @ [e])) \<and> nodes h' = nodes h"
    and push_ok: "ok h lv \<Longrightarrow> i \<in> valid \<Longrightarrow> e \<in> nodes h \<Longrightarrow> \<forall>j\<in>valid. e \<notin> set (lv j) \<Longrightarrow>
      \<exists>h'. push i e h = Inr h' \<and> ok h' (lv(i := e # lv i)) \<and> nodes h' = nodes h"
    and pop_ok: "ok h lv \<Longrightarrow> i \<in> valid \<Longrightarrow> lv i = e # xs \<Longrightarrow>
      \<exists>h'. pop i h = Inr (Some e, h') \<and> ok h' (lv(i := xs)) \<and> nodes h' = nodes h"
    and rem_ok: "ok h lv \<Longrightarrow> i \<in> valid \<Longrightarrow> e \<in> set (lv i) \<Longrightarrow>
      \<exists>h'. rem e h = Inr h' \<and> ok h' (lv(i := remove1 e (lv i))) \<and> nodes h' = nodes h"
    and mem_ok: "ok h lv \<Longrightarrow> i \<in> valid \<Longrightarrow> mem i e h = Inr (e \<in> set (lv i))"
    and isempty_ok: "ok h lv \<Longrightarrow> i \<in> valid \<Longrightarrow> isempty i h = Inr (lv i = [])"
begin

text \<open>Round robin: putting an element at the end and taking the first one rotates the list.\<close>

lemma app_pop:
  assumes "ok h lv" and "i \<in> valid" and "e \<in> nodes h" and "\<forall>j\<in>valid. e \<notin> set (lv j)"
  shows "\<exists>h1 h2. app i e h = Inr h1 \<and> isempty i h1 = Inr False \<and>
    pop i h1 = Inr (Some (hd (lv i @ [e])), h2) \<and>
    ok h2 (lv(i := tl (lv i @ [e]))) \<and> nodes h2 = nodes h"
proof -
  obtain h1 where 1: "app i e h = Inr h1" "ok h1 (lv(i := lv i @ [e]))" "nodes h1 = nodes h"
    using app_ok [OF assms] by blast
  have split: "(lv(i := lv i @ [e])) i = hd (lv i @ [e]) # tl (lv i @ [e])" by simp
  obtain h2 where "pop i h1 = Inr (Some (hd (lv i @ [e])), h2)"
      "ok h2 (lv(i := tl (lv i @ [e])))" "nodes h2 = nodes h1"
    using pop_ok [OF 1(2) assms(2) split] unfolding fun_upd_upd by blast
  moreover have "isempty i h1 = Inr False" using isempty_ok [OF 1(2) assms(2)] by simp
  ultimately show ?thesis using 1 by auto
qed

text \<open>Handing the first element of one list to the front of another.\<close>

lemma pop_push:
  assumes "ok h lv" and "i \<in> valid" and "j \<in> valid" and "i \<noteq> j" and "lv i = e # xs"
  shows "\<exists>h1 h2. pop i h = Inr (Some e, h1) \<and> mem j e h1 = Inr False \<and>
    push j e h1 = Inr h2 \<and> ok h2 (lv(i := xs, j := e # lv j)) \<and> nodes h2 = nodes h"
proof -
  obtain h1 where 1: "pop i h = Inr (Some e, h1)" "ok h1 (lv(i := xs))" "nodes h1 = nodes h"
    using pop_ok [OF assms(1,2,5)] by blast
  have e: "e \<in> set (lv i)" "e \<notin> set xs" using ok_distinct [OF assms(1,2)] assms(5) by auto
  have off: "\<forall>k\<in>valid. e \<notin> set ((lv(i := xs)) k)"
    using ok_disjoint [OF assms(1,2) _ _ e(1)] e(2) by auto
  have lj: "(lv(i := xs)) j = lv j" using assms(4) by simp
  have "e \<in> nodes h1" using ok_nodes [OF assms(1,2)] e(1) 1(3) by auto
  then obtain h2 where "push j e h1 = Inr h2" "ok h2 (lv(i := xs, j := e # lv j))"
      "nodes h2 = nodes h1"
    using push_ok [OF 1(2) assms(3) _ off] unfolding lj by blast
  moreover have "mem j e h1 = Inr False" using mem_ok [OF 1(2) assms(3)] off assms(3) by simp
  ultimately show ?thesis using 1 by auto
qed

text \<open>Handing the first element of one list to the end of another.\<close>

lemma pop_app:
  assumes "ok h lv" and "i \<in> valid" and "j \<in> valid" and "i \<noteq> j" and "lv i = e # xs"
  shows "\<exists>h1 h2. pop i h = Inr (Some e, h1) \<and> app j e h1 = Inr h2 \<and>
    ok h2 (lv(i := xs, j := lv j @ [e])) \<and> nodes h2 = nodes h"
proof -
  obtain h1 where 1: "pop i h = Inr (Some e, h1)" "ok h1 (lv(i := xs))" "nodes h1 = nodes h"
    using pop_ok [OF assms(1,2,5)] by blast
  have e: "e \<in> set (lv i)" "e \<notin> set xs" using ok_distinct [OF assms(1,2)] assms(5) by auto
  have off: "\<forall>k\<in>valid. e \<notin> set ((lv(i := xs)) k)"
    using ok_disjoint [OF assms(1,2) _ _ e(1)] e(2) by auto
  have lj: "(lv(i := xs)) j = lv j" using assms(4) by simp
  have "e \<in> nodes h1" using ok_nodes [OF assms(1,2)] e(1) 1(3) by auto
  then obtain h2 where "app j e h1 = Inr h2" "ok h2 (lv(i := xs, j := lv j @ [e]))"
      "nodes h2 = nodes h1"
    using app_ok [OF 1(2) assms(3) _ off] unfolding lj by blast
  then show ?thesis using 1 by auto
qed

end

text \<open>The functions of list.c keep the promises, for any family of sentinels.\<close>

interpretation cl: list_store "heap_lists L D" D "node_cells L D"
    "\<lambda>i. list_append (L i)" "\<lambda>i. list_push (L i)" "\<lambda>i. list_pop (L i)"
    "\<lambda>e. list_remove (Some e)" "\<lambda>i e. elem_find (L i) e" "\<lambda>i. list_empty (L i)"
  for L :: "'i \<Rightarrow> 'e clist" and D
proof
  fix h :: "'e heap" and lv i j e xs
  assume ok: "heap_lists L D h lv" and i: "i \<in> D"
  show "distinct (lv i)" by (rule heap_lists_distinct [OF ok i])
  show "e \<notin> set (lv j)" if "j \<in> D" "i \<noteq> j" "e \<in> set (lv i)"
    by (rule heap_lists_disjoint [OF ok i that])
  show "set (lv i) \<subseteq> node_cells L D h" by (rule heap_lists_nodes [OF ok i])
  show "elem_find (L i) e h = Inr (e \<in> set (lv i))"
    by (rule elem_find_spec [OF heap_lists_dll [OF ok i]])
  show "list_empty (L i) h = Inr (lv i = [])"
    by (rule list_empty_spec [OF heap_lists_dll [OF ok i]])
  show "\<exists>h'. list_append (L i) e h = Inr h' \<and> heap_lists L D h' (lv(i := lv i @ [e])) \<and>
      node_cells L D h' = node_cells L D h"
    if "e \<in> node_cells L D h" "\<forall>j\<in>D. e \<notin> set (lv j)"
    using hl_append [OF ok i] that node_cells_dom unfolding free_cell_node by metis
  show "\<exists>h'. list_push (L i) e h = Inr h' \<and> heap_lists L D h' (lv(i := e # lv i)) \<and>
      node_cells L D h' = node_cells L D h"
    if "e \<in> node_cells L D h" "\<forall>j\<in>D. e \<notin> set (lv j)"
    using hl_push [OF ok i] that node_cells_dom unfolding free_cell_node by metis
  show "\<exists>h'. list_remove (Some e) h = Inr h' \<and> heap_lists L D h' (lv(i := remove1 e (lv i))) \<and>
      node_cells L D h' = node_cells L D h" if "e \<in> set (lv i)"
    using hl_remove [OF ok i that] node_cells_dom by metis
  show "\<exists>h'. list_pop (L i) h = Inr (Some e, h') \<and> heap_lists L D h' (lv(i := xs)) \<and>
      node_cells L D h' = node_cells L D h" if "lv i = e # xs"
    using hl_pop [OF ok i that] node_cells_dom by metis
qed

end
