(* ===== verification/Bitmap.thy ===== *)
theory Bitmap
  imports Prelude
begin

text \<open>
  The bitmap of \<open>lib/bitmap.c\<close>: an array of bytes and its length, with the C functions at the
  width of their integers. A read or write outside the array is \<open>Out_Of_Bounds\<close>. The second
  half relates the functions to the set of bits that are set.
\<close>

record bitmap =
  btmp_bytes_len :: uint32_t
  bits :: "uint8_t list"

section \<open>The functions of bitmap.c\<close>

definition byte_at :: "bitmap \<Rightarrow> 32 word \<Rightarrow> 8 word result" where
  "byte_at btmp i =
     (if unat i < length (bits btmp) then Inr (bits btmp ! unat i) else Inl Out_Of_Bounds)"

definition bitmap_init :: "bitmap \<Rightarrow> bitmap result" where
  "bitmap_init btmp =
     (let n = unat (btmp_bytes_len btmp) in
      if n \<le> length (bits btmp)
      then Inr (btmp\<lparr>bits := replicate n 0 @ drop n (bits btmp)\<rparr>)
      else Inl Out_Of_Bounds)"

text \<open>\<open>BITMAP_MASK << n\<close> is an \<open>int\<close>; the byte it meets is promoted to \<open>int\<close>.\<close>

definition bitmap_mask :: "32 word \<Rightarrow> 32 word" where
  "bitmap_mask n = push_bit (unat n) 1"

definition bitmap_scan_test :: "bitmap \<Rightarrow> 32 word \<Rightarrow> bool result" where
  "bitmap_scan_test btmp bit_idx =
     (let byte_idx = bit_idx div 8; bit_odd = bit_idx mod 8 in
      andthen (byte_at btmp byte_idx) (\<lambda>y.
      Inr (ucast y AND bitmap_mask bit_odd \<noteq> 0)))"

text \<open>
  The first loop of \<open>bitmap_scan\<close> reads the byte before it compares the index with the
  length.
\<close>

function scan_byte_loop :: "bitmap \<Rightarrow> 32 word \<Rightarrow> 32 word result" where
  "scan_byte_loop btmp idx_byte =
     (case byte_at btmp idx_byte of
        Inl e \<Rightarrow> Inl e
      | Inr y \<Rightarrow>
          (if y = 0xff \<and> idx_byte < btmp_bytes_len btmp
           then scan_byte_loop btmp (idx_byte + 1)
           else Inr idx_byte))"
  by pat_completeness auto
termination
  by (relation "measure (\<lambda>(btmp, i). unat (btmp_bytes_len btmp) - unat i)")
    (auto simp: unat_plus1_less word_less_nat_alt)

declare scan_byte_loop.simps [simp del]

text \<open>The mask, cut to a byte, meets a byte in at most one bit.\<close>

lemma mask_byte_bit:
  "(ucast (push_bit i (1 :: 32 word)) :: 8 word) AND y \<noteq> 0 \<longleftrightarrow> i < 8 \<and> bit y i"
proof
  assume "(ucast (push_bit i (1 :: 32 word)) :: 8 word) AND y \<noteq> 0"
  then obtain n where "bit ((ucast (push_bit i (1 :: 32 word)) :: 8 word) AND y) n"
    by (auto simp: bit_eq_iff)
  then show "i < 8 \<and> bit y i" by (auto simp: bit_simps)
next
  assume "i < 8 \<and> bit y i"
  then have "bit ((ucast (push_bit i (1 :: 32 word)) :: 8 word) AND y) i"
    by (simp add: bit_simps)
  then show "(ucast (push_bit i (1 :: 32 word)) :: 8 word) AND y \<noteq> 0" by auto
qed

text \<open>The second loop stops at the latest when the mask, cut to a byte, is \<open>0\<close>.\<close>

function scan_bit_loop :: "8 word \<Rightarrow> nat \<Rightarrow> nat" where
  "scan_bit_loop y idx_bit =
     (if ucast (push_bit idx_bit (1 :: 32 word)) AND y \<noteq> 0
      then scan_bit_loop y (Suc idx_bit) else idx_bit)"
  by pat_completeness auto
termination
proof (relation "measure (\<lambda>(y, i). 8 - i)")
  fix y :: "8 word" and i
  assume "ucast (push_bit i (1 :: 32 word)) AND y \<noteq> 0"
  then have "i < 8" by (simp only: mask_byte_bit)
  then show "((y, Suc i), y, i) \<in> measure (\<lambda>(y, i). 8 - i)" by simp
qed simp

declare scan_bit_loop.simps [simp del]

text \<open>
  The third loop, for \<open>cnt > 1\<close>: \<open>bit_left\<close> is decremented after it is compared with \<open>0\<close>;
  the result \<open>-1\<close> is the initial value of \<open>bit_idx_start\<close>.
\<close>

function scan_run_loop ::
  "bitmap \<Rightarrow> 32 word \<Rightarrow> 32 word \<Rightarrow> 32 word \<Rightarrow> 32 word \<Rightarrow> 32 word result" where
  "scan_run_loop btmp cnt bit_left next_bit count =
     (if bit_left = 0 then Inr (- 1)
      else case bitmap_scan_test btmp next_bit of
          Inl e \<Rightarrow> Inl e
        | Inr is_set \<Rightarrow>
            (let count = (if \<not> is_set then count + 1 else 0) in
             if count = cnt then Inr (next_bit - cnt + 1)
             else scan_run_loop btmp cnt (bit_left - 1) (next_bit + 1) count))"
  by pat_completeness auto
termination
  by (relation "measure (\<lambda>(btmp, cnt, bit_left, next_bit, count). unat bit_left)")
    (auto simp: unat_minus_one unat_gt_0)

declare scan_run_loop.simps [simp del]

definition bitmap_scan :: "bitmap \<Rightarrow> 32 word \<Rightarrow> 32 word result" where
  "bitmap_scan btmp cnt =
     andthen (scan_byte_loop btmp 0) (\<lambda>idx_byte.
     assert_c (idx_byte < btmp_bytes_len btmp) (
     if idx_byte = btmp_bytes_len btmp then Inr (- 1)
     else andthen (byte_at btmp idx_byte) (\<lambda>y.
     let bit_idx_start = idx_byte * 8 + of_nat (scan_bit_loop y 0) in
     if cnt = 1 then Inr bit_idx_start
     else scan_run_loop btmp cnt (btmp_bytes_len btmp * 8 - bit_idx_start)
            (bit_idx_start + 1) 1)))"

definition bitmap_set :: "bitmap \<Rightarrow> 32 word \<Rightarrow> 8 word \<Rightarrow> bitmap result" where
  "bitmap_set btmp bit_idx value =
     assert_c (value = 0 \<or> value = 1) (
     let byte_idx = bit_idx div 8; bit_odd = bit_idx mod 8 in
     andthen (byte_at btmp byte_idx) (\<lambda>y.
     Inr (btmp\<lparr>bits := (bits btmp)[unat byte_idx :=
       (if value \<noteq> 0 then ucast (ucast y OR bitmap_mask bit_odd)
        else ucast (ucast y AND NOT (bitmap_mask bit_odd)))]\<rparr>)))"

section \<open>The bits of a bitmap\<close>

text \<open>
  \<open>bit_of b n\<close>: bit \<open>n\<close> of the map is set. \<open>wf_bitmap\<close>: the array is as long as the recorded
  length and its bits can be numbered by an \<open>int\<close>.
\<close>

definition bit_of :: "bitmap \<Rightarrow> nat \<Rightarrow> bool" where
  "bit_of b n \<longleftrightarrow> n div 8 < length (bits b) \<and> bit (bits b ! (n div 8)) (n mod 8)"

definition nbits :: "bitmap \<Rightarrow> nat" where
  "nbits b = 8 * length (bits b)"

definition wf_bitmap :: "bitmap \<Rightarrow> bool" where
  "wf_bitmap b \<longleftrightarrow> unat (btmp_bytes_len b) = length (bits b) \<and> nbits b < 2 ^ 31"

lemma byte_of_bit [simp]: "unat (i div 8 :: 32 word) = unat i div 8"
    "unat (i mod 8 :: 32 word) = unat i mod 8"
  by (simp_all add: unat_div unat_mod)

lemma div8_less: "n div 8 < length (bits b) \<longleftrightarrow> n < nbits b"
  by (auto simp: nbits_def)

lemma bitmap_init_spec:
  assumes "wf_bitmap b"
  shows "\<exists>b'. bitmap_init b = Inr b' \<and> wf_bitmap b' \<and> nbits b' = nbits b \<and> (\<forall>n. \<not> bit_of b' n)"
  using assms by (auto simp: bitmap_init_def wf_bitmap_def nbits_def bit_of_def)

lemma bit_bitmap_mask: "bit (bitmap_mask k) n \<longleftrightarrow> n = unat k \<and> n < 32"
  by (auto simp: bitmap_mask_def bit_simps)

lemma bitmap_scan_test_spec:
  "bitmap_scan_test b i =
     (if unat i < nbits b then Inr (bit_of b (unat i)) else Inl Out_Of_Bounds)"
proof -
  have "ucast y AND bitmap_mask (i mod 8) \<noteq> 0 \<longleftrightarrow> bit y (unat i mod 8)" for y :: "8 word"
  proof -
    have "ucast y AND bitmap_mask (i mod 8) \<noteq> 0 \<longleftrightarrow>
        (\<exists>n<32. bit (ucast y AND bitmap_mask (i mod 8) :: 32 word) n)"
      by (simp add: bit_eq_iff)
    also have "\<dots> \<longleftrightarrow> bit y (unat i mod 8)"
      by (auto simp: bit_bitmap_mask bit_simps intro!: exI [of _ "unat i mod 8"] less_trans [OF mod_less_divisor])
    finally show ?thesis .
  qed
  then show ?thesis
    by (simp add: bitmap_scan_test_def byte_at_def bit_of_def Let_def flip: div8_less)
qed

lemma set_byte_bit:
  fixes y :: "8 word"
  assumes "m < 8"
  shows "bit (ucast (ucast y OR bitmap_mask k) :: 8 word) m \<longleftrightarrow> bit y m \<or> m = unat k"
    and "bit (ucast (ucast y AND NOT (bitmap_mask k)) :: 8 word) m \<longleftrightarrow> bit y m \<and> m \<noteq> unat k"
  using assms by (auto simp: bit_bitmap_mask bit_simps)

lemma bitmap_set_spec:
  assumes "unat i < nbits b" and "v = 0 \<or> v = 1"
  shows "\<exists>b'. bitmap_set b i v = Inr b' \<and> btmp_bytes_len b' = btmp_bytes_len b \<and>
    nbits b' = nbits b \<and> (\<forall>n. bit_of b' n = (if n = unat i then v = 1 else bit_of b n))"
proof -
  have lt: "unat i div 8 < length (bits b)" using assms(1) by (simp add: div8_less)
  have n_eq: "n = unat i \<longleftrightarrow> n div 8 = unat i div 8 \<and> n mod 8 = unat i mod 8" for n
    by (metis div_mult_mod_eq)
  show ?thesis
    using assms(2) lt
    by (auto simp: bitmap_set_def Let_def byte_at_def nbits_def bit_of_def nth_list_update
        set_byte_bit n_eq)
qed

lemma bitmap_set_out:
  assumes "\<not> unat i < nbits b" and "v = 0 \<or> v = 1"
  shows "bitmap_set b i v = Inl Out_Of_Bounds"
  using assms by (auto simp: bitmap_set_def Let_def byte_at_def div8_less)

subsection \<open>Searching\<close>

lemma full_byte: "(y :: 8 word) = 255 \<longleftrightarrow> (\<forall>j<8. bit y j)"
proof -
  have "(255 :: 8 word) = - 1" by simp
  then show ?thesis by (simp add: bit_eq_iff)
qed

lemma scan_bit_loop_spec:
  assumes "k \<le> 8" and "\<forall>j<k. bit y j" and "y \<noteq> 255"
  shows "scan_bit_loop y k < 8 \<and> \<not> bit y (scan_bit_loop y k) \<and>
    (\<forall>j < scan_bit_loop y k. bit y j)"
  using assms
proof (induction y k rule: scan_bit_loop.induct)
  case (1 y k)
  have "k < 8" using "1.prems" by (cases "k = 8") (auto simp: full_byte)
  show ?case
  proof (cases "bit y k")
    case True
    have g: "ucast (push_bit k (1 :: 32 word)) AND y \<noteq> 0"
      using True \<open>k < 8\<close> mask_byte_bit by blast
    have "\<forall>j<Suc k. bit y j" using True "1.prems"(2) by (auto simp: less_Suc_eq)
    moreover have "scan_bit_loop y k = scan_bit_loop y (Suc k)"
      by (rule trans [OF scan_bit_loop.simps]) (simp only: g if_True simp_thms)
    ultimately show ?thesis
      using "1.IH" [OF g _ _ "1.prems"(3)] Suc_leI [OF \<open>k < 8\<close>] by presburger
  next
    case False
    have g: "\<not> ucast (push_bit k (1 :: 32 word)) AND y \<noteq> 0"
      using False mask_byte_bit by blast
    have "scan_bit_loop y k = k"
      by (rule trans [OF scan_bit_loop.simps]) (simp only: g if_False)
    with False "1.prems" \<open>k < 8\<close> show ?thesis by simp
  qed
qed

lemma scan_byte_loop_spec:
  assumes "wf_bitmap b" and "unat i \<le> length (bits b)"
  shows "(\<exists>r. scan_byte_loop b i = Inr r \<and> unat r < length (bits b) \<and> unat i \<le> unat r \<and>
      bits b ! unat r \<noteq> 255 \<and> (\<forall>j. unat i \<le> j \<and> j < unat r \<longrightarrow> bits b ! j = 255)) \<or>
    scan_byte_loop b i = Inl Out_Of_Bounds \<and>
      (\<forall>j. unat i \<le> j \<and> j < length (bits b) \<longrightarrow> bits b ! j = 255)"
  using assms
proof (induction b i rule: scan_byte_loop.induct)
  case (1 b i)
  have len: "i < btmp_bytes_len b \<longleftrightarrow> unat i < length (bits b)"
    using "1.prems"(1) by (simp add: wf_bitmap_def word_less_nat_alt)
  show ?case
  proof (cases "unat i < length (bits b)")
    case False
    then show ?thesis by (subst (1 2) scan_byte_loop.simps) (auto simp: byte_at_def)
  next
    case lt: True
    show ?thesis
    proof (cases "bits b ! unat i = 255")
      case False
      then show ?thesis using lt by (subst (1 2) scan_byte_loop.simps) (auto simp: byte_at_def)
    next
      case full: True
      have step: "scan_byte_loop b i = scan_byte_loop b (i + 1)"
        using lt full len by (subst scan_byte_loop.simps) (simp add: byte_at_def)
      have i1: "unat (i + 1) = Suc (unat i)"
        using lt len by (auto intro: unat_plus1_less)
      have all: "(\<forall>j. unat i \<le> j \<and> j < m \<longrightarrow> bits b ! j = 255) \<longleftrightarrow>
          (\<forall>j. Suc (unat i) \<le> j \<and> j < m \<longrightarrow> bits b ! j = 255)" for m
        using full by (metis Suc_leD Suc_leI le_neq_implies_less)
      have "byte_at b i = Inr 255" "i < btmp_bytes_len b"
        using lt full len by (auto simp: byte_at_def)
      from "1.IH" [OF this(1) _ "1.prems"(1)] this(2) lt i1 show ?thesis
        unfolding step all i1 by fastforce
    qed
  qed
qed

text \<open>\<open>k\<close> clear bits from \<open>r\<close> on, inside the map.\<close>

definition run_free :: "bitmap \<Rightarrow> nat \<Rightarrow> nat \<Rightarrow> bool" where
  "run_free b r k \<longleftrightarrow> r + k \<le> nbits b \<and> (\<forall>i<k. \<not> bit_of b (r + i))"

definition first_run :: "bitmap \<Rightarrow> nat \<Rightarrow> 32 word result \<Rightarrow> bool" where
  "first_run b k m \<longleftrightarrow>
     (if \<exists>s. run_free b s k
      then \<exists>r. m = Inr r \<and> run_free b (unat r) k \<and> (\<forall>s<unat r. \<not> run_free b s k)
      else m = Inl Out_Of_Bounds)"

lemma first_runI:
  "run_free b (unat r) k \<Longrightarrow> (\<And>s. s < unat r \<Longrightarrow> \<not> run_free b s k) \<Longrightarrow> first_run b k (Inr r)"
  by (auto simp: first_run_def)

lemma first_run_none: "(\<And>s. \<not> run_free b s k) \<Longrightarrow> first_run b k (Inl Out_Of_Bounds)"
  by (simp add: first_run_def)

lemma run_freeD: "run_free b s k \<Longrightarrow> s \<le> n \<Longrightarrow> n < s + k \<Longrightarrow> \<not> bit_of b n"
  unfolding run_free_def by (metis le_add_diff_inverse less_diff_conv2 add.commute)

text \<open>
  The state of the search at bit \<open>nb\<close>: the last \<open>c\<close> bits are clear, the one before them is
  set, and no run of \<open>k\<close> bits ends at or before \<open>nb\<close>.
\<close>

definition searching :: "bitmap \<Rightarrow> nat \<Rightarrow> nat \<Rightarrow> nat \<Rightarrow> bool" where
  "searching b k nb c \<longleftrightarrow> c < k \<and> c \<le> nb \<and> (\<forall>n. nb - c \<le> n \<and> n < nb \<longrightarrow> \<not> bit_of b n) \<and>
     (c < nb \<longrightarrow> bit_of b (nb - c - 1)) \<and> (\<forall>s. s + k \<le> nb \<longrightarrow> \<not> run_free b s k)"

lemma searching_clear:
  assumes "searching b k nb c" and "\<not> bit_of b nb" and "Suc c < k"
  shows "searching b k (Suc nb) (Suc c)"
proof -
  have "\<not> run_free b s k" if "s + k = Suc nb" for s
  proof
    assume "run_free b s k"
    then have "\<not> bit_of b (nb - c - 1)"
      using run_freeD [of b s k "nb - c - 1"] that assms(3) by simp
    then show False using assms that by (simp add: searching_def)
  qed
  then show ?thesis using assms by (auto simp: searching_def le_Suc_eq less_Suc_eq)
qed

lemma searching_set:
  assumes "searching b k nb c" and "bit_of b nb" and "0 < k"
  shows "searching b k (Suc nb) 0"
proof -
  have "\<not> run_free b s k" if "s + k = Suc nb" for s
    using run_freeD [of b s k nb] that assms(2,3) by auto
  then show ?thesis using assms by (auto simp: searching_def le_Suc_eq)
qed

lemma searching_found:
  assumes "searching b k nb c" and "\<not> bit_of b nb" and "nb < nbits b" and "Suc c = k"
  shows "run_free b (nb - c) k" and "s < nb - c \<Longrightarrow> \<not> run_free b s k"
proof -
  have "\<not> bit_of b (nb - c + i)" if "i < k" for i
  proof (cases "i = c")
    case True
    then show ?thesis using assms(1,2) by (simp add: searching_def)
  next
    case False
    then have "i < c" "c \<le> nb" using that assms(1,4) by (auto simp: searching_def)
    then have "nb - c \<le> nb - c + i" "nb - c + i < nb" by linarith+
    then show ?thesis using assms(1) unfolding searching_def by blast
  qed
  then show "run_free b (nb - c) k"
    using assms by (auto simp: run_free_def searching_def)
  show "s < nb - c \<Longrightarrow> \<not> run_free b s k"
    using assms by (auto simp: searching_def)
qed

lemma scan_run_loop_spec:
  assumes "wf_bitmap b" and "unat nb \<le> nbits b" and "unat bl + unat nb = Suc (nbits b)"
    and "searching b (unat cnt) (unat nb) (unat c)"
  shows "first_run b (unat cnt) (scan_run_loop b cnt bl nb c)"
  using assms
proof (induction b cnt bl nb c rule: scan_run_loop.induct)
  case (1 b cnt bl nb c)
  have bl: "bl \<noteq> 0" using "1.prems"(2,3) by auto
  have small: "nbits b < 2 ^ 31" using "1.prems"(1) by (simp add: wf_bitmap_def)
  have ck: "unat c < unat cnt" "unat c \<le> unat nb"
    using "1.prems"(4) by (auto simp: searching_def)
  have c1: "unat (c + 1) = Suc (unat c)"
    using ck by (intro unat_plus1_less [of _ cnt]) (simp add: word_less_nat_alt)
  have nb1: "unat (nb + 1) = Suc (unat nb)"
    using "1.prems"(2) small by (simp add: unat_word_ariths)
  show ?case
  proof (cases "unat nb < nbits b")
    case False
    then have "\<not> run_free b s (unat cnt)" for s
      using "1.prems"(2,4) by (auto simp: searching_def run_free_def)
    moreover have "scan_run_loop b cnt bl nb c = Inl Out_Of_Bounds"
      using bl False by (subst scan_run_loop.simps) (simp add: bitmap_scan_test_spec)
    ultimately show ?thesis by (simp add: first_run_none)
  next
    case lt: True
    let ?c = "if \<not> bit_of b (unat nb) then c + 1 else 0"
    have test: "bitmap_scan_test b nb = Inr (bit_of b (unat nb))"
      using lt by (simp add: bitmap_scan_test_spec)
    have unf: "scan_run_loop b cnt bl nb c =
        (if ?c = cnt then Inr (nb - cnt + 1) else scan_run_loop b cnt (bl - 1) (nb + 1) ?c)"
      using bl test by (subst scan_run_loop.simps) (simp add: Let_def)
    show ?thesis
    proof (cases "?c = cnt")
      case True
      then have free: "\<not> bit_of b (unat nb)" "c + 1 = cnt"
        using ck by (auto split: if_splits)
      have "unat (nb - cnt + 1) = unat nb - unat c"
        using ck free(2) by (auto simp: unat_sub word_le_nat_alt)
      then show ?thesis
        using searching_found [OF "1.prems"(4) free(1) lt] c1 free(2) True
        unfolding unf by (auto intro!: first_runI)
    next
      case go: False
      have "searching b (unat cnt) (Suc (unat nb)) (unat ?c)"
      proof (cases "bit_of b (unat nb)")
        case True
        then show ?thesis using searching_set [OF "1.prems"(4)] ck by simp
      next
        case False
        then have "unat (c + 1) \<noteq> unat cnt" using go by (auto dest: word_unat_eq_iff [THEN iffD2])
        then show ?thesis using searching_clear [OF "1.prems"(4) False] ck c1 False by simp
      qed
      then have "first_run b (unat cnt) (scan_run_loop b cnt (bl - 1) (nb + 1) ?c)"
        using "1.IH" [OF bl test refl go "1.prems"(1)] lt nb1 "1.prems"(3) bl
        by (simp add: unat_minus_one)
      then show ?thesis using go unfolding unf by simp
    qed
  qed
qed

lemma bit_of_full_byte:
  assumes "bits b ! (n div 8) = 255" and "n < nbits b"
  shows "bit_of b n"
  using assms by (simp add: bit_of_def full_byte flip: div8_less)

lemma not_run_free: "bit_of b s \<Longrightarrow> 0 < k \<Longrightarrow> \<not> run_free b s k"
  unfolding run_free_def by (metis add.right_neutral)

lemma searching_start:
  assumes "\<not> bit_of b n" and "\<And>m. m < n \<Longrightarrow> bit_of b m" and "1 < k"
  shows "searching b k (Suc n) 1"
proof -
  have "\<not> run_free b s k" if "s + k \<le> Suc n" for s
    using assms(2) [of s] not_run_free [of b s k] that assms(3) by simp
  moreover have "\<forall>m. Suc n - 1 \<le> m \<and> m < Suc n \<longrightarrow> \<not> bit_of b m"
    using assms(1) by (metis diff_Suc_1 le_antisym less_Suc_eq_le)
  ultimately show ?thesis using assms(2,3) unfolding searching_def by auto
qed

lemma bitmap_scan_first_run:
  assumes wf: "wf_bitmap b" and k: "cnt \<noteq> 0"
  shows "first_run b (unat cnt) (bitmap_scan b cnt)"
proof (cases "scan_byte_loop b 0")
  case (Inl e)
  then have "e = Out_Of_Bounds" and full: "\<forall>j<length (bits b). bits b ! j = 255"
    using scan_byte_loop_spec [OF wf, of 0] by auto
  moreover have "\<not> run_free b s (unat cnt)" for s
  proof
    assume r: "run_free b s (unat cnt)"
    then have "s < nbits b" using k by (auto simp: run_free_def dest: unat_gt_0 [THEN iffD2])
    moreover from this have "bit_of b s"
      using full by (intro bit_of_full_byte) (simp_all add: div8_less)
    ultimately show False using not_run_free r k unat_gt_0 by blast
  qed
  ultimately show ?thesis by (simp add: bitmap_scan_def Inl first_run_none)
next
  case (Inr r)
  then have r: "unat r < length (bits b)" "bits b ! unat r \<noteq> 255"
      and full: "\<forall>j<unat r. bits b ! j = 255"
    using scan_byte_loop_spec [OF wf, of 0] by auto
  define y where "y = bits b ! unat r"
  define i where "i = scan_bit_loop y 0"
  define n where "n = 8 * unat r + i"
  have i: "i < 8" "\<not> bit y i" "\<forall>j<i. bit y j"
    using scan_bit_loop_spec [of 0 y] r(2) by (simp_all add: i_def y_def)
  have small: "nbits b < 2 ^ 31" using wf by (simp add: wf_bitmap_def)
  have nlt: "n < nbits b" using r(1) i(1) by (simp add: n_def nbits_def)
  have dm: "n div 8 = unat r" "n mod 8 = i" using i(1) by (simp_all add: n_def)
  have free: "\<not> bit_of b n" using i(2) by (simp add: bit_of_def dm flip: y_def)
  have below: "bit_of b m" if "m < n" for m
  proof (cases "m div 8 = unat r")
    case True
    then have "m mod 8 < i" using that dm by (metis add_less_cancel_left mult_div_mod_eq)
    then show ?thesis using i(3) r(1) by (simp add: bit_of_def True flip: y_def)
  next
    case False
    moreover have "m div 8 \<le> unat r" using that dm(1) by (metis div_le_mono less_imp_le)
    ultimately show ?thesis using full that nlt by (intro bit_of_full_byte) simp_all
  qed
  have start: "unat (r * 8 + of_nat i) = n"
    using small nlt i(1) by (simp add: n_def unat_word_ariths unat_of_nat)
  have len: "unat (btmp_bytes_len b) = length (bits b)" using wf by (simp add: wf_bitmap_def)
  have total: "unat (btmp_bytes_len b * 8) = nbits b"
    using small len by (simp add: unat_word_ariths nbits_def)
  have at: "byte_at b r = Inr y" "r < btmp_bytes_len b"
    using r(1) len by (simp_all add: byte_at_def y_def word_less_nat_alt)
  have "r \<noteq> btmp_bytes_len b" using at(2) by auto
  with at have scan: "bitmap_scan b cnt = (if cnt = 1 then Inr (r * 8 + of_nat i)
      else scan_run_loop b cnt (btmp_bytes_len b * 8 - (r * 8 + of_nat i)) (r * 8 + of_nat i + 1) 1)"
    by (simp add: bitmap_scan_def Inr i_def Let_def)
  show ?thesis
  proof (cases "cnt = 1")
    case True
    have "run_free b n 1" using free nlt by (simp add: run_free_def)
    then have "first_run b 1 (Inr (r * 8 + of_nat i))"
      using below not_run_free [of b _ 1] by (intro first_runI) (simp_all add: start)
    then show ?thesis using scan True by simp
  next
    case False
    then have "unat cnt \<noteq> unat (1 :: 32 word)" by (simp only: word_unat_eq_iff simp_thms)
    then have "1 < unat cnt" using k unat_gt_0 [of cnt] by simp
    moreover have "unat (btmp_bytes_len b * 8 - (r * 8 + of_nat i)) = nbits b - n"
      using total start nlt by (simp add: unat_sub word_le_nat_alt)
    moreover have "unat (r * 8 + of_nat i + 1 :: 32 word) = Suc n"
      using start nlt small by (subst unat_plus1_less [of _ "btmp_bytes_len b * 8"])
        (simp_all add: word_less_nat_alt total)
    ultimately have "first_run b (unat cnt) (scan_run_loop b cnt
        (btmp_bytes_len b * 8 - (r * 8 + of_nat i)) (r * 8 + of_nat i + 1) 1)"
      using nlt searching_start [OF free below] by (intro scan_run_loop_spec [OF wf]) simp_all
    then show ?thesis by (simp add: scan False)
  qed
qed

end
