(* ===== verification/Ring.thy ===== *)
theory Ring
  imports Prelude
begin

text \<open>
  The circular doubly linked lists of \<open>interrupt/timer.c\<close>: a list is entered at a head, and an
  empty list is a head that points to itself. \<open>'e\<close> is the type of addresses. \<open>ring h a xs\<close>
  abstracts the list with head \<open>a\<close> to the elements after the head; \<open>rings\<close> is a family of such
  lists that share no element.
\<close>

section \<open>The functions\<close>

record 'e list_timer =
  pPrev :: 'e
  pNext :: 'e

type_synonym 'e links = "'e \<rightharpoonup> 'e list_timer"

definition link_at :: "'e links \<Rightarrow> 'e \<Rightarrow> 'e list_timer result" where
  "link_at h a = (case h a of None \<Rightarrow> Inl Bad_Access | Some c \<Rightarrow> Inr c)"

definition put_next :: "'e \<Rightarrow> 'e \<Rightarrow> 'e links \<Rightarrow> 'e links result" where
  "put_next a v h = andthen (link_at h a) (\<lambda>c. Inr (h(a \<mapsto> c\<lparr>pNext := v\<rparr>)))"

definition put_prev :: "'e \<Rightarrow> 'e \<Rightarrow> 'e links \<Rightarrow> 'e links result" where
  "put_prev a v h = andthen (link_at h a) (\<lambda>c. Inr (h(a \<mapsto> c\<lparr>pPrev := v\<rparr>)))"

definition insert_stores :: "'e \<Rightarrow> 'e \<Rightarrow> 'e \<Rightarrow> ('e links \<Rightarrow> 'e links result) list" where
  "insert_stores new prev next =
     [put_prev next new, put_next new next, put_prev new prev, put_next prev new]"

definition list_timer_insert :: "'e \<Rightarrow> 'e \<Rightarrow> 'e \<Rightarrow> 'e links \<Rightarrow> 'e links result" where
  "list_timer_insert new prev next = stores (insert_stores new prev next)"

definition list_timer_insert_head :: "'e \<Rightarrow> 'e \<Rightarrow> 'e links \<Rightarrow> 'e links result" where
  "list_timer_insert_head new pHead h =
     andthen (link_at h pHead) (\<lambda>c. list_timer_insert new pHead (pNext c) h)"

definition list_timer_insert_tail :: "'e \<Rightarrow> 'e \<Rightarrow> 'e links \<Rightarrow> 'e links result" where
  "list_timer_insert_tail new pHead h =
     andthen (link_at h pHead) (\<lambda>c. list_timer_insert new (pPrev c) pHead h)"

definition list_timer_replace :: "'e \<Rightarrow> 'e \<Rightarrow> 'e links \<Rightarrow> 'e links result" where
  "list_timer_replace old new h =
     andthen (link_at h old) (\<lambda>c.
     andthen (put_next new (pNext c) h) (\<lambda>h.
     andthen (link_at h new) (\<lambda>c.
     andthen (put_prev (pNext c) new h) (\<lambda>h.
     andthen (link_at h old) (\<lambda>c.
     andthen (put_prev new (pPrev c) h) (\<lambda>h.
     andthen (link_at h new) (\<lambda>c.
     put_next (pPrev c) new h)))))))"

definition list_timer_replace_init :: "'e \<Rightarrow> 'e \<Rightarrow> 'e links \<Rightarrow> 'e links result" where
  "list_timer_replace_init old new h =
     andthen (list_timer_replace old new h) (\<lambda>h.
     andthen (put_next old old h) (\<lambda>h.
     put_prev old old h))"

text \<open>The two assignments of \<open>delete_timer\<close> that take an element out.\<close>

definition list_timer_unlink :: "'e \<Rightarrow> 'e links \<Rightarrow> 'e links result" where
  "list_timer_unlink e h =
     andthen (link_at h e) (\<lambda>c.
     andthen (put_next (pPrev c) (pNext c) h) (\<lambda>h.
     andthen (link_at h e) (\<lambda>c.
     put_prev (pNext c) (pPrev c) h)))"

section \<open>Rings\<close>

definition nextf :: "'e links \<Rightarrow> 'e \<Rightarrow> 'e option" where
  "nextf h a = map_option pNext (h a)"

definition prevf :: "'e links \<Rightarrow> 'e \<Rightarrow> 'e option" where
  "prevf h a = map_option pPrev (h a)"

lemma link_at_dom: "a \<in> dom h \<Longrightarrow> \<exists>c. link_at h a = Inr c \<and> nextf h a = Some (pNext c) \<and>
    prevf h a = Some (pPrev c)"
  by (auto simp: link_at_def nextf_def prevf_def)

lemma put_next_run:
  assumes "a \<in> dom h"
  shows "\<exists>h'. put_next a v h = Inr h' \<and> nextf h' = (nextf h)(a := Some v) \<and> prevf h' = prevf h \<and>
    dom h' = dom h \<and> (\<forall>x. x \<noteq> a \<longrightarrow> h' x = h x)"
proof -
  obtain c where "h a = Some c" using assms by blast
  then show ?thesis
    by (intro exI [of _ "h(a \<mapsto> c\<lparr>pNext := v\<rparr>)"])
      (auto simp: put_next_def link_at_def nextf_def prevf_def fun_eq_iff)
qed

lemma put_prev_run:
  assumes "a \<in> dom h"
  shows "\<exists>h'. put_prev a v h = Inr h' \<and> prevf h' = (prevf h)(a := Some v) \<and> nextf h' = nextf h \<and>
    dom h' = dom h \<and> (\<forall>x. x \<noteq> a \<longrightarrow> h' x = h x)"
proof -
  obtain c where "h a = Some c" using assms by blast
  then show ?thesis
    by (intro exI [of _ "h(a \<mapsto> c\<lparr>pPrev := v\<rparr>)"])
      (auto simp: put_prev_def link_at_def nextf_def prevf_def fun_eq_iff)
qed

text \<open>\<open>b\<close> follows \<open>a\<close>; the elements of \<open>a # xs\<close> follow each other.\<close>

definition lk :: "'e links \<Rightarrow> 'e \<Rightarrow> 'e \<Rightarrow> bool" where
  "lk h a b \<longleftrightarrow> nextf h a = Some b \<and> prevf h b = Some a"

fun opath :: "'e links \<Rightarrow> 'e \<Rightarrow> 'e list \<Rightarrow> bool" where
  "opath h a [] \<longleftrightarrow> True"
| "opath h a (x # xs) \<longleftrightarrow> lk h a x \<and> opath h x xs"

definition ring :: "'e links \<Rightarrow> 'e \<Rightarrow> 'e list \<Rightarrow> bool" where
  "ring h a xs \<longleftrightarrow> distinct (a # xs) \<and> opath h a xs \<and> lk h (last (a # xs)) a"

lemma lk_dom: "lk h a b \<Longrightarrow> a \<in> dom h \<and> b \<in> dom h"
  by (auto simp: lk_def nextf_def prevf_def)

lemma opath_append: "opath h a (xs @ ys) \<longleftrightarrow> opath h a xs \<and> opath h (last (a # xs)) ys"
  by (induction xs arbitrary: a) auto

lemma opath_cong:
  assumes "\<And>x. x \<in> set (butlast (a # xs)) \<Longrightarrow> nextf h' x = nextf h x"
    and "\<And>x. x \<in> set xs \<Longrightarrow> prevf h' x = prevf h x"
  shows "opath h' a xs = opath h a xs"
  using assms
proof (induction xs arbitrary: a)
  case (Cons x xs)
  have "nextf h' a = nextf h a" "prevf h' x = prevf h x" using Cons.prems by simp_all
  moreover have "opath h' x xs = opath h x xs" using Cons.prems by (intro Cons.IH) simp_all
  ultimately show ?case by (simp add: lk_def)
qed simp

lemma opath_dom: "opath h a xs \<Longrightarrow> set xs \<subseteq> dom h"
  by (induction xs arbitrary: a) (auto dest: lk_dom)

lemma ringD:
  assumes "ring h a xs"
  shows "distinct (a # xs)" "opath h a xs" "lk h (last (a # xs)) a" "set (a # xs) \<subseteq> dom h"
  using assms opath_dom [of h a xs] lk_dom [of h "last (a # xs)" a] by (auto simp: ring_def)

lemma ring_cong:
  assumes "\<And>x. x \<in> set (a # xs) \<Longrightarrow> h' x = h x"
  shows "ring h' a xs = ring h a xs"
proof -
  have eq: "nextf h' x = nextf h x" "prevf h' x = prevf h x" if "x \<in> set (a # xs)" for x
    using assms [OF that] by (simp_all add: nextf_def prevf_def)
  have "opath h' a xs = opath h a xs"
    by (rule opath_cong) (use eq in_set_butlastD [of _ "a # xs"] in \<open>auto simp del: butlast.simps\<close>)
  moreover have "lk h' (last (a # xs)) a = lk h (last (a # xs)) a"
    using eq [of "last (a # xs)"] eq [of a] last_in_set [of "a # xs"] by (simp add: lk_def del: last.simps)
  ultimately show ?thesis by (simp add: ring_def)
qed

lemma last_snoc_cases: "last (a # xs) = (if xs = [] then a else last xs)"
  by simp

lemma last_notin_butlast: "distinct (a # xs) \<Longrightarrow> last (a # xs) \<notin> set (butlast (a # xs))"
  by (metis append_butlast_last_id distinct_butlast list.distinct(1) not_distinct_conv_prefix)

lemma insert_tail_ring:
  assumes r: "ring h a xs" and e: "e \<in> dom h" "e \<notin> set (a # xs)"
  shows "\<exists>h'. list_timer_insert_tail e a h = Inr h' \<and> ring h' a (xs @ [e]) \<and> dom h' = dom h \<and>
    (\<forall>x. x \<notin> set (e # a # xs) \<longrightarrow> h' x = h x)"
proof -
  let ?l = "last (a # xs)"
  note R = ringD [OF r]
  have l: "?l \<in> set (a # xs)" "?l \<in> dom h" using R(4) last_in_set [of "a # xs"] by blast+
  obtain c where c: "link_at h a = Inr c" "pPrev c = ?l"
    using link_at_dom [of a h] R(3,4) by (auto simp: lk_def)
  obtain h1 where h1: "put_prev a e h = Inr h1" "prevf h1 = (prevf h)(a := Some e)"
      "nextf h1 = nextf h" "dom h1 = dom h" "\<forall>x. x \<noteq> a \<longrightarrow> h1 x = h x"
    using put_prev_run [of a h e] R(4) by auto
  obtain h2 where h2: "put_next e a h1 = Inr h2" "nextf h2 = (nextf h)(e := Some a)"
      "prevf h2 = prevf h1" "dom h2 = dom h" "\<forall>x. x \<noteq> e \<longrightarrow> h2 x = h1 x"
    using put_next_run [of e h1 a] e(1) h1 by auto
  obtain h3 where h3: "put_prev e ?l h2 = Inr h3" "prevf h3 = (prevf h)(a := Some e, e := Some ?l)"
      "nextf h3 = nextf h2" "dom h3 = dom h" "\<forall>x. x \<noteq> e \<longrightarrow> h3 x = h2 x"
    using put_prev_run [of e h2 ?l] e(1) h2 h1(2) by auto
  obtain h4 where h4: "put_next ?l e h3 = Inr h4" "nextf h4 = (nextf h)(e := Some a, ?l := Some e)"
      "prevf h4 = prevf h3" "dom h4 = dom h" "\<forall>x. x \<noteq> ?l \<longrightarrow> h4 x = h3 x"
    using put_next_run [of ?l h3 e] l(2) h3 h2(2) by auto
  have "opath h4 a xs = opath h a xs"
    by (rule opath_cong)
      (use h4(2,3) h3(2) e(2) R(1) last_notin_butlast [OF R(1)] in
        \<open>auto simp del: last.simps butlast.simps dest: in_set_butlastD\<close>)
  moreover have "lk h4 ?l e" "lk h4 e a"
    using h4(2,3) h3(2) e(2) l(1) by (auto simp: lk_def simp del: last.simps)
  ultimately have "ring h4 a (xs @ [e])"
    using R(1,2) e(2) by (auto simp: ring_def opath_append simp del: last.simps) (simp add: last_append)
  moreover have "list_timer_insert_tail e a h = Inr h4"
    using c h1(1) h2(1) h3(1) h4(1) by (simp add: list_timer_insert_tail_def list_timer_insert_def insert_stores_def)
  moreover have "h4 x = h x" if "x \<notin> set (e # a # xs)" for x
  proof -
    have "x \<noteq> ?l" using that l(1) by auto
    then show ?thesis using that h1(5) h2(5) h3(5) h4(5) by simp
  qed
  ultimately show ?thesis using h4(4) by blast
qed


lemma opath_frame:
  assumes "\<And>x. x \<in> set (a # xs) \<Longrightarrow> x \<noteq> last (a # xs) \<Longrightarrow> nextf h' x = nextf h x"
    and "\<And>x. x \<in> set xs \<Longrightarrow> prevf h' x = prevf h x" and "distinct (a # xs)"
  shows "opath h' a xs = opath h a xs"
proof (rule opath_cong)
  fix x assume x: "x \<in> set (butlast (a # xs))"
  then have "x \<noteq> last (a # xs)" using last_notin_butlast [OF assms(3)] by metis
  then show "nextf h' x = nextf h x" using assms(1) in_set_butlastD [OF x] by blast
qed (rule assms(2))

text \<open>The new head takes over the elements, the old one is left alone.\<close>

lemma replace_init_ring:
  assumes r: "ring h a xs" and b: "b \<in> dom h" "b \<notin> set (a # xs)"
  shows "\<exists>h'. list_timer_replace_init a b h = Inr h' \<and> ring h' b xs \<and> ring h' a [] \<and> dom h' = dom h \<and>
    (\<forall>x. x \<notin> set (a # b # xs) \<longrightarrow> h' x = h x)"
proof -
  let ?l = "last (a # xs)" and ?n = "hd (xs @ [a])"
  let ?l' = "if xs = [] then b else ?l" and ?n' = "if xs = [] then b else ?n"
  note R = ringD [OF r]
  have n: "nextf h a = Some ?n" using R(2,3) by (cases xs) (auto simp: lk_def)
  have p: "prevf h a = Some ?l" using R(3) by (simp add: lk_def)
  have in_dom: "a \<in> dom h" "?n \<in> set (a # xs)" "?l \<in> set (a # xs)" "?n \<in> dom h" "?l \<in> dom h"
    using R(4) last_in_set [of "a # xs"] hd_in_set [of "xs @ [a]"] by auto
  obtain c where c: "link_at h a = Inr c" "pNext c = ?n"
    using link_at_dom [OF in_dom(1)] n by auto
  obtain h1 where h1: "put_next b ?n h = Inr h1" "nextf h1 = (nextf h)(b := Some ?n)"
      "prevf h1 = prevf h" "dom h1 = dom h" "\<forall>x. x \<noteq> b \<longrightarrow> h1 x = h x"
    using put_next_run [OF b(1)] by blast
  obtain c1 where c1: "link_at h1 b = Inr c1" "pNext c1 = ?n"
    using link_at_dom [of b h1] b(1) h1(2,4) by auto
  obtain h2 where h2: "put_prev ?n b h1 = Inr h2" "prevf h2 = (prevf h)(?n := Some b)"
      "nextf h2 = nextf h1" "dom h2 = dom h" "\<forall>x. x \<noteq> ?n \<longrightarrow> h2 x = h1 x"
    using put_prev_run [of ?n h1 b] in_dom(4) h1(3,4) by auto
  obtain c2 where c2: "link_at h2 a = Inr c2" "pPrev c2 = ?l'"
proof -
    have "a = ?n \<longleftrightarrow> xs = []" using R(1) by (cases xs) auto
    then have "prevf h2 a = Some ?l'" using h2(2) p h1(3) by (simp del: last.simps)
    then show ?thesis using link_at_dom [of a h2] in_dom(1) h2(4) that by fastforce
  qed
  obtain h3 where h3: "put_prev b ?l' h2 = Inr h3" "prevf h3 = (prevf h2)(b := Some ?l')"
      "nextf h3 = nextf h2" "dom h3 = dom h" "\<forall>x. x \<noteq> b \<longrightarrow> h3 x = h2 x"
    using put_prev_run [of b h2 ?l'] b(1) h2(4) by auto
  obtain c3 where c3: "link_at h3 b = Inr c3" "pPrev c3 = ?l'"
    using link_at_dom [of b h3] b(1) h3(2,4) by (auto simp del: last.simps)
  have "?l' \<in> dom h3" using in_dom(5) b(1) h3(4) by (simp del: last.simps)
  from put_next_run [OF this, of b, unfolded h3(4)]
  obtain h4 where h4: "put_next ?l' b h3 = Inr h4" "nextf h4 = (nextf h3)(?l' := Some b)"
      "prevf h4 = prevf h3" "dom h4 = dom h" "\<forall>x. x \<noteq> ?l' \<longrightarrow> h4 x = h3 x"
    by blast
  obtain h5 where h5: "put_next a a h4 = Inr h5" "nextf h5 = (nextf h4)(a := Some a)"
      "prevf h5 = prevf h4" "dom h5 = dom h" "\<forall>x. x \<noteq> a \<longrightarrow> h5 x = h4 x"
    using put_next_run [of a h4 a] in_dom(1) h4(4) by auto
  obtain h6 where h6: "put_prev a a h5 = Inr h6" "prevf h6 = (prevf h5)(a := Some a)"
      "nextf h6 = nextf h5" "dom h6 = dom h" "\<forall>x. x \<noteq> a \<longrightarrow> h6 x = h5 x"
    using put_prev_run [of a h5 a] in_dom(1) h5(4) by auto
  have run: "list_timer_replace_init a b h = Inr h6"
    using c c1 c2 c3 h1(1) h2(1) h3(1) h4(1) h5(1) h6(1)
    by (simp add: list_timer_replace_init_def list_timer_replace_def del: last.simps)
  have nx: "nextf h6 = (nextf h)(b := Some ?n, ?l' := Some b, a := Some a)"
    using h6(3) h5(2) h4(2) h3(3) h2(3) h1(2) by simp
  have pv: "prevf h6 = (prevf h)(?n := Some b, b := Some ?l', a := Some a)"
    using h6(2) h5(3) h4(3) h3(2) h2(2) by simp
  have "ring h6 a []" using nx pv by (simp add: ring_def lk_def)
  moreover have "ring h6 b xs"
  proof (cases xs)
    case Nil
    then show ?thesis using nx pv b(2) by (simp add: ring_def lk_def)
  next
    case (Cons y ys)
    have d: "distinct (y # ys)" "a \<noteq> y" "a \<notin> set ys" "b \<notin> set (y # ys)" "a \<noteq> b"
      using R(1) b(2) Cons by auto
    have last: "last (a # xs) = last (y # ys)" "last (b # xs) = last (y # ys)" using Cons by simp_all
    have "opath h6 y ys = opath h y ys"
      by (rule opath_frame) (use nx pv d Cons last in \<open>auto simp del: last.simps\<close>)
    then have "opath h6 y ys" using R(2) Cons by simp
    moreover have "lk h6 b y" "lk h6 (last (y # ys)) b"
      using nx pv d last Cons last_in_set [of "y # ys"] by (auto simp: lk_def simp del: last.simps)
    ultimately show ?thesis using d Cons by (auto simp: ring_def)
  qed
  moreover have "h6 x = h x" if "x \<notin> set (a # b # xs)" for x
  proof -
    have "x \<noteq> ?l'" "x \<noteq> ?n" "x \<noteq> a" "x \<noteq> b" using that in_dom(2,3) by (auto simp del: last.simps)
    then show ?thesis using h1(5) h2(5) h3(5) h4(5) h5(5) h6(5) by (simp del: last.simps)
  qed
  ultimately show ?thesis using run h6(4) by blast
qed

lemma unlink_ring:
  assumes r: "ring h a (xs @ e # ys)"
  shows "\<exists>h'. list_timer_unlink e h = Inr h' \<and> ring h' a (xs @ ys) \<and> dom h' = dom h \<and>
    (\<forall>x. x \<notin> set (a # xs @ e # ys) \<longrightarrow> h' x = h x)"
proof -
  let ?p = "last (a # xs)" and ?n = "hd (ys @ [a])"
  note R = ringD [OF r]
  have o: "opath h a xs" "lk h ?p e" "opath h e ys" using R(2) by (simp_all add: opath_append del: last.simps)
  have le: "last (a # xs @ e # ys) = last (e # ys)" by simp
  have n: "lk h e ?n" using o(3) R(3) unfolding le by (cases ys) auto
  have mem: "?p \<in> set (a # xs)" "?n \<in> set (a # ys)"
    using last_in_set [of "a # xs"] hd_in_set [of "ys @ [a]"] by auto
  have in_dom: "e \<in> dom h" "?p \<in> dom h" "?n \<in> dom h"
    using lk_dom [OF o(2)] lk_dom [OF n] by auto
  have d: "distinct (a # xs)" "distinct (a # ys)" "e \<notin> set (a # xs)" "e \<notin> set ys"
      "set xs \<inter> set ys = {}" "a \<notin> set xs" "a \<notin> set ys" "distinct (a # xs @ ys)"
    using R(1) by auto
  obtain c where c: "link_at h e = Inr c" "pNext c = ?n" "pPrev c = ?p"
    using link_at_dom [OF in_dom(1)] n o(2) by (auto simp: lk_def)
  obtain h1 where h1: "put_next ?p ?n h = Inr h1" "nextf h1 = (nextf h)(?p := Some ?n)"
      "prevf h1 = prevf h" "dom h1 = dom h" "\<forall>x. x \<noteq> ?p \<longrightarrow> h1 x = h x"
    using put_next_run [OF in_dom(2)] by blast
  have ep: "e \<noteq> ?p" "e \<noteq> ?n" using mem d(3,4) by (auto simp del: last.simps)
  obtain c1 where c1: "link_at h1 e = Inr c1" "pNext c1 = ?n" "pPrev c1 = ?p"
    using link_at_dom [of e h1] in_dom(1) h1 c ep n o(2) by (auto simp: lk_def simp del: last.simps)
  obtain h2 where h2: "put_prev ?n ?p h1 = Inr h2" "prevf h2 = (prevf h)(?n := Some ?p)"
      "nextf h2 = nextf h1" "dom h2 = dom h" "\<forall>x. x \<noteq> ?n \<longrightarrow> h2 x = h1 x"
    using put_prev_run [of ?n h1 ?p] in_dom(3) h1(3,4) by auto
  have run: "list_timer_unlink e h = Inr h2"
    using c c1 h1(1) h2(1) by (simp add: list_timer_unlink_def del: last.simps)
  have nx: "nextf h2 = (nextf h)(?p := Some ?n)" using h1(2) h2(3) by simp
  have nxs: "?n \<notin> set xs" using mem(2) d(5,6) by auto
  have "opath h2 a xs = opath h a xs"
    by (rule opath_frame) (use nx h2(2) d(1) nxs in \<open>auto simp del: last.simps\<close>)
  then have o1: "opath h2 a xs" using o(1) by simp
  have "ring h2 a (xs @ ys)"
  proof (cases ys)
    case Nil
    then have "lk h2 ?p a" using nx h2(2) by (simp add: lk_def del: last.simps)
    then show ?thesis using Nil o1 d by (simp add: ring_def)
  next
    case (Cons y zs)
    have px: "?p \<notin> set ys" using mem(1) d(5,7) by (auto simp del: last.simps)
    have "opath h2 y zs = opath h y zs"
      by (rule opath_frame) (use nx h2(2) d px Cons in \<open>auto simp del: last.simps\<close>)
    then have "opath h2 y zs" using o(3) Cons by simp
    moreover have "lk h2 ?p y" using nx h2(2) Cons by (simp add: lk_def del: last.simps)
    moreover have "lk h2 (last (y # zs)) a"
    proof -
      have "last (y # zs) \<in> set ys" using Cons last_in_set [of "y # zs"] by blast
      then have "last (y # zs) \<noteq> ?p" using px by metis
      moreover have "a \<noteq> ?n" using Cons d(7) by auto
      ultimately show ?thesis using nx h2(2) R(3) le Cons by (simp add: lk_def del: last.simps) simp
    qed
    ultimately show ?thesis using Cons o1 d(8) by (simp add: ring_def opath_append del: last.simps) simp
  qed
  moreover have "h2 x = h x" if "x \<notin> set (a # xs @ e # ys)" for x
  proof -
    have "x \<noteq> ?p" "x \<noteq> ?n" using that mem by (auto simp del: last.simps)
    then show ?thesis using h1(5) h2(5) by simp
  qed
  ultimately show ?thesis using run h2(4) by blast
qed


section \<open>Families of rings\<close>

definition rings :: "'e set \<Rightarrow> 'e links \<Rightarrow> ('e \<Rightarrow> 'e list) \<Rightarrow> bool" where
  "rings D h w \<longleftrightarrow> (\<forall>a\<in>D. ring h a (w a)) \<and>
     (\<forall>a\<in>D. \<forall>b\<in>D. a \<noteq> b \<longrightarrow> set (a # w a) \<inter> set (b # w b) = {})"

definition off_rings :: "'e set \<Rightarrow> ('e \<Rightarrow> 'e list) \<Rightarrow> 'e \<Rightarrow> bool" where
  "off_rings D w e \<longleftrightarrow> (\<forall>a\<in>D. e \<notin> set (a # w a))"

lemma ringsD:
  assumes "rings D h w" and "a \<in> D"
  shows "ring h a (w a)" "set (a # w a) \<subseteq> dom h" "distinct (a # w a)"
  using assms ringD [of h a "w a"] by (auto simp: rings_def)

lemma rings_apart: "rings D h w \<Longrightarrow> a \<in> D \<Longrightarrow> b \<in> D \<Longrightarrow> x \<in> set (a # w a) \<Longrightarrow> x \<in> set (b # w b) \<Longrightarrow> a = b"
  unfolding rings_def by blast

lemma rings_cong:
  assumes "rings D h w" and "\<And>x. \<not> off_rings D w x \<Longrightarrow> h' x = h x"
  shows "rings D h' w"
proof -
  have "ring h' a (w a) = ring h a (w a)" if "a \<in> D" for a
    by (rule ring_cong) (rule assms(2), use that in \<open>auto simp: off_rings_def\<close>)
  then show ?thesis using assms(1) unfolding rings_def by simp
qed

text \<open>One ring of the family is replaced by one with other elements.\<close>

lemma rings_update:
  assumes r: "rings D h w" and a: "a \<in> D" and new: "ring h' a xs"
    and elems: "set xs \<subseteq> set (w a) \<union> X" and X: "\<forall>x\<in>X. off_rings D w x"
    and same: "\<And>x. x \<notin> set (a # w a) \<union> X \<Longrightarrow> h' x = h x"
  shows "rings D h' (w(a := xs))"
proof -
  have "ring h' b (w b)" if b: "b \<in> D" "b \<noteq> a" for b
  proof -
    have "x \<notin> set (a # w a) \<union> X" if "x \<in> set (b # w b)" for x
      using rings_apart [OF r a b(1) _ that] b X that by (auto simp: off_rings_def)
    then have "ring h' b (w b) = ring h b (w b)" by (intro ring_cong same) blast
    then show ?thesis using r b(1) by (simp add: rings_def)
  qed
  moreover have "set (a # xs) \<inter> set (b # w b) = {}" if b: "b \<in> D" "b \<noteq> a" for b
  proof -
    have "set (a # w a) \<inter> set (b # w b) = {}" using r a b unfolding rings_def by metis
    moreover have "X \<inter> set (b # w b) = {}" using X b(1) unfolding off_rings_def by blast
    moreover have "set (a # xs) \<subseteq> set (a # w a) \<union> X" using elems by auto
    ultimately show ?thesis by blast
  qed
  moreover have "set (b # w b) \<inter> set (c # w c) = {}" if "b \<in> D" "c \<in> D" "b \<noteq> c" for b c
    using r that unfolding rings_def by blast
  ultimately show ?thesis using new unfolding rings_def by (simp add: Int_commute)
qed

lemma rings_append:
  assumes r: "rings D h w" and a: "a \<in> D" and e: "e \<in> dom h" "off_rings D w e"
  shows "\<exists>h'. list_timer_insert_tail e a h = Inr h' \<and> rings D h' (w(a := w a @ [e])) \<and>
    dom h' = dom h \<and> (\<forall>x. x \<noteq> e \<and> off_rings D w x \<longrightarrow> h' x = h x)"
proof -
  have "e \<notin> set (a # w a)" using e(2) a by (simp add: off_rings_def)
  from insert_tail_ring [OF ringsD(1) [OF r a] e(1) this] obtain h' where h':
      "list_timer_insert_tail e a h = Inr h'" "ring h' a (w a @ [e])" "dom h' = dom h"
      "\<forall>x. x \<notin> set (e # a # w a) \<longrightarrow> h' x = h x"
    by blast
  have "rings D h' (w(a := w a @ [e]))"
    by (rule rings_update [OF r a h'(2), of "{e}"]) (use h'(4) e(2) in auto)
  moreover have "h' x = h x" if "x \<noteq> e" "off_rings D w x" for x
    using h'(4) that a by (auto simp: off_rings_def)
  ultimately show ?thesis using h'(1,3) by blast
qed

lemma rings_take:
  assumes r: "rings D h w" and a: "a \<in> D" and b: "b \<in> dom h" "off_rings D w b"
  shows "\<exists>h'. list_timer_replace_init a b h = Inr h' \<and> ring h' b (w a) \<and> rings D h' (w(a := [])) \<and>
    dom h' = dom h \<and> (\<forall>x. x \<noteq> b \<and> off_rings D w x \<longrightarrow> h' x = h x)"
proof -
  have "b \<notin> set (a # w a)" using b(2) a by (simp add: off_rings_def)
  from replace_init_ring [OF ringsD(1) [OF r a] b(1) this] obtain h' where h':
      "list_timer_replace_init a b h = Inr h'" "ring h' b (w a)" "ring h' a []" "dom h' = dom h"
      "\<forall>x. x \<notin> set (a # b # w a) \<longrightarrow> h' x = h x"
    by blast
  have "rings D h' (w(a := []))"
    by (rule rings_update [OF r a h'(3), of "{b}"]) (use h'(5) b(2) in auto)
  moreover have "h' x = h x" if "x \<noteq> b" "off_rings D w x" for x
    using h'(5) that a by (auto simp: off_rings_def)
  ultimately show ?thesis using h'(1,2,4) by blast
qed

lemma rings_remove:
  assumes r: "rings D h w" and a: "a \<in> D" and e: "e \<in> set (w a)"
  shows "\<exists>h'. list_timer_unlink e h = Inr h' \<and> rings D h' (w(a := remove1 e (w a))) \<and>
    dom h' = dom h \<and> (\<forall>x. off_rings D w x \<longrightarrow> h' x = h x)"
proof -
  obtain xs ys where xy: "w a = xs @ e # ys" using e by (auto simp: in_set_conv_decomp)
  have d: "distinct (w a)" using ringsD(3) [OF r a] by simp
  then have rem: "remove1 e (w a) = xs @ ys" using xy by (simp add: remove1_append)
  obtain h' where h': "list_timer_unlink e h = Inr h'" "ring h' a (xs @ ys)" "dom h' = dom h"
      "\<forall>x. x \<notin> set (a # w a) \<longrightarrow> h' x = h x"
    using unlink_ring [of h a xs e ys] ringsD(1) [OF r a] xy by auto
  have "rings D h' (w(a := xs @ ys))"
    by (rule rings_update [OF r a h'(2), of "{}"]) (use h'(4) xy in auto)
  moreover have "h' x = h x" if "off_rings D w x" for x
    using h'(4) that a by (auto simp: off_rings_def)
  ultimately show ?thesis using h'(1,3) rem by auto
qed

section \<open>Following the elements\<close>

text \<open>
  From \<open>p\<close> the elements \<open>xs\<close> are reached one by one by \<open>pNext\<close>, and then \<open>q\<close>. The loops need
  no more: while they run, the other pointers of the ring are written.
\<close>

fun follow :: "'e links \<Rightarrow> 'e \<Rightarrow> 'e list \<Rightarrow> 'e \<Rightarrow> bool" where
  "follow h p [] q \<longleftrightarrow> p = q"
| "follow h p (x # xs) q \<longleftrightarrow> p = x \<and> (\<exists>n. nextf h x = Some n \<and> follow h n xs q)"

lemma follow_cong: "(\<And>x. x \<in> set xs \<Longrightarrow> h' x = h x) \<Longrightarrow> follow h' p xs q = follow h p xs q"
  by (induction xs arbitrary: p) (auto simp: nextf_def)

lemma opath_follow:
  "opath h a xs \<Longrightarrow> lk h (last (a # xs)) b \<Longrightarrow> \<exists>n. nextf h a = Some n \<and> follow h n xs b"
  by (induction xs arbitrary: a) (auto simp: lk_def split: if_splits)

lemma ring_follow: "ring h a xs \<Longrightarrow> \<exists>n. nextf h a = Some n \<and> follow h n xs a"
  using opath_follow [of h a xs a] ringD [of h a xs] by blast

end
