(* ===== verification/State.thy ===== *)
theory State
  imports CList Bitmap Ring
begin

text \<open>
  The data of the library: \<open>include/task.h\<close>, the structures of \<open>include/sync.h\<close>, the global
  variables of \<open>task/task.c\<close>, and the signal mask that \<open>interrupt/analog_interrupt.c\<close> plays
  the interrupt flag with. Tasks are named by the addresses \<open>malloc\<close> gave them.
\<close>

section \<open>Addresses of list cells\<close>

text \<open>
  The locks of the program: in the tid pool, in the timer manager, of the console, and one
  in each I/O queue. The lists: three global ones and the wait list of each lock's
  semaphore. A list cell is a sentinel of a list or one of the three tags inside a task.
\<close>

datatype lock_id = TidLock | TimerLock | ConsoleLock | IoqLock nat

datatype list_id = ReadyList | AllList | PoolList | Waiters lock_id

datatype cell =
    HeadOf list_id | TailOf list_id
  | GeneralTag nat | AllListTag nat | PoolTag nat

definition list_at :: "list_id \<Rightarrow> cell clist" where
  "list_at i = \<lparr>head = HeadOf i, tail = TailOf i\<rparr>"

lemma list_at_simps [simp]: "head (list_at i) = HeadOf i" "tail (list_at i) = TailOf i"
  by (simp_all add: list_at_def)

text \<open>
  \<open>elem2entry(struct task_struct, tag, elem)\<close>: the task a tag is inside of. On any other
  cell the pointer arithmetic yields an address that is no task, and the access to it that
  follows in the code is the \<open>Bad_Access\<close>.
\<close>

fun elem2entry_general_tag :: "cell option \<Rightarrow> nat result" where
  "elem2entry_general_tag (Some (GeneralTag t)) = Inr t"
| "elem2entry_general_tag _ = Inl Bad_Access"

fun elem2entry_all_list_tag :: "cell option \<Rightarrow> nat result" where
  "elem2entry_all_list_tag (Some (AllListTag t)) = Inr t"
| "elem2entry_all_list_tag _ = Inl Bad_Access"

fun elem2entry_pool_tag :: "cell option \<Rightarrow> nat result" where
  "elem2entry_pool_tag (Some (PoolTag t)) = Inr t"
| "elem2entry_pool_tag _ = Inl Bad_Access"

section \<open>Tasks, semaphores, locks\<close>

datatype task_status =
    TASK_RUNNING | TASK_READY | TASK_BLOCKED | TASK_DIED | TASK_WAITING | TASK_HANGING

text \<open>The enumerators in the order, and with the values, C gives them.\<close>

fun status_code :: "task_status \<Rightarrow> nat" where
  "status_code TASK_RUNNING = 0"
| "status_code TASK_READY = 1"
| "status_code TASK_BLOCKED = 2"
| "status_code TASK_DIED = 3"
| "status_code TASK_WAITING = 4"
| "status_code TASK_HANGING = 5"

lemma status_code_inj: "status_code a = status_code b \<Longrightarrow> a = b"
  by (cases a; cases b) simp_all

instantiation task_status :: linorder
begin

definition less_eq_task_status :: "task_status \<Rightarrow> task_status \<Rightarrow> bool" where
  "less_eq_task_status a b \<longleftrightarrow> status_code a \<le> status_code b"

definition less_task_status :: "task_status \<Rightarrow> task_status \<Rightarrow> bool" where
  "less_task_status a b \<longleftrightarrow> status_code a < status_code b"

instance
  by standard (auto simp: less_eq_task_status_def less_task_status_def dest: status_code_inj)

end

text \<open>The status of a structure that \<open>memset\<close> has cleared is the least one.\<close>

lemma zero_status: "status_code st = 0 \<longleftrightarrow> st = TASK_RUNNING" "TASK_RUNNING \<le> st"
  by (cases st; simp add: less_eq_task_status_def)+

text \<open>
  \<open>struct sigcontext\<close> of the kernel, whose layout the assembly files repeat; the registers
  of the processor are a value of the same type.
\<close>

record sigcontext =
  r8 :: "64 word"  r9 :: "64 word"  r10 :: "64 word"  r11 :: "64 word"
  r12 :: "64 word"  r13 :: "64 word"  r14 :: "64 word"  r15 :: "64 word"
  rdi :: "64 word"  rsi :: "64 word"  rbp :: "64 word"  rbx :: "64 word"
  rdx :: "64 word"  rax :: "64 word"  rcx :: "64 word"  rsp :: "64 word"  rip :: "64 word"
  eflags :: "64 word"
  ctx_cs :: "16 word"  ctx_gs :: "16 word"  ctx_fs :: "16 word"  ctx_pad0 :: "16 word"
  ctx_rest :: "64 word list"

text \<open>A task id has 16 bits.\<close>

type_synonym tid_t = int16_t

record task_struct =
  task_stack :: uintptr_t
  stack_min_addr :: uintptr_t
  tcontext :: sigcontext
  tid :: tid_t
  status :: task_status
  tname :: string
  priority :: uint8_t
  ticks :: uint8_t
  elapsed_ticks :: uint32_t
  tfunction :: "64 word"
  func_args :: "64 word"
  stack_magic :: uint32_t
  sleep_millisecond :: "32 word"
  first :: bool
  is_hook :: bool
  is_collaborative_schedule :: bool

record semaphore =
  sema_value :: uint8_t

record lock =
  holder :: "nat option"
  sema :: semaphore
  holder_repeat_nr :: uint32_t

text \<open>The ring buffer of \<open>include/ioqueue.h\<close>, without its lock.\<close>

record ioqueue =
  ioq_producer :: "nat option"
  ioq_consumer :: "nat option"
  ioq_buf :: "8 word list"
  ioq_head :: int32_t
  ioq_tail :: int32_t

section \<open>Timers\<close>

text \<open>
  \<open>include/timer.h\<close>. An element of a ring is a slot of one of the five arrays, the local
  variable that \<open>cascade_timer\<close>, \<open>run_timer\<close> or \<open>delete_array_list_timer\<close> moves a ring to, or
  the \<open>ltTimer\<close> of a timer node. The callbacks are the two functions of the library that are
  given to \<open>create_timer\<close> and those of the program that uses it; \<open>pParam\<close> is a task, or what
  only the callback knows.
\<close>

datatype timer_ref = Slot nat nat | Local | Node nat

datatype callback = Clean_Dead_Task | Collaborative_Schedule_Helper | Client nat

datatype param = Manager_Param | Task_Param nat | Client_Param nat

record timer_node =
  uExpires :: uint32_t
  uPeriod :: uint32_t
  timerFn :: callback
  pParam :: param

record manager =
  uExitFlag :: uint32_t
  uJiffies :: uint32_t

text \<open>
  \<open>tlinks\<close> are the elements of the rings, \<open>tnodes\<close> the allocated nodes without their \<open>ltTimer\<close>.
  \<open>timer_manager\<close>: the pointer is not \<open>NULL\<close>; \<open>manager_mem\<close> is what it points to, without the
  lock and the arrays.
\<close>

record timer_state =
  tlinks :: "timer_ref links"
  tnodes :: "nat \<rightharpoonup> timer_node"
  timer_manager :: bool
  manager_mem :: "manager option"

section \<open>The global state\<close>

text \<open>
  \<open>cells\<close> are the list cells, \<open>tasks\<close> the allocated task structures without their three tags,
  \<open>locks\<close> the initialised locks without their wait lists, \<open>ioqs\<close> the I/O queues.
  \<open>console_out\<close> are the characters written to the standard output so far, \<open>stdio_buf\<close> those
  that \<open>printf\<close> holds back, \<open>total_ticks\<close> is the variable \<open>ticks\<close> of \<open>interrupt/timer.c\<close>.
  \<open>blocked\<close>: \<open>SIGALRM\<close> is in the signal mask. \<open>cpu\<close> and \<open>mem\<close> are the registers and the stack memory at the moment an
  assembly routine is called: the compiled C code in between changes them in ways the
  source does not say.
\<close>

record sys =
  cells :: "cell heap"
  tasks :: "nat \<rightharpoonup> task_struct"
  main_task :: "nat option"
  current_task :: "nat option"
  task_all_nums :: "32 word"
  task_tag :: "cell option"
  tid_bitmap :: bitmap
  tid_start :: "32 word"
  locks :: "lock_id \<rightharpoonup> lock"
  ioqs :: "nat \<rightharpoonup> ioqueue"
  console_out :: string
  stdio_buf :: string
  timers :: timer_state
  total_ticks :: uint64_t
  blocked :: bool
  cpu :: sigcontext
  mem :: "64 word \<Rightarrow> 64 word"

text \<open>The part of the state that scheduling and locking leave alone.\<close>

type_synonym devs = "(nat \<rightharpoonup> ioqueue) \<times> string \<times> string \<times> timer_state \<times> 64 word"

abbreviation devices :: "sys \<Rightarrow> devs" where
  "devices s \<equiv> (ioqs s, console_out s, stdio_buf s, timers s, total_ticks s)"

subsection \<open>Interrupts\<close>

definition interrupt_enable :: "sys \<Rightarrow> sys" where
  "interrupt_enable s = s\<lparr>blocked := False\<rparr>"

definition interrupt_disable :: "sys \<Rightarrow> sys" where
  "interrupt_disable s = s\<lparr>blocked := True\<rparr>"

subsection \<open>Access to tasks, locks and lists\<close>

definition task_at :: "sys \<Rightarrow> nat \<Rightarrow> task_struct result" where
  "task_at s t = (case tasks s t of None \<Rightarrow> Inl Bad_Access | Some ts \<Rightarrow> Inr ts)"

definition upd_task :: "nat \<Rightarrow> (task_struct \<Rightarrow> task_struct) \<Rightarrow> sys \<Rightarrow> sys result" where
  "upd_task t f s = andthen (task_at s t) (\<lambda>ts. Inr (s\<lparr>tasks := (tasks s)(t \<mapsto> f ts)\<rparr>))"

definition lock_at :: "sys \<Rightarrow> lock_id \<Rightarrow> lock result" where
  "lock_at s k = (case locks s k of None \<Rightarrow> Inl Bad_Access | Some l \<Rightarrow> Inr l)"

definition upd_lock :: "lock_id \<Rightarrow> (lock \<Rightarrow> lock) \<Rightarrow> sys \<Rightarrow> sys result" where
  "upd_lock k f s = andthen (lock_at s k) (\<lambda>l. Inr (s\<lparr>locks := (locks s)(k \<mapsto> f l)\<rparr>))"

definition on_cells :: "(cell heap \<Rightarrow> cell heap result) \<Rightarrow> sys \<Rightarrow> sys result" where
  "on_cells f s = andthen (f (cells s)) (\<lambda>h. Inr (s\<lparr>cells := h\<rparr>))"

definition pop_cell :: "list_id \<Rightarrow> sys \<Rightarrow> (cell option \<times> sys) result" where
  "pop_cell i s = andthen (list_pop (list_at i) (cells s)) (\<lambda>(e, h). Inr (e, s\<lparr>cells := h\<rparr>))"

end
