(* ===== verification/Queues.thy ===== *)
theory Queues
  imports State
begin

text \<open>
  The list cells of a state read as queues of tasks, and the list operations as operations
  on these queues: the facts of the list interface at the program's own sentinels and tags.
\<close>

section \<open>The queues a state holds\<close>

text \<open>
  The abstract view of the lists is a family \<open>q\<close> of queues of tasks. \<open>cell_of i t\<close> is the tag
  by which task \<open>t\<close> is put on list \<open>i\<close>: the ready list and the wait lists share a tag, so a
  task is in at most one of them. \<open>linked s q\<close>: the cells of \<open>s\<close> hold exactly the queues \<open>q\<close>,
  of allocated tasks, and all tags of the allocated tasks exist.
\<close>

fun cell_of :: "list_id \<Rightarrow> nat \<Rightarrow> cell" where
  "cell_of ReadyList t = GeneralTag t"
| "cell_of (Waiters _) t = GeneralTag t"
| "cell_of AllList t = AllListTag t"
| "cell_of PoolList t = PoolTag t"

definition lview :: "(list_id \<Rightarrow> nat list) \<Rightarrow> list_id \<Rightarrow> cell list" where
  "lview q i = map (cell_of i) (q i)"

definition linked_cells :: "list_id set \<Rightarrow> nat set \<Rightarrow> cell heap \<Rightarrow> (list_id \<Rightarrow> nat list) \<Rightarrow> bool" where
  "linked_cells D T h q \<longleftrightarrow>
     heap_lists list_at D h (lview q) \<and>
     (\<forall>i\<in>D. set (q i) \<subseteq> T) \<and> (\<forall>t\<in>T. \<forall>i. cell_of i t \<in> dom h)"

definition valid_lists :: "sys \<Rightarrow> list_id set" where
  "valid_lists s = {ReadyList, AllList, PoolList} \<union> Waiters ` dom (locks s)"

definition linked :: "sys \<Rightarrow> (list_id \<Rightarrow> nat list) \<Rightarrow> bool" where
  "linked s q \<longleftrightarrow> linked_cells (valid_lists s) (dom (tasks s)) (cells s) q"

definition off_lists :: "list_id set \<Rightarrow> (list_id \<Rightarrow> nat list) \<Rightarrow> list_id \<Rightarrow> nat \<Rightarrow> bool" where
  "off_lists D q i t \<longleftrightarrow> (\<forall>j\<in>D. cell_of j t = cell_of i t \<longrightarrow> t \<notin> set (q j))"

lemma lview_upd: "lview (q(i := xs)) = (lview q)(i := map (cell_of i) xs)"
  by (auto simp: lview_def)

lemma cell_of_inj [simp]: "cell_of i t = cell_of i u \<longleftrightarrow> t = u"
  by (cases i) auto

lemma cell_of_same_task: "cell_of i t = cell_of j u \<Longrightarrow> t = u"
  by (cases i; cases j) auto

lemma cell_of_no_sentinel [simp]:
  "cell_of i t \<noteq> HeadOf j" "cell_of i t \<noteq> TailOf j" "HeadOf j \<noteq> cell_of i t" "TailOf j \<noteq> cell_of i t"
  by (cases i; simp)+

lemma cell_in_lview: "cell_of i t \<in> set (lview q j) \<longleftrightarrow> cell_of j t = cell_of i t \<and> t \<in> set (q j)"
  unfolding lview_def set_map image_iff by (metis cell_of_same_task)

lemma off_lists_lview: "off_lists D q i t \<longleftrightarrow> (\<forall>j\<in>D. cell_of i t \<notin> set (lview q j))"
  by (auto simp: off_lists_def cell_in_lview)

lemma valid_lists_simps [simp]:
  "ReadyList \<in> valid_lists s" "AllList \<in> valid_lists s" "PoolList \<in> valid_lists s"
  "Waiters k \<in> valid_lists s \<longleftrightarrow> k \<in> dom (locks s)"
  by (auto simp: valid_lists_def)

lemma linked_heap: "linked_cells D T h q \<Longrightarrow> heap_lists list_at D h (lview q)"
  by (simp add: linked_cells_def)

lemma tag_node:
  "linked_cells D T h q \<Longrightarrow> t \<in> T \<Longrightarrow> cell_of i t \<in> node_cells list_at D h"
  by (auto simp: linked_cells_def node_cells_def dom_def)

lemma linked_cellsI:
  assumes "linked_cells D T h q" and "heap_lists list_at D h' (lview q')"
    and "node_cells list_at D h' = node_cells list_at D h"
    and "\<And>i. i \<in> D \<Longrightarrow> set (q' i) \<subseteq> T"
  shows "linked_cells D T h' q'"
proof -
  have "cell_of i t \<in> dom h'" if "t \<in> T" for i t
    using tag_node [OF assms(1) that, of i] unfolding assms(3) [symmetric]
    by (auto simp: node_cells_def)
  then show ?thesis using assms(2,4) by (simp add: linked_cells_def)
qed

lemma linked_subset: "linked_cells D T h q \<Longrightarrow> i \<in> D \<Longrightarrow> set (q i) \<subseteq> T"
  by (simp add: linked_cells_def)

lemma linked_upd:
  assumes "linked_cells D T h q"
    and "heap_lists list_at D h' ((lview q)(i := map (cell_of i) xs))"
    and "node_cells list_at D h' = node_cells list_at D h" and "set xs \<subseteq> T"
  shows "linked_cells D T h' (q(i := xs))"
  by (rule linked_cellsI [OF assms(1) _ assms(3)])
    (use assms(2,4) linked_subset [OF assms(1)] in \<open>auto simp: lview_upd split: if_splits\<close>)

lemma linked_distinct: "linked_cells D T h q \<Longrightarrow> i \<in> D \<Longrightarrow> distinct (q i)"
  using cl.ok_distinct [OF linked_heap, of D T h q i] by (simp add: lview_def distinct_map)

lemma linked_off:
  assumes "linked_cells D T h q" and "i \<in> D" and "t \<in> set (q i)" and "j \<in> D" and "i \<noteq> j"
    and "cell_of j t = cell_of i t"
  shows "t \<notin> set (q j)"
  using cl.ok_disjoint [OF linked_heap [OF assms(1)] assms(2,4,5), of "cell_of i t"] assms(3,6)
  by (simp add: cell_in_lview)

subsection \<open>The list operations, on queues\<close>

lemma linked_append:
  assumes "linked_cells D T h q" and "i \<in> D" and "t \<in> T" and "off_lists D q i t"
  shows "\<exists>h'. list_append (list_at i) (cell_of i t) h = Inr h' \<and>
    linked_cells D T h' (q(i := q i @ [t]))"
proof -
  obtain h' where h': "list_append (list_at i) (cell_of i t) h = Inr h'"
      "heap_lists list_at D h' ((lview q)(i := lview q i @ [cell_of i t]))"
      "node_cells list_at D h' = node_cells list_at D h"
    using cl.app_ok [OF linked_heap [OF assms(1)] assms(2) tag_node [OF assms(1,3)]
        assms(4) [unfolded off_lists_lview]] by blast
  have "linked_cells D T h' (q(i := q i @ [t]))"
    by (rule linked_upd [OF assms(1) _ h'(3)])
      (use h'(2) assms(3) linked_subset [OF assms(1,2)] in \<open>auto simp: lview_def\<close>)
  with h'(1) show ?thesis by blast
qed

lemma linked_push:
  assumes "linked_cells D T h q" and "i \<in> D" and "t \<in> T" and "off_lists D q i t"
  shows "\<exists>h'. list_push (list_at i) (cell_of i t) h = Inr h' \<and>
    linked_cells D T h' (q(i := t # q i))"
proof -
  obtain h' where h': "list_push (list_at i) (cell_of i t) h = Inr h'"
      "heap_lists list_at D h' ((lview q)(i := cell_of i t # lview q i))"
      "node_cells list_at D h' = node_cells list_at D h"
    using cl.push_ok [OF linked_heap [OF assms(1)] assms(2) tag_node [OF assms(1,3)]
        assms(4) [unfolded off_lists_lview]] by blast
  have "linked_cells D T h' (q(i := t # q i))"
    by (rule linked_upd [OF assms(1) _ h'(3)])
      (use h'(2) assms(3) linked_subset [OF assms(1,2)] in \<open>auto simp: lview_def\<close>)
  with h'(1) show ?thesis by blast
qed

lemma linked_pop:
  assumes "linked_cells D T h q" and "i \<in> D" and "q i = t # ts"
  shows "\<exists>h'. list_pop (list_at i) h = Inr (Some (cell_of i t), h') \<and>
    linked_cells D T h' (q(i := ts))"
proof -
  have "lview q i = cell_of i t # map (cell_of i) ts" by (simp add: lview_def assms(3))
  from cl.pop_ok [OF linked_heap [OF assms(1)] assms(2) this]
  obtain h' where h': "list_pop (list_at i) h = Inr (Some (cell_of i t), h')"
      "heap_lists list_at D h' ((lview q)(i := map (cell_of i) ts))"
      "node_cells list_at D h' = node_cells list_at D h"
    by blast
  have "linked_cells D T h' (q(i := ts))"
    by (rule linked_upd [OF assms(1) h'(2,3)])
      (use assms(3) linked_subset [OF assms(1,2)] in auto)
  with h'(1) show ?thesis by blast
qed

lemma remove1_map_inj: "inj f \<Longrightarrow> remove1 (f x) (map f xs) = map f (remove1 x xs)"
  by (induction xs) (auto dest: injD)

lemma linked_remove:
  assumes "linked_cells D T h q" and "i \<in> D" and "t \<in> set (q i)"
  shows "\<exists>h'. list_remove (Some (cell_of i t)) h = Inr h' \<and>
    linked_cells D T h' (q(i := remove1 t (q i)))"
proof -
  have "cell_of i t \<in> set (lview q i)" using assms(3) by (simp add: cell_in_lview)
  from cl.rem_ok [OF linked_heap [OF assms(1)] assms(2) this]
  obtain h' where h': "list_remove (Some (cell_of i t)) h = Inr h'"
      "heap_lists list_at D h' ((lview q)(i := remove1 (cell_of i t) (lview q i)))"
      "node_cells list_at D h' = node_cells list_at D h"
    by blast
  have "remove1 (cell_of i t) (lview q i) = map (cell_of i) (remove1 t (q i))"
    by (simp add: lview_def remove1_map_inj inj_def)
  then have "linked_cells D T h' (q(i := remove1 t (q i)))"
    using h'(2,3) linked_subset [OF assms(1,2)] set_remove1_subset [of t "q i"]
    by (intro linked_upd [OF assms(1)]) auto
  with h'(1) show ?thesis by blast
qed

lemma linked_find:
  assumes "linked_cells D T h q" and "i \<in> D"
  shows "elem_find (list_at i) (cell_of i t) h = Inr (t \<in> set (q i))"
  using cl.mem_ok [OF linked_heap [OF assms(1)] assms(2), of "cell_of i t"]
  by (simp add: cell_in_lview)

lemma linked_empty:
  assumes "linked_cells D T h q" and "i \<in> D"
  shows "list_empty (list_at i) h = Inr (q i = [])"
  using cl.isempty_ok [OF linked_heap [OF assms(1)] assms(2)] by (simp add: lview_def)

lemma linked_pop_none:
  assumes "linked_cells D T h q" and "i \<in> D" and "q i = []"
  shows "list_pop (list_at i) h = Inl Null_Deref"
proof -
  have "dll h (list_at i) []"
    using heap_lists_dll [OF linked_heap [OF assms(1)] assms(2)] assms(3) by (simp add: lview_def)
  then show ?thesis by (rule list_pop_empty)
qed

text \<open>The two hand-overs of the scheduler, from the lemmas of the interface.\<close>

lemma linked_rotate:
  assumes "linked_cells D T h q" and "i \<in> D" and "t \<in> T" and "off_lists D q i t"
  shows "\<exists>h1 h2. list_append (list_at i) (cell_of i t) h = Inr h1 \<and>
    list_empty (list_at i) h1 = Inr False \<and>
    list_pop (list_at i) h1 = Inr (Some (cell_of i (hd (q i @ [t]))), h2) \<and>
    linked_cells D T h2 (q(i := tl (q i @ [t])))"
proof -
  have hd: "hd (lview q i @ [cell_of i t]) = cell_of i (hd (q i @ [t]))"
    and tl: "tl (lview q i @ [cell_of i t]) = map (cell_of i) (tl (q i @ [t]))"
    by (cases "q i"; simp add: lview_def)+
  from cl.app_pop [OF linked_heap [OF assms(1)] assms(2) tag_node [OF assms(1,3)]
      assms(4) [unfolded off_lists_lview], unfolded hd tl]
  obtain h1 h2 where h: "list_append (list_at i) (cell_of i t) h = Inr h1"
      "list_empty (list_at i) h1 = Inr False"
      "list_pop (list_at i) h1 = Inr (Some (cell_of i (hd (q i @ [t]))), h2)"
      "heap_lists list_at D h2 ((lview q)(i := map (cell_of i) (tl (q i @ [t]))))"
      "node_cells list_at D h2 = node_cells list_at D h"
    by blast
  have "set (tl (q i @ [t])) \<subseteq> T"
    using linked_subset [OF assms(1,2)] assms(3) by (cases "q i") auto
  then have "linked_cells D T h2 (q(i := tl (q i @ [t])))"
    by (rule linked_upd [OF assms(1) h(4,5)])
  with h(1-3) show ?thesis by blast
qed

lemma linked_pop_push:
  assumes "linked_cells D T h q" and "i \<in> D" and "j \<in> D" and "i \<noteq> j" and "q i = t # ts"
    and "cell_of i t = cell_of j t"
  shows "\<exists>h1 h2. list_pop (list_at i) h = Inr (Some (cell_of i t), h1) \<and>
    elem_find (list_at j) (cell_of j t) h1 = Inr False \<and>
    list_push (list_at j) (cell_of j t) h1 = Inr h2 \<and>
    linked_cells D T h2 (q(i := ts, j := t # q j))"
proof -
  have "lview q i = cell_of i t # map (cell_of i) ts" by (simp add: lview_def assms(5))
  from cl.pop_push [OF linked_heap [OF assms(1)] assms(2-4) this]
  obtain h1 h2 where h: "list_pop (list_at i) h = Inr (Some (cell_of i t), h1)"
      "elem_find (list_at j) (cell_of i t) h1 = Inr False"
      "list_push (list_at j) (cell_of i t) h1 = Inr h2"
      "heap_lists list_at D h2
         ((lview q)(i := map (cell_of i) ts, j := cell_of i t # lview q j))"
      "node_cells list_at D h2 = node_cells list_at D h"
    by blast
  have "lview (q(i := ts, j := t # q j)) =
      (lview q)(i := map (cell_of i) ts, j := cell_of i t # lview q j)"
    by (simp add: lview_upd assms(6)) (simp add: lview_def)
  then have "linked_cells D T h2 (q(i := ts, j := t # q j))"
    by (intro linked_cellsI [OF assms(1) _ h(5)])
      (use h(4) assms(3,5) linked_subset [OF assms(1)] linked_subset [OF assms(1,2)] in
        \<open>auto split: if_splits\<close>)
  with h(1-3) assms(6) show ?thesis by auto
qed

section \<open>Making and freeing the tags of a task\<close>

text \<open>The three list elements inside a \<open>task_struct\<close> that \<open>memset\<close> has cleared.\<close>

definition clear_tags :: "nat \<Rightarrow> cell heap \<Rightarrow> cell heap" where
  "clear_tags t h = h(GeneralTag t \<mapsto> \<lparr>prev = None, nxt = None\<rparr>,
     AllListTag t \<mapsto> \<lparr>prev = None, nxt = None\<rparr>, PoolTag t \<mapsto> \<lparr>prev = None, nxt = None\<rparr>)"

definition free_tags :: "nat \<Rightarrow> cell heap \<Rightarrow> cell heap" where
  "free_tags t h = h(GeneralTag t := None, AllListTag t := None, PoolTag t := None)"

lemma tags_elsewhere:
  "e \<noteq> GeneralTag t \<Longrightarrow> e \<noteq> AllListTag t \<Longrightarrow> e \<noteq> PoolTag t \<Longrightarrow> clear_tags t h e = h e"
  "e \<noteq> GeneralTag t \<Longrightarrow> e \<noteq> AllListTag t \<Longrightarrow> e \<noteq> PoolTag t \<Longrightarrow> free_tags t h e = h e"
  by (simp_all add: clear_tags_def free_tags_def)

lemma no_tag_in_list:
  assumes "\<forall>j\<in>D. t \<notin> set (q j)" and "i \<in> D" and "e \<in> list_cells (list_at i) (lview q i)"
  shows "e \<noteq> GeneralTag t" "e \<noteq> AllListTag t" "e \<noteq> PoolTag t"
proof -
  have "e = HeadOf i \<or> e = TailOf i \<or> (\<exists>u\<in>set (q i). e = cell_of i u)"
    using assms(3) by (auto simp: list_cells_def lview_def)
  then have "e \<noteq> cell_of j t" for j
    using assms(1,2) by (auto dest: cell_of_same_task)
  from this [of ReadyList] this [of AllList] this [of PoolList]
  show "e \<noteq> GeneralTag t" "e \<noteq> AllListTag t" "e \<noteq> PoolTag t" by simp_all
qed

lemma linked_clear_tags:
  assumes "linked_cells D T h q" and "t \<notin> T"
  shows "linked_cells D (insert t T) (clear_tags t h) q"
proof -
  have off: "\<forall>j\<in>D. t \<notin> set (q j)" using linked_subset [OF assms(1)] assms(2) by blast
  have "heap_lists list_at D (clear_tags t h) (lview q)"
    by (rule heap_lists_cong [OF linked_heap [OF assms(1)]], rule tags_elsewhere(1))
      (erule (1) no_tag_in_list [OF off])+
  moreover have "cell_of i t \<in> dom (clear_tags t h)" for i
    by (cases i) (simp_all add: clear_tags_def)
  moreover have "dom h \<subseteq> dom (clear_tags t h)" by (auto simp: clear_tags_def)
  ultimately show ?thesis using assms(1) by (fastforce simp: linked_cells_def)
qed

lemma linked_free_tags:
  assumes "linked_cells D T h q" and off: "\<forall>j\<in>D. t \<notin> set (q j)"
  shows "linked_cells D (T - {t}) (free_tags t h) q"
proof -
  have "heap_lists list_at D (free_tags t h) (lview q)"
    by (rule heap_lists_cong [OF linked_heap [OF assms(1)]], rule tags_elsewhere(2))
      (erule (1) no_tag_in_list [OF off])+
  moreover have "cell_of i u \<in> dom (free_tags t h)" if "u \<in> T" "u \<noteq> t" for i u
  proof -
    have "cell_of i u \<in> dom h" using assms(1) that(1) by (simp add: linked_cells_def)
    then show ?thesis using that(2) by (cases i) (auto simp: free_tags_def)
  qed
  moreover have "set (q i) \<subseteq> T - {t}" if "i \<in> D" for i
    using linked_subset [OF assms(1) that] off that by blast
  ultimately show ?thesis by (simp add: linked_cells_def)
qed

end
