(* ===== verification/Context.thy ===== *)
theory Context
  imports State
begin

text \<open>
  The three assembly routines, \<open>task/context_swap.asm\<close>, \<open>task/died_context_swap.asm\<close> and
  \<open>task/get_reg.asm\<close>, instruction by instruction on the registers, the stack memory and the
  saved contexts.
\<close>

section \<open>The routines\<close>

text \<open>
  First half of \<open>context_swap\<close>: store the registers. The return address, on top of the
  stack, becomes the saved \<open>rip\<close>, and the saved \<open>rsp\<close> is the stack above it.
\<close>

definition context_save ::
  "sigcontext \<Rightarrow> (64 word \<Rightarrow> 64 word) \<Rightarrow> sigcontext \<Rightarrow> sigcontext" where
  "context_save r m c =
     c\<lparr>r8 := r8 r, r9 := r9 r, r10 := r10 r, r11 := r11 r,
       r12 := r12 r, r13 := r13 r, r14 := r14 r, r15 := r15 r,
       rdi := rdi r, rsi := rsi r, rbp := rbp r, rbx := rbx r,
       rdx := rdx r, rax := rax r, rcx := rcx r,
       rip := m (rsp r), rsp := rsp r + 8\<rparr>"

text \<open>
  Loading a context: the general registers, then the stack pointer, then \<open>rip\<close> is pushed on
  the new stack, the scratch registers are loaded and \<open>ret\<close> pops it.
\<close>

definition context_load ::
  "sigcontext \<Rightarrow> sigcontext \<times> (64 word \<Rightarrow> 64 word) \<Rightarrow> sigcontext \<times> (64 word \<Rightarrow> 64 word)" where
  "context_load n = (\<lambda>(r, m).
     let r = r\<lparr>r8 := r8 n, r9 := r9 n, r10 := r10 n, r11 := r11 n,
               r12 := r12 n, r13 := r13 n, r14 := r14 n, r15 := r15 n,
               rbp := rbp n, rbx := rbx n, rdx := rdx n, rax := rax n, rsp := rsp n\<rparr>;
         r = r\<lparr>rcx := rip n\<rparr>;
         r = r\<lparr>rsp := rsp r - 8\<rparr>;
         m = m(rsp r := rcx r);
         r = r\<lparr>rcx := rcx n, rsi := rsi n, rdi := rdi n\<rparr>;
         r = r\<lparr>rip := m (rsp r), rsp := rsp r + 8\<rparr>
     in (r, m))"

definition context_swap :: "nat \<Rightarrow> nat \<Rightarrow> sys \<Rightarrow> sys result" where
  "context_swap c n s =
     andthen (upd_task c (\<lambda>ts. ts\<lparr>tcontext := context_save (cpu s) (mem s) (tcontext ts)\<rparr>) s) (\<lambda>s.
     andthen (task_at s n) (\<lambda>ts.
     let (r, m) = context_load (tcontext ts) (cpu s, mem s) in
     Inr (s\<lparr>cpu := r, mem := m\<rparr>)))"

definition context_set :: "nat \<Rightarrow> sys \<Rightarrow> sys result" where
  "context_set n s =
     andthen (task_at s n) (\<lambda>ts.
     let (r, m) = context_load (tcontext ts) (cpu s, mem s) in
     Inr (s\<lparr>cpu := r, mem := m\<rparr>))"

text \<open>\<open>get_reg\<close> stores the code and the stack segment selectors of the running process.\<close>

definition get_reg :: "sigcontext \<Rightarrow> sigcontext \<Rightarrow> sigcontext" where
  "get_reg r c = c\<lparr>ctx_cs := ctx_cs r, ctx_pad0 := ctx_pad0 r\<rparr>"

section \<open>Switching away and back\<close>

lemma context_load_mem: "snd (context_load n (r, m)) = m(rsp n - 8 := rip n)"
  by (simp add: context_load_def Let_def)

text \<open>What the caller of \<open>context_swap\<close> finds when it is switched to again.\<close>

definition resumed :: "sigcontext \<Rightarrow> (64 word \<Rightarrow> 64 word) \<Rightarrow> sigcontext \<Rightarrow> bool" where
  "resumed r m r' \<longleftrightarrow>
     rip r' = m (rsp r) \<and> rsp r' = rsp r + 8 \<and> rbx r' = rbx r \<and> rbp r' = rbp r \<and>
     r12 r' = r12 r \<and> r13 r' = r13 r \<and> r14 r' = r14 r \<and> r15 r' = r15 r \<and>
     rdi r' = rdi r \<and> rsi r' = rsi r \<and> rdx r' = rdx r \<and> rcx r' = rcx r \<and> rax r' = rax r \<and>
     r8 r' = r8 r \<and> r9 r' = r9 r \<and> r10 r' = r10 r \<and> r11 r' = r11 r"

lemma save_load_resumed: "resumed r m (fst (context_load (context_save r m c) (r', m')))"
  by (simp add: resumed_def context_load_def context_save_def Let_def)

end
