(* ===== verification/Sched.thy ===== *)
theory Sched
  imports Queues Context
begin

text \<open>
  The scheduler of \<open>task/task.c\<close>: choosing the next task and switching to it, from the
  signal handler (\<open>schedule\<close>, \<open>collaborative_schedule\<close>), from a task that blocks and from one
  that ends; and waking a task.
\<close>

section \<open>The functions\<close>

definition current :: "sys \<Rightarrow> nat result" where
  "current s = deref (current_task s)"

definition set_status :: "task_status \<Rightarrow> nat \<Rightarrow> sys \<Rightarrow> sys result" where
  "set_status st t = upd_task t (\<lambda>ts. ts\<lparr>status := st\<rparr>)"

definition in_list :: "list_id \<Rightarrow> cell \<Rightarrow> sys \<Rightarrow> bool result" where
  "in_list i e s = elem_find (list_at i) e (cells s)"

definition is_empty :: "list_id \<Rightarrow> sys \<Rightarrow> bool result" where
  "is_empty i s = list_empty (list_at i) (cells s)"

definition append_cell :: "list_id \<Rightarrow> cell \<Rightarrow> sys \<Rightarrow> sys result" where
  "append_cell i e = on_cells (list_append (list_at i) e)"

definition push_cell :: "list_id \<Rightarrow> cell \<Rightarrow> sys \<Rightarrow> sys result" where
  "push_cell i e = on_cells (list_push (list_at i) e)"

definition get_next_task :: "sys \<Rightarrow> (nat \<times> sys) result" where
  "get_next_task s =
     andthen (pop_cell ReadyList s) (\<lambda>(e, s).
     let s = s\<lparr>task_tag := e\<rparr> in
     andthen (elem2entry_general_tag (task_tag s)) (\<lambda>next_task.
     andthen (set_status TASK_RUNNING next_task s) (\<lambda>s.
     Inr (next_task, s))))"

text \<open>
  \<open>schedule(a)\<close>: \<open>frame\<close> is the \<open>sigcontext\<close> the kernel put on the signal stack, at
  \<open>a + CONTEXT_OFFSET\<close>; the function overwrites it with the context to return to.
\<close>

definition schedule :: "sigcontext \<Rightarrow> sys \<Rightarrow> (sigcontext \<times> sys) result" where
  "schedule frame s =
     andthen (current s) (\<lambda>c.
     andthen (in_list ReadyList (GeneralTag c) s) (\<lambda>b.
     assert_c (\<not> b) (
     andthen (append_cell ReadyList (GeneralTag c) s) (\<lambda>s.
     andthen (upd_task c (\<lambda>ts. ts\<lparr>ticks := priority ts\<rparr>) s) (\<lambda>s.
     andthen (set_status TASK_READY c s) (\<lambda>s.
     andthen (is_empty ReadyList s) (\<lambda>empty.
     if empty then Inl Idle_Spin
     else andthen (get_next_task s) (\<lambda>(next_task, s).
     andthen (upd_task c (\<lambda>ts. ts\<lparr>tcontext := frame\<rparr>) s) (\<lambda>s.
     let s = s\<lparr>current_task := Some next_task\<rparr> in
     andthen (task_at s next_task) (\<lambda>ts.
     Inr (tcontext ts, s)))))))))))"

definition collaborative_schedule :: "sigcontext \<Rightarrow> sys \<Rightarrow> (sigcontext \<times> sys) result" where
  "collaborative_schedule frame s =
     andthen (is_empty ReadyList s) (\<lambda>empty.
     if empty then Inl Idle_Spin
     else andthen (get_next_task s) (\<lambda>(next_task, s).
     andthen (current s) (\<lambda>c.
     andthen (upd_task c (\<lambda>ts. ts\<lparr>tcontext := frame\<rparr>) s) (\<lambda>s.
     let s = s\<lparr>current_task := Some next_task\<rparr> in
     andthen (task_at s next_task) (\<lambda>ts.
     Inr (tcontext ts, s))))))"

text \<open>\<open>died_task_schedule\<close> does not return: the state is the one the next task runs in.\<close>

definition died_task_schedule :: "sys \<Rightarrow> sys result" where
  "died_task_schedule s =
     andthen (is_empty ReadyList s) (\<lambda>empty.
     if empty then Inl Idle_Spin
     else andthen (pop_cell ReadyList s) (\<lambda>(e, s).
     let s = s\<lparr>task_tag := e\<rparr> in
     andthen (elem2entry_general_tag (task_tag s)) (\<lambda>next_task.
     andthen (set_status TASK_RUNNING next_task s) (\<lambda>s.
     let s = s\<lparr>current_task := Some next_task\<rparr> in
     context_set next_task s))))"

text \<open>\<open>block_task_schedule\<close> up to and including \<open>context_swap\<close>.\<close>

definition block_task_schedule :: "sys \<Rightarrow> sys result" where
  "block_task_schedule s =
     andthen (is_empty ReadyList s) (\<lambda>empty.
     if empty then Inl Idle_Spin
     else assert_c (\<not> empty) (
     andthen (pop_cell ReadyList s) (\<lambda>(e, s).
     let s = s\<lparr>task_tag := e\<rparr> in
     andthen (elem2entry_general_tag (task_tag s)) (\<lambda>next_task.
     andthen (set_status TASK_RUNNING next_task s) (\<lambda>s.
     andthen (current s) (\<lambda>temp.
     let s = s\<lparr>current_task := Some next_task\<rparr> in
     context_swap temp next_task s))))))"

definition task_block_switch :: "task_status \<Rightarrow> sys \<Rightarrow> sys result" where
  "task_block_switch st s =
     assert_c (st = TASK_BLOCKED \<or> st = TASK_WAITING \<or> st = TASK_HANGING) (
     andthen (current s) (\<lambda>c.
     andthen (set_status st c s) (\<lambda>s.
     block_task_schedule s)))"

text \<open>\<open>task_block\<close> returns when some task has switched back to the caller.\<close>

definition task_block :: "task_status \<Rightarrow> sys \<Rightarrow> (sys, unit) run" where
  "task_block st s =
     (case task_block_switch st s of Inl e \<Rightarrow> Fail e | Inr t \<Rightarrow> Switch t (\<lambda>u. Done () u))"

definition task_unblock :: "nat \<Rightarrow> sys \<Rightarrow> sys result" where
  "task_unblock t s =
     (let s = interrupt_disable s in
      andthen (task_at s t) (\<lambda>ts.
      assert_c (status ts = TASK_BLOCKED \<or> status ts = TASK_WAITING \<or> status ts = TASK_HANGING) (
      andthen
        (if status ts \<noteq> TASK_READY then
           andthen (in_list ReadyList (GeneralTag t) s) (\<lambda>b.
           assert_c (\<not> b) (
           andthen (push_cell ReadyList (GeneralTag t) s) (\<lambda>s.
           set_status TASK_READY t s)))
         else Inr s) (\<lambda>s.
      Inr (interrupt_enable s)))))"

section \<open>The scheduler's invariant\<close>

definition has_status :: "sys \<Rightarrow> nat \<Rightarrow> task_status \<Rightarrow> bool" where
  "has_status s t st \<longleftrightarrow> (\<exists>ts. tasks s t = Some ts \<and> status ts = st)"

text \<open>
  \<open>sched_ok s q\<close>: the cells hold the queues \<open>q\<close>; the running task is on neither the ready
  list nor a wait list; the tasks of the ready list are marked ready and those of the wait
  lists blocked. The mark of the running task is not part of it: it is running as long as
  it has not begun to exit.
\<close>

definition sched_ok :: "sys \<Rightarrow> (list_id \<Rightarrow> nat list) \<Rightarrow> bool" where
  "sched_ok s q \<longleftrightarrow> linked s q \<and>
     (\<exists>c. current_task s = Some c \<and> c \<in> dom (tasks s) \<and>
        off_lists (valid_lists s) q ReadyList c) \<and>
     (\<forall>t\<in>set (q ReadyList). has_status s t TASK_READY) \<and>
     (\<forall>k\<in>dom (locks s). \<forall>t\<in>set (q (Waiters k)). has_status s t TASK_BLOCKED)"

lemma off_lists_ready:
  "off_lists (valid_lists s) q ReadyList c \<longleftrightarrow>
     c \<notin> set (q ReadyList) \<and> (\<forall>k\<in>dom (locks s). c \<notin> set (q (Waiters k)))"
  by (auto simp: off_lists_def valid_lists_def)

lemmas step_simps = set_status_def upd_task_def task_at_def upd_lock_def lock_at_def on_cells_def
  append_cell_def push_cell_def pop_cell_def in_list_def is_empty_def current_def
  interrupt_enable_def interrupt_disable_def Let_def

lemma schedule_run:
  assumes "sched_ok s q" and c: "current_task s = Some c"
    and n: "n = hd (q ReadyList @ [c])"
  shows "\<exists>h tc tn. tasks s c = Some tc \<and> tasks s n = Some tn \<and>
    linked_cells (valid_lists s) (dom (tasks s)) h (q(ReadyList := tl (q ReadyList @ [c]))) \<and>
    schedule frame s = Inr (if n = c then frame else tcontext tn,
      s\<lparr>cells := h, task_tag := Some (GeneralTag n), current_task := Some n,
        tasks := (tasks s)
          (c \<mapsto> tc\<lparr>ticks := priority tc, status := if n = c then TASK_RUNNING else TASK_READY,
                 tcontext := frame\<rparr>,
           n \<mapsto> if n = c
             then tc\<lparr>ticks := priority tc, status := TASK_RUNNING, tcontext := frame\<rparr>
             else tn\<lparr>status := TASK_RUNNING\<rparr>)\<rparr>)"
proof -
  have l: "linked_cells (valid_lists s) (dom (tasks s)) (cells s) q"
      and off: "off_lists (valid_lists s) q ReadyList c"
    using assms(1,2) by (auto simp: sched_ok_def linked_def)
  obtain tc where tc: "tasks s c = Some tc" using assms(1,2) by (auto simp: sched_ok_def has_status_def)
  then have "c \<in> dom (tasks s)" by blast
  from linked_rotate [OF l _ this off] obtain h1 h where h:
      "list_append (list_at ReadyList) (GeneralTag c) (cells s) = Inr h1"
      "list_empty (list_at ReadyList) h1 = Inr False"
      "list_pop (list_at ReadyList) h1 = Inr (Some (GeneralTag n), h)"
      "linked_cells (valid_lists s) (dom (tasks s)) h (q(ReadyList := tl (q ReadyList @ [c])))"
    unfolding n by auto
  have fnd: "elem_find (list_at ReadyList) (GeneralTag c) (cells s) = Inr False"
    using linked_find [OF l, of ReadyList c] off by (simp add: off_lists_ready)
  have "n \<in> dom (tasks s)"
    using linked_subset [OF l, of ReadyList] tc n by (cases "q ReadyList") auto
  then obtain tn where tn: "tasks s n = Some tn" by blast
  have "schedule frame s = Inr (if n = c then frame else tcontext tn,
      s\<lparr>cells := h, task_tag := Some (GeneralTag n), current_task := Some n,
        tasks := (tasks s)
          (c \<mapsto> tc\<lparr>ticks := priority tc, status := if n = c then TASK_RUNNING else TASK_READY,
                 tcontext := frame\<rparr>,
           n \<mapsto> if n = c
             then tc\<lparr>ticks := priority tc, status := TASK_RUNNING, tcontext := frame\<rparr>
             else tn\<lparr>status := TASK_RUNNING\<rparr>)\<rparr>)"
  proof (cases "n = c")
    case True
    then show ?thesis
      using c tc h(1-3) fnd by (simp add: schedule_def get_next_task_def step_simps)
  next
    case False
    then show ?thesis
      using c tc tn h(1-3) fnd
      by (simp add: schedule_def get_next_task_def step_simps fun_upd_twist)
  qed
  with tc tn h(4) show ?thesis by blast
qed

lemma sched_okE:
  assumes "sched_ok s q"
  obtains c tc where "current_task s = Some c" "tasks s c = Some tc"
    "linked_cells (valid_lists s) (dom (tasks s)) (cells s) q"
    "c \<notin> set (q ReadyList)" "\<forall>k\<in>dom (locks s). c \<notin> set (q (Waiters k))"
    "distinct (q ReadyList @ [c])" "off_lists (valid_lists s) q ReadyList c"
  using assms linked_distinct [of "valid_lists s" _ _ q ReadyList]
  by (auto simp: sched_ok_def linked_def has_status_def off_lists_ready)

lemma ready_off_waiters:
  assumes "sched_ok s q" and "t \<in> set (q ReadyList)" and "k \<in> dom (locks s)"
  shows "t \<notin> set (q (Waiters k))"
  using linked_off [of "valid_lists s" "dom (tasks s)" "cells s" q ReadyList t "Waiters k"] assms
  by (simp add: sched_ok_def linked_def)

text \<open>
  The general step of the scheduler: whatever else happens to the tasks, the next task \<open>n\<close> is
  taken from the front of the ready list and marked running, and the task \<open>c\<close> that leaves is
  at the end of the ready list and marked ready, or on a wait list and marked blocked, or on
  neither.
\<close>

lemma sched_ok_switch:
  assumes "sched_ok s q" and c: "current_task s = Some c"
    and "linked s' q'" and "current_task s' = Some n"
    and "has_status s' n TASK_RUNNING" and "dom (locks s') = dom (locks s)"
    and "set (n # q' ReadyList) \<subseteq> insert c (set (q ReadyList))" and "n \<notin> set (q' ReadyList)"
    and "\<And>t. t \<in> set (q' ReadyList) \<Longrightarrow> t \<noteq> c \<Longrightarrow> has_status s t TASK_READY \<Longrightarrow> has_status s' t TASK_READY"
    and "c \<in> set (q' ReadyList) \<Longrightarrow> has_status s' c TASK_READY"
    and "\<And>t. t \<noteq> c \<Longrightarrow> t \<noteq> n \<Longrightarrow> has_status s t TASK_BLOCKED \<Longrightarrow> has_status s' t TASK_BLOCKED"
    and "\<And>k. set (q' (Waiters k)) \<subseteq> insert c (set (q (Waiters k)))"
    and "\<And>k. k \<in> dom (locks s) \<Longrightarrow> c \<in> set (q' (Waiters k)) \<Longrightarrow> n \<noteq> c \<and> has_status s' c TASK_BLOCKED"
  shows "sched_ok s' q'"
proof -
  have "n \<in> dom (tasks s')" using assms(5) by (auto simp: has_status_def)
  have nw: "n \<notin> set (q' (Waiters k))" if k: "k \<in> dom (locks s)" for k
  proof
    assume n: "n \<in> set (q' (Waiters k))"
    then have "n \<noteq> c" using assms(13) [OF k] by auto
    then have "n \<in> set (q ReadyList)" "n \<in> set (q (Waiters k))" using assms(7,12) n by auto
    then show False using ready_off_waiters [OF assms(1) _ k] by blast
  qed
  have "has_status s' t TASK_READY" if "t \<in> set (q' ReadyList)" for t
    using assms(1,7,9,10) that by (auto simp: sched_ok_def)
  moreover have "has_status s' t TASK_BLOCKED" if k: "k \<in> dom (locks s)" and "t \<in> set (q' (Waiters k))" for k t
  proof (cases "t = c")
    case True
    then show ?thesis using assms(13) [OF k] that(2) by simp
  next
    case False
    then have "t \<in> set (q (Waiters k))" using assms(12) that(2) by blast
    moreover have "t \<noteq> n" using nw [OF k] that(2) by auto
    ultimately show ?thesis using assms(1,11) False k by (auto simp: sched_ok_def)
  qed
  ultimately show ?thesis
    using assms(3-6,8) nw \<open>n \<in> dom _\<close> by (auto simp: sched_ok_def off_lists_ready)
qed

lemma schedule_ok:
  assumes "sched_ok s q" and c: "current_task s = Some c"
  shows "\<exists>frame' s'. schedule frame s = Inr (frame', s') \<and>
    sched_ok s' (q(ReadyList := tl (q ReadyList @ [c]))) \<and>
    current_task s' = Some (hd (q ReadyList @ [c])) \<and>
    has_status s' (hd (q ReadyList @ [c])) TASK_RUNNING \<and> locks s' = locks s \<and>
    devices s' = devices s \<and> blocked s' = blocked s"
proof -
  define n where "n = hd (q ReadyList @ [c])"
  define ns where "ns = tl (q ReadyList @ [c])"
  have d: "distinct (q ReadyList @ [c])" by (rule sched_okE [OF assms(1)]) (use c in auto)
  have split: "q ReadyList @ [c] = n # ns" by (simp add: n_def ns_def)
  obtain h tc tn where run: "tasks s c = Some tc" "tasks s n = Some tn"
    "linked_cells (valid_lists s) (dom (tasks s)) h (q(ReadyList := ns))"
    "schedule frame s = Inr (if n = c then frame else tcontext tn,
      s\<lparr>cells := h, task_tag := Some (GeneralTag n), current_task := Some n,
        tasks := (tasks s)
          (c \<mapsto> tc\<lparr>ticks := priority tc, status := if n = c then TASK_RUNNING else TASK_READY,
                 tcontext := frame\<rparr>,
           n \<mapsto> if n = c
             then tc\<lparr>ticks := priority tc, status := TASK_RUNNING, tcontext := frame\<rparr>
             else tn\<lparr>status := TASK_RUNNING\<rparr>)\<rparr>)"
    (is "_ = Inr (?f, ?s)")
    using schedule_run [OF assms n_def] unfolding ns_def by blast
  have dom: "dom (tasks ?s) = dom (tasks s)" and val: "valid_lists ?s = valid_lists s"
    using run(1,2) by (auto simp: valid_lists_def)
  have "sched_ok ?s (q(ReadyList := ns))"
  proof (rule sched_ok_switch [OF assms])
    show "linked ?s (q(ReadyList := ns))" using run(3) dom val by (simp add: linked_def)
    show "set (n # (q(ReadyList := ns)) ReadyList) \<subseteq> insert c (set (q ReadyList))"
      using arg_cong [OF split, of set] by auto
    show "n \<notin> set ((q(ReadyList := ns)) ReadyList)" using d split by auto
    show "n \<noteq> c \<and> has_status ?s c TASK_BLOCKED"
      if "k \<in> dom (locks s)" "c \<in> set ((q(ReadyList := ns)) (Waiters k))" for k
      by (rule sched_okE [OF assms(1)]) (use c that in auto)
  qed (use run(1,2) d split in \<open>auto simp: has_status_def\<close>)
  moreover have "has_status ?s n TASK_RUNNING" by (simp add: has_status_def)
  ultimately show ?thesis
    using run(4) unfolding ns_def [symmetric] n_def [symmetric] by auto
qed

section \<open>Leaving the processor\<close>

lemma next_exists:
  assumes "linked s q" and "q ReadyList = n # ns"
  shows "\<exists>h tn. tasks s n = Some tn \<and>
    list_empty (list_at ReadyList) (cells s) = Inr False \<and>
    list_pop (list_at ReadyList) (cells s) = Inr (Some (GeneralTag n), h) \<and>
    linked_cells (valid_lists s) (dom (tasks s)) h (q(ReadyList := ns))"
proof -
  have l: "linked_cells (valid_lists s) (dom (tasks s)) (cells s) q"
    using assms(1) by (simp add: linked_def)
  have "n \<in> dom (tasks s)" using linked_subset [OF l, of ReadyList] assms(2) by simp
  then show ?thesis
    using linked_pop [OF l _ assms(2)] linked_empty [OF l, of ReadyList] assms(2) by auto
qed

lemma ready_empty:
  assumes "linked s q" and "q ReadyList = []"
  shows "is_empty ReadyList s = Inr True"
  using linked_empty [of "valid_lists s" _ _ q ReadyList] assms by (simp add: linked_def is_empty_def)

lemma block_run:
  assumes "linked s q" and "q ReadyList = n # ns" and "current_task s = Some c"
    and "tasks s c = Some tc" and "n \<noteq> c"
  shows "\<exists>h tn. tasks s n = Some tn \<and>
    linked_cells (valid_lists s) (dom (tasks s)) h (q(ReadyList := ns)) \<and>
    block_task_schedule s = Inr (s\<lparr>cells := h, task_tag := Some (GeneralTag n),
      current_task := Some n,
      tasks := (tasks s)
        (c \<mapsto> tc\<lparr>tcontext := context_save (cpu s) (mem s) (tcontext tc)\<rparr>,
         n \<mapsto> tn\<lparr>status := TASK_RUNNING\<rparr>),
      cpu := fst (context_load (tcontext tn) (cpu s, mem s)),
      mem := snd (context_load (tcontext tn) (cpu s, mem s))\<rparr>)"
proof -
  obtain h tn where h: "tasks s n = Some tn"
      "list_empty (list_at ReadyList) (cells s) = Inr False"
      "list_pop (list_at ReadyList) (cells s) = Inr (Some (GeneralTag n), h)"
      "linked_cells (valid_lists s) (dom (tasks s)) h (q(ReadyList := ns))"
    using next_exists [OF assms(1,2)] by blast
  then show ?thesis
    using assms(3-5)
    by (auto simp: block_task_schedule_def context_swap_def step_simps split_beta fun_upd_twist)
qed

lemma died_run:
  assumes "linked s q" and "q ReadyList = n # ns"
  shows "\<exists>h tn. tasks s n = Some tn \<and>
    linked_cells (valid_lists s) (dom (tasks s)) h (q(ReadyList := ns)) \<and>
    died_task_schedule s = Inr (s\<lparr>cells := h, task_tag := Some (GeneralTag n),
      current_task := Some n, tasks := (tasks s)(n \<mapsto> tn\<lparr>status := TASK_RUNNING\<rparr>),
      cpu := fst (context_load (tcontext tn) (cpu s, mem s)),
      mem := snd (context_load (tcontext tn) (cpu s, mem s))\<rparr>)"
proof -
  obtain h tn where h: "tasks s n = Some tn"
      "list_empty (list_at ReadyList) (cells s) = Inr False"
      "list_pop (list_at ReadyList) (cells s) = Inr (Some (GeneralTag n), h)"
      "linked_cells (valid_lists s) (dom (tasks s)) h (q(ReadyList := ns))"
    using next_exists [OF assms] by blast
  then show ?thesis
    by (auto simp: died_task_schedule_def context_set_def step_simps split_beta)
qed

lemma linked_frame:
  "cells s' = cells s \<Longrightarrow> dom (tasks s') = dom (tasks s) \<Longrightarrow> dom (locks s') = dom (locks s) \<Longrightarrow>
   linked s' q = linked s q"
  by (simp add: linked_def valid_lists_def)

lemma task_block_ok:
  assumes "sched_ok s q" and "q ReadyList = n # ns" and c: "current_task s = Some c"
    and st: "st = TASK_BLOCKED \<or> st = TASK_WAITING \<or> st = TASK_HANGING"
  shows "\<exists>s' tc tn. task_block_switch st s = Inr s' \<and> sched_ok s' (q(ReadyList := ns)) \<and>
    current_task s' = Some n \<and> locks s' = locks s \<and> devices s' = devices s \<and> blocked s' = blocked s \<and>
    tasks s c = Some tc \<and> tasks s n = Some tn \<and>
    tasks s' = (tasks s)
      (c \<mapsto> tc\<lparr>status := st, tcontext := context_save (cpu s) (mem s) (tcontext tc)\<rparr>,
       n \<mapsto> tn\<lparr>status := TASK_RUNNING\<rparr>) \<and>
    cpu s' = fst (context_load (tcontext tn) (cpu s, mem s))"
proof -
  obtain tc where tc: "tasks s c = Some tc" "c \<notin> set (q ReadyList)" "distinct (n # ns)"
      "\<And>k. k \<in> dom (locks s) \<Longrightarrow> c \<notin> set (q (Waiters k))" "linked s q"
    by (rule sched_okE [OF assms(1)]) (use c assms(2) in \<open>auto simp: linked_def\<close>)
  let ?s1 = "s\<lparr>tasks := (tasks s)(c \<mapsto> tc\<lparr>status := st\<rparr>)\<rparr>"
  have nc: "n \<noteq> c" using tc(2) assms(2) by auto
  have l1: "linked ?s1 q" using tc(1,5) by (subst linked_frame [of _ s]) auto
  obtain h tn where run: "tasks ?s1 n = Some tn"
      "linked_cells (valid_lists ?s1) (dom (tasks ?s1)) h (q(ReadyList := ns))"
      "block_task_schedule ?s1 = Inr (?s1\<lparr>cells := h, task_tag := Some (GeneralTag n),
        current_task := Some n,
        tasks := (tasks ?s1)
          (c \<mapsto> tc\<lparr>status := st, tcontext := context_save (cpu s) (mem s) (tcontext tc)\<rparr>,
           n \<mapsto> tn\<lparr>status := TASK_RUNNING\<rparr>),
        cpu := fst (context_load (tcontext tn) (cpu s, mem s)),
        mem := snd (context_load (tcontext tn) (cpu s, mem s))\<rparr>)"
      (is "_ = Inr ?s2")
    using block_run [OF l1 assms(2), of c "tc\<lparr>status := st\<rparr>"] c nc by auto
  have "sched_ok ?s2 (q(ReadyList := ns))"
  proof (rule sched_ok_switch [OF assms(1) c])
    have "dom (tasks ?s2) = dom (tasks ?s1)" "valid_lists ?s2 = valid_lists ?s1"
      using run(1) nc tc(1) by (auto simp: valid_lists_def)
    then show "linked ?s2 (q(ReadyList := ns))" using run(2) by (simp add: linked_def)
  qed (use run(1) tc nc assms(2) in \<open>auto simp: has_status_def\<close>)
  moreover have "task_block_switch st s = Inr ?s2"
    using st c tc(1) run(3) by (auto simp: task_block_switch_def step_simps)
  ultimately show ?thesis using tc(1) run(1) nc by (intro exI [of _ ?s2] exI [of _ tc] exI [of _ tn]) auto
qed

lemma task_block_idle:
  assumes "sched_ok s q" and "q ReadyList = []"
    and "st = TASK_BLOCKED \<or> st = TASK_WAITING \<or> st = TASK_HANGING"
  shows "task_block_switch st s = Inl Idle_Spin"
proof -
  obtain c tc where c: "current_task s = Some c" "tasks s c = Some tc" "linked s q"
    by (rule sched_okE [OF assms(1)]) (auto simp: linked_def)
  let ?s1 = "s\<lparr>tasks := (tasks s)(c \<mapsto> tc\<lparr>status := st\<rparr>)\<rparr>"
  have "linked ?s1 q" using c by (subst linked_frame [of _ s]) auto
  then have "block_task_schedule ?s1 = Inl Idle_Spin"
    using ready_empty [where q = q] assms(2) by (simp add: block_task_schedule_def)
  then show ?thesis using assms(3) c by (auto simp: task_block_switch_def step_simps)
qed

section \<open>Waking a task\<close>

lemma task_unblock_run:
  assumes "linked s q" and "tasks s t = Some ts"
    and "status ts = TASK_BLOCKED \<or> status ts = TASK_WAITING \<or> status ts = TASK_HANGING"
    and "off_lists (valid_lists s) q ReadyList t"
  shows "\<exists>h. linked_cells (valid_lists s) (dom (tasks s)) h (q(ReadyList := t # q ReadyList)) \<and>
    task_unblock t s = Inr (s\<lparr>cells := h, tasks := (tasks s)(t \<mapsto> ts\<lparr>status := TASK_READY\<rparr>),
      blocked := False\<rparr>)"
proof -
  have l: "linked_cells (valid_lists s) (dom (tasks s)) (cells s) q"
    using assms(1) by (simp add: linked_def)
  have "t \<in> dom (tasks s)" using assms(2) by blast
  from linked_push [OF l _ this assms(4)] obtain h where
      "list_push (list_at ReadyList) (GeneralTag t) (cells s) = Inr h"
      "linked_cells (valid_lists s) (dom (tasks s)) h (q(ReadyList := t # q ReadyList))"
    by auto
  moreover have "elem_find (list_at ReadyList) (GeneralTag t) (cells s) = Inr False"
    using linked_find [OF l, of ReadyList t] assms(4) by (simp add: off_lists_ready)
  ultimately show ?thesis
    using assms(2,3) by (auto simp: task_unblock_def step_simps)
qed

lemma task_unblock_ok:
  assumes "sched_ok s q" and "tasks s t = Some ts" and "current_task s \<noteq> Some t"
    and "status ts = TASK_BLOCKED \<or> status ts = TASK_WAITING \<or> status ts = TASK_HANGING"
    and "off_lists (valid_lists s) q ReadyList t"
  shows "\<exists>u. task_unblock t s = Inr u \<and> sched_ok u (q(ReadyList := t # q ReadyList)) \<and>
    has_status u t TASK_READY \<and> \<not> blocked u \<and> locks u = locks s \<and> devices u = devices s \<and>
    current_task u = current_task s"
proof -
  have "linked s q" using assms(1) by (simp add: sched_ok_def)
  from task_unblock_run [OF this assms(2,4,5)] obtain h where h:
      "linked_cells (valid_lists s) (dom (tasks s)) h (q(ReadyList := t # q ReadyList))"
      "task_unblock t s = Inr (s\<lparr>cells := h, tasks := (tasks s)(t \<mapsto> ts\<lparr>status := TASK_READY\<rparr>),
        blocked := False\<rparr>)"
    by blast
  have "t \<notin> set (q (Waiters k))" if "k \<in> dom (locks s)" for k
    using assms(5) that by (simp add: off_lists_ready)
  then have "sched_ok (s\<lparr>cells := h, tasks := (tasks s)(t \<mapsto> ts\<lparr>status := TASK_READY\<rparr>),
      blocked := False\<rparr>) (q(ReadyList := t # q ReadyList))"
    using assms h(1) by (auto simp: sched_ok_def linked_def valid_lists_def has_status_def
        off_lists_ready insert_absorb domI) (auto simp: off_lists_def)
  then show ?thesis using h(2) by (auto simp: has_status_def)
qed

lemma task_unblock_refuses:
  assumes "tasks s t = Some ts" and "status ts \<in> {TASK_RUNNING, TASK_READY, TASK_DIED}"
  shows "task_unblock t s = Inl Assert_Spin"
  using assms by (auto simp: task_unblock_def step_simps)

end
