(* ===== verification/Sync.thy ===== *)
theory Sync
  imports Sched
begin

text \<open>
  \<open>task/sync.c\<close>: binary semaphores and re-entrant locks over them. A lock is named by its
  \<open>lock_id\<close>, which also names its semaphore and the wait list of the semaphore.
\<close>

section \<open>The functions\<close>

definition sema_init :: "lock_id \<Rightarrow> 8 word \<Rightarrow> sys \<Rightarrow> sys result" where
  "sema_init k v s =
     andthen (upd_lock k (\<lambda>l. l\<lparr>sema := \<lparr>sema_value = v\<rparr>\<rparr>) s) (\<lambda>s.
     on_cells (list_init (list_at (Waiters k))) s)"

text \<open>
  The memory of a lock is there before \<open>lock_init\<close> runs, with contents nobody reads: the
  entry of the map is made when its fields are written.
\<close>

definition lock_init :: "lock_id \<Rightarrow> sys \<Rightarrow> sys result" where
  "lock_init k s =
     (let s = s\<lparr>locks := (locks s)(k \<mapsto>
            \<lparr>holder = None, sema = \<lparr>sema_value = 0\<rparr>, holder_repeat_nr = 0\<rparr>)\<rparr> in
      sema_init k 1 s)"

text \<open>
  One turn of the loop of \<open>sema_down\<close>, up to the switch to another task: the assertion, the
  second test with its \<open>PANIC\<close>, \<open>list_append\<close>, and \<open>task_block\<close>.
\<close>

definition sema_down_assert :: "lock_id \<Rightarrow> sys \<Rightarrow> sys result" where
  "sema_down_assert k s =
     andthen (current s) (\<lambda>c.
     andthen (in_list (Waiters k) (GeneralTag c) s) (\<lambda>b.
     assert_c (\<not> b) (Inr s)))"

definition sema_down_panic :: "lock_id \<Rightarrow> sys \<Rightarrow> sys result" where
  "sema_down_panic k s =
     andthen (current s) (\<lambda>c.
     andthen (in_list (Waiters k) (GeneralTag c) s) (\<lambda>b.
     if b then Inl Panic_Spin else Inr s))"

definition sema_down_queue :: "lock_id \<Rightarrow> sys \<Rightarrow> sys result" where
  "sema_down_queue k s =
     andthen (current s) (\<lambda>c. append_cell (Waiters k) (GeneralTag c) s)"

definition sema_down_wait :: "lock_id \<Rightarrow> sys \<Rightarrow> sys result" where
  "sema_down_wait k s =
     andthen (sema_down_assert k s) (\<lambda>s.
     andthen (sema_down_panic k s) (\<lambda>s.
     andthen (sema_down_queue k s) (\<lambda>s.
     task_block_switch TASK_BLOCKED s)))"

lemmas wait_defs = sema_down_wait_def sema_down_assert_def sema_down_panic_def sema_down_queue_def

text \<open>What follows the loop: the decrement, the assertion, and the end.\<close>

definition sema_down_lower :: "lock_id \<Rightarrow> sys \<Rightarrow> sys result" where
  "sema_down_lower k = upd_lock k (\<lambda>l. l\<lparr>sema := \<lparr>sema_value = sema_value (sema l) - 1\<rparr>\<rparr>)"

definition sema_down_check :: "lock_id \<Rightarrow> sys \<Rightarrow> sys result" where
  "sema_down_check k s =
     andthen (lock_at s k) (\<lambda>l.
     assert_c (sema_value (sema l) = 0) (Inr s))"

definition sema_down_take :: "lock_id \<Rightarrow> sys \<Rightarrow> sys result" where
  "sema_down_take k s =
     andthen (sema_down_lower k s) (\<lambda>s.
     andthen (sema_down_check k s) (\<lambda>s.
     Inr (interrupt_enable s)))"

lemmas take_defs = sema_down_take_def sema_down_lower_def sema_down_check_def

primcorec sema_down_loop :: "lock_id \<Rightarrow> sys \<Rightarrow> (sys, unit) run" where
  "sema_down_loop k s =
     (case lock_at s k of
        Inl e \<Rightarrow> Fail e
      | Inr l \<Rightarrow>
          (if sema_value (sema l) = 0
           then (case sema_down_wait k s of
                   Inl e \<Rightarrow> Fail e
                 | Inr t \<Rightarrow> Switch t (\<lambda>u. sema_down_loop k u))
           else (case sema_down_take k s of
                   Inl e \<Rightarrow> Fail e
                 | Inr t \<Rightarrow> Done () t)))"

definition sema_down :: "lock_id \<Rightarrow> sys \<Rightarrow> (sys, unit) run" where
  "sema_down k s = sema_down_loop k (interrupt_disable s)"

text \<open>
  \<open>sema_up\<close> in three parts: up to the wake-up, the increment, and the end. \<open>task_unblock\<close>
  unmasks the alarm, so a task that woke another can be preempted between the parts.
\<close>

definition sema_up_wake :: "lock_id \<Rightarrow> sys \<Rightarrow> sys result" where
  "sema_up_wake k s =
     (let s = interrupt_disable s in
      andthen (lock_at s k) (\<lambda>l.
      assert_c (sema_value (sema l) = 0) (
      andthen (is_empty (Waiters k) s) (\<lambda>empty.
      if \<not> empty then
        andthen (pop_cell (Waiters k) s) (\<lambda>(e, s).
        andthen (elem2entry_general_tag e) (\<lambda>thread_blocked.
        task_unblock thread_blocked s))
      else Inr s))))"

definition sema_up_raise :: "lock_id \<Rightarrow> sys \<Rightarrow> sys result" where
  "sema_up_raise k = upd_lock k (\<lambda>l. l\<lparr>sema := \<lparr>sema_value = sema_value (sema l) + 1\<rparr>\<rparr>)"

definition sema_up_check :: "lock_id \<Rightarrow> sys \<Rightarrow> sys result" where
  "sema_up_check k s =
     andthen (lock_at s k) (\<lambda>l.
     assert_c (sema_value (sema l) = 1) (Inr s))"

definition sema_up_done :: "lock_id \<Rightarrow> sys \<Rightarrow> sys result" where
  "sema_up_done k s = andthen (sema_up_check k s) (\<lambda>s. Inr (interrupt_enable s))"

definition sema_up :: "lock_id \<Rightarrow> sys \<Rightarrow> sys result" where
  "sema_up k s =
     andthen (sema_up_wake k s) (\<lambda>s.
     andthen (sema_up_raise k s) (\<lambda>s.
     sema_up_done k s))"

text \<open>\<open>lock_acquire\<close>, with the three statements that follow \<open>sema_down\<close>, and the \<open>else\<close> branch.\<close>

definition lock_own :: "lock_id \<Rightarrow> sys \<Rightarrow> sys result" where
  "lock_own k s = upd_lock k (\<lambda>l. l\<lparr>holder := current_task s\<rparr>) s"

definition lock_unused :: "lock_id \<Rightarrow> sys \<Rightarrow> sys result" where
  "lock_unused k s =
     andthen (lock_at s k) (\<lambda>l.
     assert_c (holder_repeat_nr l = 0) (Inr s))"

definition lock_once :: "lock_id \<Rightarrow> sys \<Rightarrow> sys result" where
  "lock_once k = upd_lock k (\<lambda>l. l\<lparr>holder_repeat_nr := 1\<rparr>)"

definition lock_taken :: "lock_id \<Rightarrow> sys \<Rightarrow> sys result" where
  "lock_taken k s =
     andthen (lock_own k s) (\<lambda>s.
     andthen (lock_unused k s) (\<lambda>s.
     lock_once k s))"

lemmas taken_defs = lock_taken_def lock_own_def lock_unused_def lock_once_def

definition lock_again :: "lock_id \<Rightarrow> sys \<Rightarrow> sys result" where
  "lock_again k = upd_lock k (\<lambda>l. l\<lparr>holder_repeat_nr := holder_repeat_nr l + 1\<rparr>)"

definition lock_acquire :: "lock_id \<Rightarrow> sys \<Rightarrow> (sys, unit) run" where
  "lock_acquire k s =
     (case lock_at s k of
        Inl e \<Rightarrow> Fail e
      | Inr l \<Rightarrow>
          (if holder l \<noteq> current_task s
           then bind_run (sema_down k s) (\<lambda>_ t. lift_run (lock_taken k t))
           else lift_run (lock_again k s)))"

text \<open>\<open>lock_release\<close>: one acquisition less, and the two stores before \<open>sema_up\<close>.\<close>

definition lock_less :: "lock_id \<Rightarrow> sys \<Rightarrow> sys result" where
  "lock_less k = upd_lock k (\<lambda>l. l\<lparr>holder_repeat_nr := holder_repeat_nr l - 1\<rparr>)"

definition lock_clear :: "lock_id \<Rightarrow> sys \<Rightarrow> sys result" where
  "lock_clear k = upd_lock k (\<lambda>l. l\<lparr>holder := None\<rparr>)"

definition lock_zero :: "lock_id \<Rightarrow> sys \<Rightarrow> sys result" where
  "lock_zero k = upd_lock k (\<lambda>l. l\<lparr>holder_repeat_nr := 0\<rparr>)"

definition lock_drop :: "lock_id \<Rightarrow> sys \<Rightarrow> sys result" where
  "lock_drop k s = andthen (lock_clear k s) (\<lambda>s. lock_zero k s)"

lemmas drop_defs = lock_drop_def lock_clear_def lock_zero_def

definition lock_release :: "lock_id \<Rightarrow> sys \<Rightarrow> sys result" where
  "lock_release k s =
     andthen (lock_at s k) (\<lambda>l.
     assert_c (holder l = current_task s) (
     if holder_repeat_nr l > 1
     then lock_less k s
     else assert_c (holder_repeat_nr l = 1) (
       andthen (lock_drop k s) (\<lambda>s.
       sema_up k s))))"

section \<open>Semaphores\<close>

lemma sema_down_take_run:
  assumes "locks s k = Some l" and "sema_value (sema l) = 1"
  shows "sema_down_take k s = Inr (s\<lparr>locks := (locks s)(k \<mapsto> l\<lparr>sema := \<lparr>sema_value = 0\<rparr>\<rparr>),
    blocked := False\<rparr>)"
  using assms by (simp add: take_defs step_simps)

lemma sema_down_loop_free:
  assumes "locks s k = Some l" and "sema_value (sema l) = 1"
  shows "sema_down_loop k s = Done () (s\<lparr>locks := (locks s)(k \<mapsto> l\<lparr>sema := \<lparr>sema_value = 0\<rparr>\<rparr>),
    blocked := False\<rparr>)"
  using assms by (subst sema_down_loop.code) (simp add: sema_down_take_run lock_at_def)

lemma sema_down_wait_ok:
  assumes "sched_ok s q" and "k \<in> dom (locks s)" and ready: "q ReadyList = n # ns"
    and c: "current_task s = Some c"
  shows "\<exists>s'. sema_down_wait k s = Inr s' \<and>
    sched_ok s' (q(ReadyList := ns, Waiters k := q (Waiters k) @ [c])) \<and>
    current_task s' = Some n \<and> locks s' = locks s \<and> devices s' = devices s \<and> blocked s' = blocked s \<and>
    has_status s' c TASK_BLOCKED \<and> dom (tasks s') = dom (tasks s)"
proof -
  let ?q1 = "q(Waiters k := q (Waiters k) @ [c])"
  obtain tc where tc: "tasks s c = Some tc" "c \<notin> set (q ReadyList)" "distinct (n # ns)"
      "linked_cells (valid_lists s) (dom (tasks s)) (cells s) q"
      "\<And>j. j \<in> dom (locks s) \<Longrightarrow> c \<notin> set (q (Waiters j))"
      "off_lists (valid_lists s) q ReadyList c"
    by (rule sched_okE [OF assms(1)]) (use c ready in auto)
  have w: "Waiters k \<in> valid_lists s" using assms(2) by simp
  have nc: "n \<noteq> c" using tc(2) ready by auto
  have fnd: "elem_find (list_at (Waiters k)) (GeneralTag c) (cells s) = Inr False"
    using linked_find [OF tc(4) w, of c] tc(5) [OF assms(2)] by simp
  have "off_lists (valid_lists s) q (Waiters k) c" using tc(6) by (simp add: off_lists_def)
  moreover have "c \<in> dom (tasks s)" using tc(1) by blast
  ultimately obtain h1 where h1:
      "list_append (list_at (Waiters k)) (GeneralTag c) (cells s) = Inr h1"
      "linked_cells (valid_lists s) (dom (tasks s)) h1 ?q1"
    using linked_append [OF tc(4) w] by auto
  let ?s1 = "s\<lparr>cells := h1, tasks := (tasks s)(c \<mapsto> tc\<lparr>status := TASK_BLOCKED\<rparr>)\<rparr>"
  have "linked ?s1 ?q1"
    using h1(2) tc(1) by (simp add: linked_def valid_lists_def insert_absorb domI)
  then obtain h tn where run: "tasks ?s1 n = Some tn"
      "linked_cells (valid_lists ?s1) (dom (tasks ?s1)) h (?q1(ReadyList := ns))"
      "block_task_schedule ?s1 = Inr (?s1\<lparr>cells := h, task_tag := Some (GeneralTag n),
        current_task := Some n,
        tasks := (tasks ?s1)
          (c \<mapsto> tc\<lparr>status := TASK_BLOCKED, tcontext := context_save (cpu s) (mem s) (tcontext tc)\<rparr>,
           n \<mapsto> tn\<lparr>status := TASK_RUNNING\<rparr>),
        cpu := fst (context_load (tcontext tn) (cpu s, mem s)),
        mem := snd (context_load (tcontext tn) (cpu s, mem s))\<rparr>)"
      (is "_ = Inr ?s2")
    using block_run [of ?s1 ?q1 n ns c "tc\<lparr>status := TASK_BLOCKED\<rparr>"] ready c nc by auto
  have q': "?q1(ReadyList := ns) = q(ReadyList := ns, Waiters k := q (Waiters k) @ [c])"
    by (rule fun_upd_twist) simp
  have dom: "dom (tasks ?s2) = dom (tasks ?s1)" "valid_lists ?s2 = valid_lists ?s1"
    using run(1) nc tc(1) by (auto simp: valid_lists_def)
  have "sched_ok ?s2 (?q1(ReadyList := ns))"
  proof (rule sched_ok_switch [OF assms(1) c])
    show "linked ?s2 (?q1(ReadyList := ns))" using run(2) dom by (simp add: linked_def)
  qed (use run(1) tc nc ready in \<open>auto simp: has_status_def\<close>)
  moreover have "sema_down_wait k s = Inr ?s2"
    using c tc(1) fnd h1(1) run(3)
    by (simp add: wait_defs task_block_switch_def step_simps)
  ultimately show ?thesis
    unfolding q' using dom(1) nc tc(1) by (intro exI [of _ ?s2]) (auto simp: has_status_def)
qed

lemma sema_down_wait_idle:
  assumes "sched_ok s q" and "k \<in> dom (locks s)" and "q ReadyList = []"
  shows "sema_down_wait k s = Inl Idle_Spin"
proof -
  obtain c tc where tc: "current_task s = Some c" "tasks s c = Some tc"
      "linked_cells (valid_lists s) (dom (tasks s)) (cells s) q"
      "\<And>j. j \<in> dom (locks s) \<Longrightarrow> c \<notin> set (q (Waiters j))"
      "off_lists (valid_lists s) q ReadyList c"
    by (rule sched_okE [OF assms(1)]) auto
  have w: "Waiters k \<in> valid_lists s" using assms(2) by simp
  have fnd: "elem_find (list_at (Waiters k)) (GeneralTag c) (cells s) = Inr False"
    using linked_find [OF tc(3) w, of c] tc(4) [OF assms(2)] by simp
  have "off_lists (valid_lists s) q (Waiters k) c" using tc(5) by (simp add: off_lists_def)
  then obtain h1 where h1:
      "list_append (list_at (Waiters k)) (GeneralTag c) (cells s) = Inr h1"
      "linked_cells (valid_lists s) (dom (tasks s)) h1 (q(Waiters k := q (Waiters k) @ [c]))"
    using linked_append [OF tc(3) w] tc(2) by auto
  let ?s1 = "s\<lparr>cells := h1, tasks := (tasks s)(c \<mapsto> tc\<lparr>status := TASK_BLOCKED\<rparr>)\<rparr>"
  have "linked ?s1 (q(Waiters k := q (Waiters k) @ [c]))"
    using h1(2) tc(2) by (simp add: linked_def valid_lists_def insert_absorb domI)
  then have "block_task_schedule ?s1 = Inl Idle_Spin"
    using ready_empty [of ?s1] assms(3) by (simp add: block_task_schedule_def)
  then show ?thesis
    using tc(1,2) fnd h1(1) by (simp add: wait_defs task_block_switch_def step_simps)
qed

lemma sched_ok_frame:
  "cells s' = cells s \<Longrightarrow> tasks s' = tasks s \<Longrightarrow> current_task s' = current_task s \<Longrightarrow>
   dom (locks s') = dom (locks s) \<Longrightarrow> sched_ok s' q = sched_ok s q"
  by (simp add: sched_ok_def linked_def valid_lists_def has_status_def off_lists_def)

lemma sema_up_wake_none:
  assumes "sched_ok s q" and "locks s k = Some l" and "sema_value (sema l) = 0"
    and "q (Waiters k) = []"
  shows "sema_up_wake k s = Inr (s\<lparr>blocked := True\<rparr>)"
proof -
  have "list_empty (list_at (Waiters k)) (cells s) = Inr True"
    using linked_empty [of "valid_lists s" "dom (tasks s)" "cells s" q "Waiters k"] assms(1,2,4)
    by (auto simp: sched_ok_def linked_def)
  then show ?thesis using assms(2,3) by (simp add: sema_up_wake_def step_simps)
qed

lemma sema_up_wake_one:
  assumes "sched_ok s q" and "locks s k = Some l" and "sema_value (sema l) = 0"
    and w: "q (Waiters k) = w # ws"
  shows "\<exists>h tw. tasks s w = Some tw \<and> sema_up_wake k s = Inr (s\<lparr>cells := h,
      tasks := (tasks s)(w \<mapsto> tw\<lparr>status := TASK_READY\<rparr>), blocked := False\<rparr>) \<and>
    sched_ok (s\<lparr>cells := h, tasks := (tasks s)(w \<mapsto> tw\<lparr>status := TASK_READY\<rparr>), blocked := False\<rparr>)
      (q(Waiters k := ws, ReadyList := w # q ReadyList))"
proof -
  have v: "Waiters k \<in> valid_lists s" and kd: "k \<in> dom (locks s)" using assms(2) by auto
  obtain c where c: "current_task s = Some c" "c \<in> dom (tasks s)"
      "off_lists (valid_lists s) q ReadyList c"
      and l: "linked_cells (valid_lists s) (dom (tasks s)) (cells s) q"
    using assms(1) by (auto simp: sched_ok_def linked_def)
  have "has_status s w TASK_BLOCKED" using assms(1) w kd by (auto simp: sched_ok_def)
  then obtain tw where tw: "tasks s w = Some tw" "status tw = TASK_BLOCKED"
    by (auto simp: has_status_def)
  have dw: "distinct (w # ws)" using linked_distinct [OF l v] w by simp
  have off: "w \<notin> set (q ReadyList)" "\<And>j. j \<in> dom (locks s) \<Longrightarrow> j \<noteq> k \<Longrightarrow> w \<notin> set (q (Waiters j))"
    using linked_off [OF l v, of w ReadyList] linked_off [OF l v, of w "Waiters _"] w by auto
  from linked_pop_push [OF l v, of ReadyList w ws] w obtain h1 h where h:
      "list_pop (list_at (Waiters k)) (cells s) = Inr (Some (GeneralTag w), h1)"
      "elem_find (list_at ReadyList) (GeneralTag w) h1 = Inr False"
      "list_push (list_at ReadyList) (GeneralTag w) h1 = Inr h"
      "linked_cells (valid_lists s) (dom (tasks s)) h (q(Waiters k := ws, ReadyList := w # q ReadyList))"
    by auto
  have e: "list_empty (list_at (Waiters k)) (cells s) = Inr False"
    using linked_empty [OF l v] w by simp
  let ?s' = "s\<lparr>cells := h, tasks := (tasks s)(w \<mapsto> tw\<lparr>status := TASK_READY\<rparr>), blocked := False\<rparr>"
  have run: "sema_up_wake k s = Inr ?s'"
    using assms(2,3) e h(1-3) tw by (simp add: sema_up_wake_def task_unblock_def step_simps)
  have "linked ?s' (q(Waiters k := ws, ReadyList := w # q ReadyList))"
    using h(4) tw(1) by (simp add: linked_def valid_lists_def insert_absorb domI)
  moreover have "c \<notin> set (q (Waiters k))" "\<forall>t\<in>set (q (Waiters k)). has_status s t TASK_BLOCKED"
    using c(3) assms(1) kd by (simp_all add: off_lists_ready sched_ok_def)
  then have "c \<noteq> w" "c \<notin> set ws" "\<forall>t\<in>set ws. has_status s t TASK_BLOCKED" using w by simp_all
  ultimately have "sched_ok ?s' (q(Waiters k := ws, ReadyList := w # q ReadyList))"
    using assms(1) c w dw off tw(1)
    by (auto simp: sched_ok_def has_status_def off_lists_ready)
  with tw(1) run show ?thesis by blast
qed

section \<open>Locks\<close>

lemma lock_acquire_free:
  assumes "locks s k = Some l" and "sema_value (sema l) = 1" and "holder l = None"
    and "holder_repeat_nr l = 0" and "current_task s = Some c"
  shows "lock_acquire k s = Done () (s\<lparr>locks := (locks s)(k \<mapsto>
      \<lparr>holder = Some c, sema = \<lparr>sema_value = 0\<rparr>, holder_repeat_nr = 1\<rparr>), blocked := False\<rparr>)"
proof -
  have l: "l = \<lparr>holder = None, sema = \<lparr>sema_value = 1\<rparr>, holder_repeat_nr = 0\<rparr>"
    using assms(2-4) by simp
  have d: "locks (interrupt_disable s) k = Some l" using assms(1) by (simp add: interrupt_disable_def)
  show ?thesis
    using sema_down_loop_free [OF d assms(2)] assms
    by (simp add: lock_acquire_def lock_again_def sema_down_def taken_defs step_simps l)
qed

lemma lock_acquire_again:
  assumes "locks s k = Some l" and "holder l = current_task s"
  shows "lock_acquire k s = Done () (s\<lparr>locks :=
    (locks s)(k \<mapsto> l\<lparr>holder_repeat_nr := holder_repeat_nr l + 1\<rparr>)\<rparr>)"
  using assms by (simp add: lock_acquire_def lock_again_def step_simps)

text \<open>The rest of \<open>lock_acquire\<close> when the task waits inside \<open>sema_down\<close>.\<close>

definition acquire_rest :: "lock_id \<Rightarrow> sys \<Rightarrow> (sys, unit) run" where
  "acquire_rest k s = bind_run (sema_down_loop k s) (\<lambda>_ t. lift_run (lock_taken k t))"

lemma acquire_rest_free:
  assumes "locks s k = Some l" and "sema_value (sema l) = 1" and "holder l = None"
    and "holder_repeat_nr l = 0" and "current_task s = Some c"
  shows "acquire_rest k s = Done () (s\<lparr>locks := (locks s)(k \<mapsto>
      \<lparr>holder = Some c, sema = \<lparr>sema_value = 0\<rparr>, holder_repeat_nr = 1\<rparr>), blocked := False\<rparr>)"
proof -
  have l: "l = \<lparr>holder = None, sema = \<lparr>sema_value = 1\<rparr>, holder_repeat_nr = 0\<rparr>"
    using assms(2-4) by simp
  show ?thesis
    using sema_down_loop_free [OF assms(1,2)] assms
    by (simp add: acquire_rest_def taken_defs step_simps l)
qed

lemma acquire_rest_blocks:
  assumes "sched_ok s q" and l: "locks s k = Some l" and "sema_value (sema l) = 0"
    and "q ReadyList = n # ns" and c: "current_task s = Some c"
  shows "\<exists>s'. acquire_rest k s = Switch s' (acquire_rest k) \<and>
    sched_ok s' (q(ReadyList := ns, Waiters k := q (Waiters k) @ [c])) \<and>
    current_task s' = Some n \<and> locks s' = locks s \<and> devices s' = devices s \<and> blocked s' = blocked s \<and>
    has_status s' c TASK_BLOCKED \<and> dom (tasks s') = dom (tasks s)"
proof -
  have "k \<in> dom (locks s)" using l by blast
  from sema_down_wait_ok [OF assms(1) this assms(4) c] obtain s' where s':
      "sema_down_wait k s = Inr s'"
      "sched_ok s' (q(ReadyList := ns, Waiters k := q (Waiters k) @ [c])) \<and>
       current_task s' = Some n \<and> locks s' = locks s \<and> devices s' = devices s \<and> blocked s' = blocked s \<and>
       has_status s' c TASK_BLOCKED \<and> dom (tasks s') = dom (tasks s)"
    by blast
  have "acquire_rest k s = Switch s' (acquire_rest k)"
    using s'(1) l assms(3) unfolding acquire_rest_def
    by (subst sema_down_loop.code) (simp add: lock_at_def acquire_rest_def fun_eq_iff)
  with s'(2) show ?thesis by blast
qed

lemma acquire_rest_idle:
  assumes "sched_ok s q" and l: "locks s k = Some l" and "sema_value (sema l) = 0"
    and "q ReadyList = []"
  shows "acquire_rest k s = Fail Idle_Spin"
proof -
  have "k \<in> dom (locks s)" using l by blast
  then have "sema_down_wait k s = Inl Idle_Spin"
    using sema_down_wait_idle [OF assms(1) _ assms(4)] by blast
  then show ?thesis
    using l assms(3) unfolding acquire_rest_def
    by (subst sema_down_loop.code) (simp add: lock_at_def)
qed

lemma lock_acquire_other:
  assumes "locks s k = Some l" and "holder l \<noteq> current_task s"
  shows "lock_acquire k s = acquire_rest k (interrupt_disable s)"
  using assms by (simp add: lock_acquire_def lock_again_def acquire_rest_def sema_down_def step_simps)

text \<open>
  Between calls a lock is free, or held some number of times by a task; the wait list is
  moved on by a release.
\<close>

definition free_lock :: lock where
  "free_lock = \<lparr>holder = None, sema = \<lparr>sema_value = 1\<rparr>, holder_repeat_nr = 0\<rparr>"

definition held_lock :: "nat \<Rightarrow> 32 word \<Rightarrow> lock" where
  "held_lock c n = \<lparr>holder = Some c, sema = \<lparr>sema_value = 0\<rparr>, holder_repeat_nr = n\<rparr>"

definition lock_ok :: "lock \<Rightarrow> bool" where
  "lock_ok l \<longleftrightarrow> l = free_lock \<or> (\<exists>c n. n \<noteq> 0 \<and> l = held_lock c n)"

lemma lock_simps [simp]:
  "holder free_lock = None" "sema_value (sema free_lock) = 1" "holder_repeat_nr free_lock = 0"
  "holder (held_lock c n) = Some c" "sema_value (sema (held_lock c n)) = 0"
  "holder_repeat_nr (held_lock c n) = n" "held_lock c n \<noteq> free_lock" "free_lock \<noteq> held_lock c n"
  "held_lock c n = held_lock d m \<longleftrightarrow> c = d \<and> n = m"
  by (auto simp: free_lock_def held_lock_def)

definition wake_queues :: "lock_id \<Rightarrow> (list_id \<Rightarrow> nat list) \<Rightarrow> list_id \<Rightarrow> nat list" where
  "wake_queues k q = (case q (Waiters k) of [] \<Rightarrow> q
     | w # ws \<Rightarrow> q(Waiters k := ws, ReadyList := w # q ReadyList))"

lemma acquire_free_lock:
  assumes "locks s k = Some free_lock" and "current_task s = Some c"
  shows "lock_acquire k s =
    Done () (s\<lparr>locks := (locks s)(k \<mapsto> held_lock c 1), blocked := False\<rparr>)"
    and "acquire_rest k s =
    Done () (s\<lparr>locks := (locks s)(k \<mapsto> held_lock c 1), blocked := False\<rparr>)"
  using assms by (simp_all add: lock_acquire_free acquire_rest_free held_lock_def)

lemma acquire_held_lock:
  assumes "locks s k = Some (held_lock c n)" and "current_task s = Some c"
  shows "lock_acquire k s = Done () (s\<lparr>locks := (locks s)(k \<mapsto> held_lock c (n + 1))\<rparr>)"
  using assms by (simp add: lock_acquire_again held_lock_def)

lemma release_nested:
  assumes "locks s k = Some (held_lock c n)" and "current_task s = Some c" and "1 < n"
  shows "lock_release k s = Inr (s\<lparr>locks := (locks s)(k \<mapsto> held_lock c (n - 1))\<rparr>)"
  using assms by (simp add: lock_release_def lock_less_def step_simps held_lock_def)

text \<open>A lock between \<open>sema_down\<close> and the assignment of its holder, or in a release.\<close>

definition taking_lock :: lock where
  "taking_lock = \<lparr>holder = None, sema = \<lparr>sema_value = 0\<rparr>, holder_repeat_nr = 0\<rparr>"

lemma taking_simps [simp]:
  "holder taking_lock = None" "sema_value (sema taking_lock) = 0" "holder_repeat_nr taking_lock = 0"
  "taking_lock \<noteq> free_lock" "free_lock \<noteq> taking_lock" "taking_lock \<noteq> held_lock c n"
  "held_lock c n \<noteq> taking_lock"
  by (auto simp: taking_lock_def free_lock_def held_lock_def)

lemma lock_drop_run:
  "locks s k = Some (held_lock c n) \<Longrightarrow> lock_drop k s = Inr (s\<lparr>locks := (locks s)(k \<mapsto> taking_lock)\<rparr>)"
  by (simp add: drop_defs step_simps held_lock_def taking_lock_def)

lemma lock_taken_run:
  "locks s k = Some taking_lock \<Longrightarrow> current_task s = Some c \<Longrightarrow>
   lock_taken k s = Inr (s\<lparr>locks := (locks s)(k \<mapsto> held_lock c 1)\<rparr>)"
  by (simp add: taken_defs step_simps held_lock_def taking_lock_def)

lemma release_last_drop:
  "locks s k = Some (held_lock c 1) \<Longrightarrow> current_task s = Some c \<Longrightarrow>
   lock_release k s = andthen (lock_drop k s) (sema_up k)"
  by (simp add: lock_release_def step_simps)

lemma sema_up_wake_run:
  assumes ok: "sched_ok s q" and l: "locks s k = Some taking_lock"
  shows "\<exists>h ts. sema_up_wake k s = Inr (s\<lparr>cells := h, tasks := ts, blocked := (q (Waiters k) = [])\<rparr>) \<and>
    sched_ok (s\<lparr>cells := h, tasks := ts, blocked := (q (Waiters k) = [])\<rparr>) (wake_queues k q) \<and>
    dom ts = dom (tasks s) \<and> (\<forall>t. t \<notin> set (q (Waiters k)) \<longrightarrow> ts t = tasks s t)"
proof (cases "q (Waiters k)")
  case Nil
  have "sched_ok (s\<lparr>blocked := True\<rparr>) q" using ok by (subst sched_ok_frame [of _ s]) auto
  then show ?thesis
    using sema_up_wake_none [OF ok l _ Nil]
    by (intro exI [of _ "cells s"] exI [of _ "tasks s"]) (simp add: wake_queues_def Nil)
next
  case (Cons w ws)
  obtain h tw where "tasks s w = Some tw" "sema_up_wake k s = Inr (s\<lparr>cells := h,
      tasks := (tasks s)(w \<mapsto> tw\<lparr>status := TASK_READY\<rparr>), blocked := False\<rparr>)"
    "sched_ok (s\<lparr>cells := h, tasks := (tasks s)(w \<mapsto> tw\<lparr>status := TASK_READY\<rparr>), blocked := False\<rparr>)
      (q(Waiters k := ws, ReadyList := w # q ReadyList))"
    using sema_up_wake_one [OF ok l _ Cons] by auto
  then show ?thesis
    by (intro exI [of _ h] exI [of _ "(tasks s)(w \<mapsto> tw\<lparr>status := TASK_READY\<rparr>)"])
      (auto simp: wake_queues_def Cons)
qed

lemma sema_up_raise_run:
  "locks s k = Some taking_lock \<Longrightarrow> sema_up_raise k s = Inr (s\<lparr>locks := (locks s)(k \<mapsto> free_lock)\<rparr>)"
  by (simp add: sema_up_raise_def step_simps free_lock_def taking_lock_def)

lemma sema_up_done_run:
  "locks s k = Some l \<Longrightarrow> sema_up_done k s =
     (if sema_value (sema l) = 1 then Inr (s\<lparr>blocked := False\<rparr>) else Inl Assert_Spin)"
  by (simp add: sema_up_done_def sema_up_check_def step_simps)

lemma sema_up_run:
  assumes ok: "sched_ok s q" and l: "locks s k = Some taking_lock"
  shows "\<exists>h ts. sema_up k s = Inr (s\<lparr>cells := h, tasks := ts,
      locks := (locks s)(k \<mapsto> free_lock), blocked := False\<rparr>) \<and>
    sched_ok (s\<lparr>cells := h, tasks := ts, locks := (locks s)(k \<mapsto> free_lock), blocked := False\<rparr>)
      (wake_queues k q) \<and>
    dom ts = dom (tasks s) \<and> (\<forall>t. t \<notin> set (q (Waiters k)) \<longrightarrow> ts t = tasks s t)"
proof -
  obtain h ts where h: "sema_up_wake k s =
        Inr (s\<lparr>cells := h, tasks := ts, blocked := (q (Waiters k) = [])\<rparr>)"
      "sched_ok (s\<lparr>cells := h, tasks := ts, blocked := (q (Waiters k) = [])\<rparr>) (wake_queues k q)"
      "dom ts = dom (tasks s)" "\<forall>t. t \<notin> set (q (Waiters k)) \<longrightarrow> ts t = tasks s t"
    using sema_up_wake_run [OF assms] by blast
  let ?s2 = "s\<lparr>cells := h, tasks := ts, locks := (locks s)(k \<mapsto> free_lock), blocked := False\<rparr>"
  have "sema_up k s = Inr ?s2"
    using h(1) l by (simp add: sema_up_def sema_up_raise_run sema_up_done_run)
  moreover have "sched_ok ?s2 (wake_queues k q)"
    using h(2) l by (subst sched_ok_frame) (auto simp: insert_absorb)
  ultimately show ?thesis using h(3,4) by blast
qed

lemma release_last:
  assumes ok: "sched_ok s q" and l: "locks s k = Some (held_lock c 1)"
    and c: "current_task s = Some c"
  shows "\<exists>h ts. lock_release k s = Inr (s\<lparr>cells := h, tasks := ts,
      locks := (locks s)(k \<mapsto> free_lock), blocked := False\<rparr>) \<and>
    sched_ok (s\<lparr>cells := h, tasks := ts, locks := (locks s)(k \<mapsto> free_lock), blocked := False\<rparr>)
      (wake_queues k q) \<and>
    dom ts = dom (tasks s) \<and> (\<forall>t. t \<notin> set (q (Waiters k)) \<longrightarrow> ts t = tasks s t)"
proof -
  let ?s1 = "s\<lparr>locks := (locks s)(k \<mapsto> taking_lock)\<rparr>"
  have "sched_ok ?s1 q"
    using ok l by (subst sched_ok_frame [of _ s]) (auto simp: insert_absorb)
  from sema_up_run [OF this, of k] show ?thesis
    by (simp add: release_last_drop [OF l c] lock_drop_run [OF l])
qed

lemma release_not_holder:
  assumes "locks s k = Some l" and "holder l \<noteq> current_task s"
  shows "lock_release k s = Inl Assert_Spin"
  using assms by (simp add: lock_release_def step_simps)

text \<open>A lock that is initialised while the system runs.\<close>

definition unused_lock :: "sys \<Rightarrow> lock_id \<Rightarrow> bool" where
  "unused_lock s k \<longleftrightarrow> k \<notin> dom (locks s) \<and> HeadOf (Waiters k) \<in> dom (cells s) \<and>
     TailOf (Waiters k) \<in> dom (cells s)"

lemma lock_init_run:
  assumes ok: "sched_ok s q" and k: "unused_lock s k"
  shows "\<exists>h. lock_init k s = Inr (s\<lparr>cells := h, locks := (locks s)(k \<mapsto> free_lock)\<rparr>) \<and>
    sched_ok (s\<lparr>cells := h, locks := (locks s)(k \<mapsto> free_lock)\<rparr>) (q(Waiters k := []))"
proof -
  let ?D = "valid_lists s"
  have l: "heap_lists list_at ?D (cells s) (lview q)" "\<forall>i\<in>?D. set (q i) \<subseteq> dom (tasks s)"
      "\<forall>t\<in>dom (tasks s). \<forall>i. cell_of i t \<in> dom (cells s)"
    using ok by (simp_all add: sched_ok_def linked_def linked_cells_def)
  have i: "Waiters k \<notin> ?D" using k by (auto simp: unused_lock_def valid_lists_def)
  have free: "free_cell list_at ?D (cells s) (lview q) (HeadOf (Waiters k))"
      "free_cell list_at ?D (cells s) (lview q) (TailOf (Waiters k))"
    using k i by (auto simp: free_cell_def list_cells_def lview_def unused_lock_def)
  obtain h where h: "list_init (list_at (Waiters k)) (cells s) = Inr h"
      "heap_lists list_at (insert (Waiters k) ?D) h ((lview q)(Waiters k := []))"
      "dom h = dom (cells s)"
    using hl_init [OF l(1) i] free by auto
  have q: "(lview q)(Waiters k := []) = lview (q(Waiters k := []))"
    by (auto simp: lview_def)
  let ?s = "s\<lparr>cells := h, locks := (locks s)(k \<mapsto> free_lock)\<rparr>"
  have D: "valid_lists ?s = insert (Waiters k) ?D" by (auto simp: valid_lists_def)
  have "linked ?s (q(Waiters k := []))"
    using h l i unfolding linked_def linked_cells_def D q by auto
  then have "sched_ok ?s (q(Waiters k := []))"
    using ok k by (auto simp: sched_ok_def off_lists_ready has_status_def unused_lock_def)
  moreover have "lock_init k s = Inr ?s"
    using h(1) by (simp add: lock_init_def sema_init_def step_simps free_lock_def)
  ultimately show ?thesis by blast
qed

end
