(* ===== verification/Tid.thy ===== *)
theory Tid
  imports Sync
begin

text \<open>
  The tid pool of \<open>task/task.c\<close>: a bitmap of the used tids under a lock. What the pool
  promises is stated as an interface of its own and proved of the bitmap functions.
\<close>

section \<open>A pool of identifiers\<close>

text \<open>
  \<open>ok\<close> is the invariant of the pool, \<open>ids\<close> the identifiers it can hand out, \<open>used\<close> those
  that are taken.
\<close>

locale id_pool =
  fixes ok :: "'s \<Rightarrow> bool" and ids :: "'i set" and used :: "'s \<Rightarrow> 'i set"
    and take_id :: "'s \<Rightarrow> ('i \<times> 's) result" and give_id :: "'i \<Rightarrow> 's \<Rightarrow> 's result"
  assumes take_law: "ok s \<Longrightarrow> used s \<noteq> ids \<Longrightarrow> \<exists>i s'. take_id s = Inr (i, s') \<and> ok s' \<and>
      i \<in> ids - used s \<and> used s' = insert i (used s)"
    and give_law: "ok s \<Longrightarrow> i \<in> ids \<Longrightarrow> \<exists>s'. give_id i s = Inr s' \<and> ok s' \<and>
      used s' = used s - {i}"
    and used_law: "ok s \<Longrightarrow> used s \<subseteq> ids"

primrec take_many :: "('s \<Rightarrow> ('i \<times> 's) result) \<Rightarrow> nat \<Rightarrow> 's \<Rightarrow> ('i list \<times> 's) result" where
  "take_many f 0 s = Inr ([], s)"
| "take_many f (Suc n) s =
     andthen (f s) (\<lambda>(i, s). andthen (take_many f n s) (\<lambda>(is', s). Inr (i # is', s)))"

context id_pool begin

lemma take_give:
  assumes "ok s" and "used s \<noteq> ids"
  shows "\<exists>i s1 s2. take_id s = Inr (i, s1) \<and> i \<in> ids - used s \<and> give_id i s1 = Inr s2 \<and>
    ok s2 \<and> used s2 = used s"
proof -
  obtain i s1 where t: "take_id s = Inr (i, s1)" "ok s1" "i \<in> ids - used s"
      "used s1 = insert i (used s)"
    using take_law [OF assms] by blast
  obtain s2 where "give_id i s1 = Inr s2" "ok s2" "used s2 = used s1 - {i}"
    using give_law [OF t(2), of i] t(3) by blast
  with t show ?thesis by auto
qed

lemma take_many_distinct:
  assumes "ok s" and "finite ids" and "n \<le> card (ids - used s)"
  shows "\<exists>is s'. take_many take_id n s = Inr (is, s') \<and> length is = n \<and> distinct is \<and> ok s' \<and>
    set is \<subseteq> ids - used s \<and> used s' = used s \<union> set is"
  using assms(1,3)
proof (induction n arbitrary: s)
  case 0
  then show ?case by auto
next
  case (Suc n)
  then have "used s \<noteq> ids" by auto
  then obtain i s1 where t: "take_id s = Inr (i, s1)" "ok s1" "i \<in> ids - used s"
      "used s1 = insert i (used s)"
    using take_law [OF Suc.prems(1)] by blast
  have "ids - used s1 = (ids - used s) - {i}" using t(4) by auto
  then have "n \<le> card (ids - used s1)" using Suc.prems(2) t(3) assms(2) by simp
  from Suc.IH [OF t(2) this] obtain js s' where
    "take_many take_id n s1 = Inr (js, s')" "length js = n" "distinct js" "ok s'"
    "set js \<subseteq> ids - used s1" "used s' = used s1 \<union> set js"
    by blast
  then show ?case
    using t by (intro exI [of _ "i # js"] exI [of _ s']) auto
qed

end

section \<open>The functions\<close>

definition tid_bitmap_bits :: "8 word list" where
  "tid_bitmap_bits = replicate 125100 0"

definition tid_pool_init :: "sys \<Rightarrow> sys result" where
  "tid_pool_init s =
     (let s = s\<lparr>tid_start := 1\<rparr>;
          s = s\<lparr>tid_bitmap := \<lparr>btmp_bytes_len = 125100, bits = tid_bitmap_bits\<rparr>\<rparr> in
      andthen (bitmap_init (tid_bitmap s)) (\<lambda>b.
      lock_init TidLock (s\<lparr>tid_bitmap := b\<rparr>)))"

text \<open>What \<open>allocate_tid\<close> and \<open>release_tid\<close> do to the bitmap while they hold the lock.\<close>

definition bitmap_take :: "bitmap \<Rightarrow> (32 word \<times> bitmap) result" where
  "bitmap_take b =
     andthen (bitmap_scan b 1) (\<lambda>bit_idx.
     andthen (bitmap_set b bit_idx 1) (\<lambda>b.
     Inr (bit_idx, b)))"

definition bitmap_give :: "32 word \<Rightarrow> bitmap \<Rightarrow> bitmap result" where
  "bitmap_give bit_idx b = bitmap_set b bit_idx 0"

definition allocate_tid :: "sys \<Rightarrow> (sys, 16 word) run" where
  "allocate_tid s =
     bind_run (lock_acquire TidLock s) (\<lambda>_ s. lift_val (
     andthen (bitmap_take (tid_bitmap s)) (\<lambda>(bit_idx, b).
     andthen (lock_release TidLock (s\<lparr>tid_bitmap := b\<rparr>)) (\<lambda>s.
     Inr (ucast (bit_idx + tid_start s), s)))))"

text \<open>The \<open>int16_t\<close> tid is promoted to \<open>int\<close> and converted to \<open>uint32_t\<close>.\<close>

definition release_tid :: "16 word \<Rightarrow> sys \<Rightarrow> (sys, unit) run" where
  "release_tid td s =
     bind_run (lock_acquire TidLock s) (\<lambda>_ s. lift_run (
     let bit_idx = scast td - tid_start s in
     andthen (bitmap_give bit_idx (tid_bitmap s)) (\<lambda>b.
     lock_release TidLock (s\<lparr>tid_bitmap := b\<rparr>))))"

section \<open>The bitmap is a pool\<close>

definition pool_map :: "nat \<Rightarrow> bitmap \<Rightarrow> bool" where
  "pool_map n b \<longleftrightarrow> wf_bitmap b \<and> nbits b = n"

definition used_bits :: "bitmap \<Rightarrow> 32 word set" where
  "used_bits b = {i. bit_of b (unat i)}"

lemma first_runD:
  "first_run b k m \<Longrightarrow> run_free b s k \<Longrightarrow>
   \<exists>r. m = Inr r \<and> run_free b (unat r) k \<and> (\<forall>s<unat r. \<not> run_free b s k)"
  unfolding first_run_def by (auto split: if_splits)

lemma run_free_1: "run_free b r (Suc 0) \<longleftrightarrow> r < nbits b \<and> \<not> bit_of b r"
  by (auto simp: run_free_def)

lemma bit_of_less: "bit_of b n \<Longrightarrow> n < nbits b"
  by (auto simp: bit_of_def nbits_def)

lemma bitmap_take_spec:
  assumes "pool_map n b" and "m < n" and "\<not> bit_of b m" and "\<forall>i<m. bit_of b i"
  shows "\<exists>b'. bitmap_take b = Inr (of_nat m, b') \<and> pool_map n b' \<and>
    (\<forall>i. bit_of b' i = (i = m \<or> bit_of b i))"
proof -
  have wf: "wf_bitmap b" and n: "nbits b = n" using assms(1) by (simp_all add: pool_map_def)
  have "run_free b m (Suc 0)" using assms(2,3) n by (simp add: run_free_1)
  then obtain r where r: "bitmap_scan b 1 = Inr r" "run_free b (unat r) (Suc 0)"
      "\<forall>s<unat r. \<not> run_free b s (Suc 0)"
    using first_runD [OF bitmap_scan_first_run [OF wf, of 1]] by auto
  have "unat r = m"
    using r(2,3) assms(4) \<open>run_free b m (Suc 0)\<close> by (metis linorder_neqE_nat run_free_1)
  moreover obtain b' where b': "bitmap_set b r 1 = Inr b'" "btmp_bytes_len b' = btmp_bytes_len b"
      "nbits b' = nbits b" "\<forall>i. bit_of b' i = (if i = unat r then (1 :: 8 word) = 1 else bit_of b i)"
    using bitmap_set_spec [of r b 1] r(2) by (auto simp: run_free_1)
  moreover have "pool_map n b'"
    using b'(2,3) wf n by (simp add: pool_map_def wf_bitmap_def nbits_def)
  moreover have "r = of_nat m" using \<open>unat r = m\<close> by auto
  ultimately show ?thesis using r(1) by (auto simp: bitmap_take_def)
qed

lemma bitmap_give_spec:
  assumes "pool_map n b" and "unat i < n"
  shows "\<exists>b'. bitmap_give i b = Inr b' \<and> pool_map n b' \<and>
    (\<forall>j. bit_of b' j = (j \<noteq> unat i \<and> bit_of b j))"
proof -
  have "unat i < nbits b" using assms by (simp add: pool_map_def)
  from bitmap_set_spec [OF this, of 0] obtain b' where b': "bitmap_set b i 0 = Inr b'"
      "btmp_bytes_len b' = btmp_bytes_len b" "nbits b' = nbits b"
      "\<forall>j. bit_of b' j = (if j = unat i then (0 :: 8 word) = 1 else bit_of b j)"
    by auto
  then show ?thesis
    using assms(1) by (auto simp: bitmap_give_def pool_map_def wf_bitmap_def nbits_def)
qed

lemma first_clear:
  assumes "m < n" and "\<not> bit_of b m"
  shows "\<exists>k\<le>m. \<not> bit_of b k \<and> (\<forall>i<k. bit_of b i)"
  using assms(2) exists_least_iff [of "\<lambda>k. \<not> bit_of b k"] by (metis not_le)

interpretation tp: id_pool "pool_map n" "{i. unat i < n}" used_bits bitmap_take bitmap_give for n
proof
  fix b
  assume b: "pool_map n b"
  then show sub: "used_bits b \<subseteq> {i. unat i < n}"
    by (auto simp: used_bits_def pool_map_def dest: bit_of_less)
  have n: "n < 2 ^ 32" using b by (simp add: pool_map_def wf_bitmap_def)
  show "\<exists>i s'. bitmap_take b = Inr (i, s') \<and> pool_map n s' \<and>
      i \<in> {i. unat i < n} - used_bits b \<and> used_bits s' = insert i (used_bits b)"
    if ne: "used_bits b \<noteq> {i. unat i < n}"
  proof -
    obtain i where "i \<in> {i. unat i < n} - used_bits b" using ne sub by blast
    then have "unat i < n" "\<not> bit_of b (unat i)" by (simp_all add: used_bits_def)
    then obtain m where m: "m < n" "\<not> bit_of b m" "\<forall>i<m. bit_of b i"
      using first_clear by (metis le_less_trans)
    moreover have u: "unat (of_nat m :: 32 word) = m"
      using m(1) n by (simp add: unat_of_nat take_bit_nat_eq_self)
    moreover have "unat (j :: 32 word) = m \<longleftrightarrow> j = of_nat m" for j
      using u by auto
    ultimately show ?thesis
      using bitmap_take_spec [OF b m] by (fastforce simp: used_bits_def)
  qed
  show "\<exists>s'. bitmap_give i b = Inr s' \<and> pool_map n s' \<and> used_bits s' = used_bits b - {i}"
    if "i \<in> {i. unat i < n}" for i
    using bitmap_give_spec [OF b, of i] that by (auto simp: used_bits_def word_eq_iff_unsigned [where ?'a = nat])
qed

section \<open>The functions on a free pool\<close>

text \<open>
  What one critical section of the pool leaves behind: the lock is free again, a task that
  waited for it is ready, the bitmap is the new one, and nothing else has changed.
\<close>

definition pool_step :: "sys \<Rightarrow> (list_id \<Rightarrow> nat list) \<Rightarrow> bitmap \<Rightarrow> sys \<Rightarrow> bool" where
  "pool_step s q b s' \<longleftrightarrow> (\<exists>h ts.
     s' = s\<lparr>tid_bitmap := b, cells := h, tasks := ts, blocked := False\<rparr> \<and>
     sched_ok s' (wake_queues TidLock q) \<and> dom ts = dom (tasks s) \<and>
     (\<forall>t. t \<notin> set (q (Waiters TidLock)) \<longrightarrow> ts t = tasks s t))"

lemma pool_critical:
  assumes "sched_ok s q" and l: "locks s TidLock = Some free_lock" and c: "current_task s = Some c"
  shows "\<exists>s1. lock_acquire TidLock s = Done () s1 \<and>
    tid_bitmap s1 = tid_bitmap s \<and> tid_start s1 = tid_start s \<and>
    (\<forall>b. \<exists>s'. lock_release TidLock (s1\<lparr>tid_bitmap := b\<rparr>) = Inr s' \<and> pool_step s q b s')"
proof -
  let ?s1 = "s\<lparr>locks := (locks s)(TidLock \<mapsto> held_lock c 1), blocked := False\<rparr>"
  have "\<exists>s'. lock_release TidLock (?s1\<lparr>tid_bitmap := b\<rparr>) = Inr s' \<and> pool_step s q b s'" for b
  proof -
    have "sched_ok (?s1\<lparr>tid_bitmap := b\<rparr>) q"
      using assms(1) l by (subst sched_ok_frame [of _ s]) (auto simp: insert_absorb)
    from release_last [OF this, of TidLock c] obtain h ts where
      "lock_release TidLock (?s1\<lparr>tid_bitmap := b\<rparr>) =
        Inr (s\<lparr>tid_bitmap := b, cells := h, tasks := ts,
          locks := (locks s)(TidLock \<mapsto> free_lock), blocked := False\<rparr>)"
      "sched_ok (s\<lparr>tid_bitmap := b, cells := h, tasks := ts,
          locks := (locks s)(TidLock \<mapsto> free_lock), blocked := False\<rparr>) (wake_queues TidLock q)"
      "dom ts = dom (tasks s)" "\<forall>t. t \<notin> set (q (Waiters TidLock)) \<longrightarrow> ts t = tasks s t"
      using c by auto
    moreover have "(locks s)(TidLock \<mapsto> free_lock) = locks s" using l by auto
    then have "s\<lparr>tid_bitmap := b, cells := h, tasks := ts,
        locks := (locks s)(TidLock \<mapsto> free_lock), blocked := False\<rparr> =
      s\<lparr>tid_bitmap := b, cells := h, tasks := ts, blocked := False\<rparr>"
      by simp
    ultimately show ?thesis unfolding pool_step_def by metis
  qed
  then show ?thesis
    using acquire_free_lock(1) [OF l c] by (intro exI [of _ ?s1]) simp
qed

lemma allocate_tid_run:
  assumes "sched_ok s q" and "locks s TidLock = Some free_lock"
    and "pool_map n (tid_bitmap s)" and "m < n" and "\<not> bit_of (tid_bitmap s) m"
    and "\<forall>i<m. bit_of (tid_bitmap s) i"
  shows "\<exists>s' b. allocate_tid s = Done (ucast (of_nat m + tid_start s)) s' \<and> pool_step s q b s' \<and>
    pool_map n b \<and> (\<forall>i. bit_of b i = (i = m \<or> bit_of (tid_bitmap s) i))"
proof -
  obtain c where c: "current_task s = Some c" using assms(1) by (auto simp: sched_ok_def)
  obtain b where b: "bitmap_take (tid_bitmap s) = Inr (of_nat m, b)" "pool_map n b"
      "\<forall>i. bit_of b i = (i = m \<or> bit_of (tid_bitmap s) i)"
    using bitmap_take_spec [OF assms(3-6)] by blast
  obtain s1 where s1: "lock_acquire TidLock s = Done () s1" "tid_bitmap s1 = tid_bitmap s"
      "tid_start s1 = tid_start s"
      "\<And>b. \<exists>s'. lock_release TidLock (s1\<lparr>tid_bitmap := b\<rparr>) = Inr s' \<and> pool_step s q b s'"
    using pool_critical [OF assms(1,2) c] by blast
  obtain s' where s': "lock_release TidLock (s1\<lparr>tid_bitmap := b\<rparr>) = Inr s'" "pool_step s q b s'"
    using s1(4) by blast
  moreover have "tid_start s' = tid_start s" using s'(2) by (auto simp: pool_step_def)
  ultimately show ?thesis using s1(1-3) b by (auto simp: allocate_tid_def)
qed

lemma release_tid_run:
  assumes "sched_ok s q" and "locks s TidLock = Some free_lock"
    and "pool_map n (tid_bitmap s)" and "unat (scast td - tid_start s) < n"
  shows "\<exists>s' b. release_tid td s = Done () s' \<and> pool_step s q b s' \<and>
    pool_map n b \<and>
    (\<forall>i. bit_of b i = (i \<noteq> unat (scast td - tid_start s) \<and> bit_of (tid_bitmap s) i))"
proof -
  obtain c where c: "current_task s = Some c" using assms(1) by (auto simp: sched_ok_def)
  obtain b where b: "bitmap_give (scast td - tid_start s) (tid_bitmap s) = Inr b" "pool_map n b"
      "\<forall>i. bit_of b i = (i \<noteq> unat (scast td - tid_start s) \<and> bit_of (tid_bitmap s) i)"
    using bitmap_give_spec [OF assms(3,4)] by blast
  obtain s1 where s1: "lock_acquire TidLock s = Done () s1" "tid_bitmap s1 = tid_bitmap s"
      "tid_start s1 = tid_start s"
      "\<And>b. \<exists>s'. lock_release TidLock (s1\<lparr>tid_bitmap := b\<rparr>) = Inr s' \<and> pool_step s q b s'"
    using pool_critical [OF assms(1,2) c] by blast
  obtain s' where s': "lock_release TidLock (s1\<lparr>tid_bitmap := b\<rparr>) = Inr s'" "pool_step s q b s'"
    using s1(4) by blast
  then show ?thesis using s1(1-3) b by (auto simp: release_tid_def Let_def)
qed

lemma release_tid_out:
  assumes "sched_ok s q" and "locks s TidLock = Some free_lock"
    and "pool_map n (tid_bitmap s)" and "n \<le> unat (scast td - tid_start s)"
  shows "release_tid td s = Fail Out_Of_Bounds"
proof -
  obtain c where c: "current_task s = Some c" using assms(1) by (auto simp: sched_ok_def)
  have "bitmap_give (scast td - tid_start s) (tid_bitmap s) = Inl Out_Of_Bounds"
    using assms(3,4) by (auto simp: bitmap_give_def pool_map_def intro: bitmap_set_out)
  then show ?thesis
    using pool_critical [OF assms(1,2) c] by (auto simp: release_tid_def Let_def)
qed

lemma allocate_tid_full:
  assumes "sched_ok s q" and "locks s TidLock = Some free_lock"
    and "pool_map n (tid_bitmap s)" and "\<forall>i<n. bit_of (tid_bitmap s) i"
  shows "allocate_tid s = Fail Out_Of_Bounds"
proof -
  obtain c where c: "current_task s = Some c" using assms(1) by (auto simp: sched_ok_def)
  have "\<not> run_free (tid_bitmap s) r (Suc 0)" for r
    using assms(3,4) by (auto simp: run_free_1 pool_map_def)
  then have "bitmap_scan (tid_bitmap s) 1 = Inl Out_Of_Bounds"
    using bitmap_scan_first_run [of "tid_bitmap s" 1] assms(3)
    by (simp add: first_run_def pool_map_def)
  then have "bitmap_take (tid_bitmap s) = Inl Out_Of_Bounds" by (simp add: bitmap_take_def)
  then show ?thesis
    using pool_critical [OF assms(1,2) c] by (auto simp: allocate_tid_def)
qed

text \<open>The tid of bit \<open>m\<close> when the first tid is \<open>1\<close>, and the bit it is released from.\<close>

lemma tid_of_bit:
  assumes "m < 32767"
  shows "scast (ucast (of_nat m + 1 :: 32 word) :: 16 word) - 1 = (of_nat m :: 32 word)"
proof -
  have "of_nat m + 1 = (of_nat (Suc m) :: 32 word)" by simp
  then have "uint (of_nat m + 1 :: 32 word) = int (Suc m)"
    using assms by (simp only: unsigned_of_nat) (simp add: take_bit_nat_eq_self)
  then have "sint (ucast (of_nat m + 1 :: 32 word) :: 16 word) = int m + 1"
    using assms by (simp add: signed_ucast_eq signed_take_bit_int_eq_self)
  then have "scast (ucast (of_nat m + 1 :: 32 word) :: 16 word) = (of_int (int m + 1) :: 32 word)"
    by (metis of_int_sint)
  then show ?thesis by simp
qed

end
