(* ===== verification/Task.thy ===== *)
theory Task
  imports Tid "HOL-Library.Signed_Division"
begin

text \<open>
  The life of a task in \<open>task/task.c\<close>: creation, lookup, exit and the pool of ended tasks,
  and the start of the library. \<open>malloc\<close> and the linker are outside the source: what they
  choose is the argument \<open>env\<close>.
\<close>

section \<open>The functions\<close>

record alloc_env =
  new_task :: "nat option"
  new_stack :: "64 word"
  entrance :: "64 word"

text \<open>The bytes of \<open>memset(p, 0, sizeof)\<close>; \<open>TASK_RUNNING\<close> is the enumerator \<open>0\<close>.\<close>

definition zero_context :: sigcontext where
  "zero_context = \<lparr>r8 = 0, r9 = 0, r10 = 0, r11 = 0, r12 = 0, r13 = 0, r14 = 0, r15 = 0,
     rdi = 0, rsi = 0, rbp = 0, rbx = 0, rdx = 0, rax = 0, rcx = 0, rsp = 0, rip = 0,
     eflags = 0, ctx_cs = 0, ctx_gs = 0, ctx_fs = 0, ctx_pad0 = 0, ctx_rest = replicate 13 0\<rparr>"

definition zero_task :: task_struct where
  "zero_task = \<lparr>task_stack = 0, stack_min_addr = 0, tcontext = zero_context, tid = 0,
     status = TASK_RUNNING, tname = [], priority = 0, ticks = 0, elapsed_ticks = 0,
     tfunction = 0, func_args = 0, stack_magic = 0, sleep_millisecond = 0,
     first = False, is_hook = False, is_collaborative_schedule = False\<rparr>"

definition memset_task :: "nat \<Rightarrow> sys \<Rightarrow> sys" where
  "memset_task t s = s\<lparr>tasks := (tasks s)(t \<mapsto> zero_task), cells := clear_tags t (cells s)\<rparr>"

text \<open>\<open>free\<close> of a task structure: it and its three tags are gone.\<close>

definition free_task :: "nat \<Rightarrow> sys \<Rightarrow> sys result" where
  "free_task t s =
     andthen (task_at s t) (\<lambda>_.
     Inr (s\<lparr>tasks := (tasks s)(t := None), cells := free_tags t (cells s)\<rparr>))"

text \<open>
  \<open>strcpy\<close> into the \<open>char[32]\<close> of the name: a name is the characters before its \<open>NUL\<close>.
\<close>

definition copy_name :: "nat \<Rightarrow> string \<Rightarrow> sys \<Rightarrow> sys result" where
  "copy_name t nm s =
     (if length nm < 32 then upd_task t (\<lambda>ts. ts\<lparr>tname := nm\<rparr>) s else Inl Buffer_Overflow)"

subsection \<open>Creating tasks\<close>

text \<open>\<open>init_task\<close> up to, and from, the call of \<open>allocate_tid\<close>.\<close>

definition init_task_head :: "nat \<Rightarrow> string \<Rightarrow> sys \<Rightarrow> sys result" where
  "init_task_head ptask nm s =
     (let s = memset_task ptask s in
      andthen (copy_name ptask nm s) (\<lambda>s.
      if Some ptask = main_task s
      then andthen (upd_task ptask (\<lambda>ts. ts\<lparr>status := TASK_RUNNING, first := False\<rparr>) s) (\<lambda>s.
           Inr (s\<lparr>current_task := Some ptask\<rparr>))
      else upd_task ptask (\<lambda>ts. ts\<lparr>status := TASK_READY, first := True\<rparr>) s))"

definition init_task_tail :: "alloc_env \<Rightarrow> nat \<Rightarrow> 32 word \<Rightarrow> 16 word \<Rightarrow> sys \<Rightarrow> sys result" where
  "init_task_tail env ptask prio td =
     upd_task ptask (\<lambda>ts. ts\<lparr>tid := td, stack_min_addr := new_stack env,
       task_stack := new_stack env + 1024 * 4, priority := ucast prio, ticks := ucast prio,
       elapsed_ticks := 0, stack_magic := 0x19991120, sleep_millisecond := 0,
       is_hook := False, is_collaborative_schedule := False\<rparr>)"

definition init_task ::
  "alloc_env \<Rightarrow> nat option \<Rightarrow> string \<Rightarrow> 32 word \<Rightarrow> sys \<Rightarrow> (sys, nat) run" where
  "init_task env p nm prio s =
     (case andthen (deref p) (\<lambda>ptask. andthen (init_task_head ptask nm s) (\<lambda>s. Inr (ptask, s))) of
        Inl e \<Rightarrow> Fail e
      | Inr (ptask, s) \<Rightarrow> bind_run (allocate_tid s) (\<lambda>td s. lift_val (
          andthen (init_task_tail env ptask prio td s) (\<lambda>s. Inr (ptask, s)))))"

definition task_create :: "alloc_env \<Rightarrow> nat \<Rightarrow> 64 word \<Rightarrow> 64 word \<Rightarrow> sys \<Rightarrow> sys result" where
  "task_create env ptask func func_arg s =
     upd_task ptask (\<lambda>ts.
       let c = zero_context;
           c = c\<lparr>rbp := task_stack ts, rsp := task_stack ts\<rparr>;
           c = get_reg (cpu s) c
       in ts\<lparr>tcontext := c\<lparr>rip := entrance env, rdi := func, rsi := func_arg\<rparr>\<rparr>) s"

text \<open>\<open>task_start\<close>: where the structure comes from, and what follows its initialisation.\<close>

definition task_start_get :: "alloc_env \<Rightarrow> sys \<Rightarrow> (nat option \<times> sys) result" where
  "task_start_get env s =
     andthen (is_empty PoolList s) (\<lambda>empty.
     if \<not> empty then
       andthen (pop_cell PoolList s) (\<lambda>(e, s).
       let s = s\<lparr>task_tag := e\<rparr> in
       andthen (elem2entry_pool_tag (task_tag s)) (\<lambda>t.
       andthen (task_at s t) (\<lambda>ts.
       assert_c (TASK_DIED \<noteq> status ts) (
       Inr (Some t, s)))))
     else Inr (new_task env, s))"

definition task_start_link :: "nat \<Rightarrow> sys \<Rightarrow> sys result" where
  "task_start_link t s =
     andthen (in_list ReadyList (GeneralTag t) s) (\<lambda>b.
     assert_c (\<not> b) (
     andthen (append_cell ReadyList (GeneralTag t) s) (\<lambda>s.
     andthen (in_list AllList (AllListTag t) s) (\<lambda>b.
     assert_c (\<not> b) (
     andthen (append_cell AllList (AllListTag t) s) (\<lambda>s.
     let s = s\<lparr>task_all_nums := task_all_nums s + 1\<rparr> in
     Inr (interrupt_enable s)))))))"

definition task_start ::
  "alloc_env \<Rightarrow> string \<Rightarrow> 32 word \<Rightarrow> 64 word \<Rightarrow> 64 word \<Rightarrow> sys \<Rightarrow> (sys, nat) run" where
  "task_start env nm prio func func_arg s =
     (let s = interrupt_disable s in
      case task_start_get env s of
        Inl e \<Rightarrow> Fail e
      | Inr (p, s) \<Rightarrow>
          bind_run (init_task env p nm prio s) (\<lambda>t s. lift_val (
            andthen (task_create env t func func_arg s) (\<lambda>s.
            andthen (task_start_link t s) (\<lambda>s.
            Inr (t, s))))))"

definition make_main_task :: "alloc_env \<Rightarrow> sys \<Rightarrow> (sys, unit) run" where
  "make_main_task env s =
     (let s = s\<lparr>main_task := new_task env\<rparr> in
      bind_run (init_task env (main_task s) ''main'' 3 s) (\<lambda>t s. lift_run (
        andthen (in_list AllList (AllListTag t) s) (\<lambda>b.
        assert_c (\<not> b) (
        andthen (append_cell AllList (AllListTag t) s) (\<lambda>s.
        Inr (s\<lparr>task_all_nums := task_all_nums s + 1\<rparr>)))))))"

definition task_init :: "alloc_env \<Rightarrow> sys \<Rightarrow> (sys, unit) run" where
  "task_init env s =
     (case andthen (on_cells (list_init (list_at ReadyList)) s) (\<lambda>s.
           andthen (on_cells (list_init (list_at AllList)) s) (\<lambda>s.
           andthen (on_cells (list_init (list_at PoolList)) s) (\<lambda>s.
           tid_pool_init (s\<lparr>task_all_nums := 0\<rparr>)))) of
        Inl e \<Rightarrow> Fail e
      | Inr s \<Rightarrow> make_main_task env s)"

subsection \<open>Looking tasks up\<close>

definition tid_check :: "sys \<Rightarrow> cell option \<Rightarrow> 32 word \<Rightarrow> bool result" where
  "tid_check s pelem td =
     andthen (elem2entry_all_list_tag pelem) (\<lambda>ptask.
     andthen (task_at s ptask) (\<lambda>ts.
     Inr (scast (tid ts) = td)))"

definition tid2task :: "16 word \<Rightarrow> sys \<Rightarrow> nat option result" where
  "tid2task td s =
     andthen (list_traversal (list_at AllList) (tid_check s) (scast td) (cells s)) (\<lambda>pelem.
     if pelem = None then Inr None
     else andthen (elem2entry_all_list_tag pelem) (\<lambda>ptask. Inr (Some ptask)))"

text \<open>\<open>current_is_hook\<close> and its setter \<open>co_enable_hook_sys\<close> of \<open>hook.c\<close>.\<close>

definition current_is_hook :: "sys \<Rightarrow> bool result" where
  "current_is_hook s =
     (case current_task s of
        None \<Rightarrow> Inr False
      | Some c \<Rightarrow> andthen (task_at s c) (\<lambda>ts. Inr (is_hook ts)))"

definition co_enable_hook_sys :: "sys \<Rightarrow> sys result" where
  "co_enable_hook_sys s = andthen (current s) (\<lambda>c. upd_task c (\<lambda>ts. ts\<lparr>is_hook := True\<rparr>) s)"

subsection \<open>The end of a task\<close>

definition task_exit_unlink :: "nat \<Rightarrow> sys \<Rightarrow> sys result" where
  "task_exit_unlink t s =
     (let s = interrupt_disable s in
      andthen (set_status TASK_DIED t s) (\<lambda>s.
      andthen (in_list ReadyList (GeneralTag t) s) (\<lambda>b.
      andthen (if b then on_cells (list_remove (Some (GeneralTag t))) s else Inr s) (\<lambda>s.
      andthen (on_cells (list_remove (Some (AllListTag t))) s) (\<lambda>s.
      let s = s\<lparr>task_all_nums := task_all_nums s - 1\<rparr> in
      if Some t \<noteq> main_task s then append_cell PoolList (PoolTag t) s else Inr s)))))"

definition task_exit :: "nat \<Rightarrow> sys \<Rightarrow> (sys, unit) run" where
  "task_exit t s =
     (case andthen (task_exit_unlink t s) (\<lambda>s. andthen (task_at s t) (\<lambda>ts. Inr (tid ts, s))) of
        Inl e \<Rightarrow> Fail e
      | Inr (td, s) \<Rightarrow> bind_run (release_tid td s) (\<lambda>_ s.
          case died_task_schedule (interrupt_enable s) of
            Inl e \<Rightarrow> Fail e
          | Inr s \<Rightarrow> Leave s))"

text \<open>The function of a task is code of the client, a parameter here.\<close>

definition task_entrance ::
  "(64 word \<Rightarrow> sys \<Rightarrow> (sys, unit) run) \<Rightarrow> 64 word \<Rightarrow> sys \<Rightarrow> (sys, unit) run" where
  "task_entrance func func_arg s =
     bind_run (func func_arg s) (\<lambda>_ s.
       case current s of Inl e \<Rightarrow> Fail e | Inr c \<Rightarrow> task_exit c s)"

subsection \<open>Cleaning the pool\<close>

definition clean_step :: "sys \<Rightarrow> sys result" where
  "clean_step s =
     andthen (pop_cell PoolList s) (\<lambda>(e, s).
     let s = s\<lparr>task_tag := e\<rparr> in
     andthen (elem2entry_pool_tag (task_tag s)) (\<lambda>t.
     free_task t s))"

partial_function (option) clean_loop :: "int \<Rightarrow> sys \<Rightarrow> sys result option" where
  "clean_loop clean_cnt s =
     (case is_empty PoolList s of
        Inl e \<Rightarrow> Some (Inl e)
      | Inr b \<Rightarrow>
          (if b \<or> clean_cnt = 0
           then case clean_step s of
                  Inl e \<Rightarrow> Some (Inl e)
                | Inr s \<Rightarrow> clean_loop (clean_cnt - 1) s
           else Some (Inr s)))"

definition clean_dead_task :: "sys \<Rightarrow> sys result" where
  "clean_dead_task s =
     andthen (is_empty PoolList s) (\<lambda>empty.
     if empty then Inr s
     else
       (let n = sint (task_all_nums s);
            clean_cnt = (if n sdiv 8 > 16 then 16 else n sdiv 8)
        in returns (clean_loop clean_cnt s)))"

subsection \<open>The scheduler in the style of Linux 0.11\<close>

text \<open>
  The body of the loop of \<open>get_next_task_011\<close>: \<open>c\<close> and \<open>next_task\<close> are the best candidate so
  far. The sum is computed as an \<open>int\<close> and stored in the \<open>uint8_t\<close> \<open>ticks\<close>.
\<close>

definition next_011_body :: "nat \<Rightarrow> int \<times> nat option \<times> sys \<Rightarrow> (int \<times> nat option \<times> sys) result" where
  "next_011_body task = (\<lambda>(c, next_task, s).
     andthen (task_at s task) (\<lambda>ts.
     let ts = (if status ts = TASK_WAITING \<or> status ts = TASK_BLOCKED \<or> status ts = TASK_HANGING \<or>
                  is_collaborative_schedule ts
               then ts\<lparr>ticks := ticks ts div 2 + priority ts\<rparr> else ts);
         s = s\<lparr>tasks := (tasks s)(task \<mapsto> ts)\<rparr> in
     if status ts = TASK_READY \<and> uint (ticks ts) > c
     then Inr (uint (ticks ts), Some task, s)
     else Inr (c, next_task, s)))"

partial_function (option) next_011_loop ::
  "cell option \<Rightarrow> int \<times> nat option \<times> sys \<Rightarrow> (int \<times> nat option \<times> sys) result option" where
  "next_011_loop elem st =
     (if elem = Some (TailOf AllList) then Some (Inr st)
      else case andthen (elem2entry_all_list_tag elem) (\<lambda>task.
                andthen (next_011_body task st) (\<lambda>st.
                andthen (deref elem) (\<lambda>a.
                andthen (rd (cells (snd (snd st))) a) (\<lambda>c. Inr (nxt c, st))))) of
             Inl e \<Rightarrow> Some (Inl e)
           | Inr (elem, st) \<Rightarrow> next_011_loop elem st)"

text \<open>With no ready task \<open>next_task\<close> is read uninitialised.\<close>

definition get_next_task_011 :: "sys \<Rightarrow> (nat \<times> sys) result" where
  "get_next_task_011 s =
     andthen (rd (cells s) (head (list_at AllList))) (\<lambda>h.
     andthen (returns (next_011_loop (nxt h) (- 1, None, s))) (\<lambda>(c, next_task, s).
     case next_task of
       None \<Rightarrow> Inl Bad_Access
     | Some n \<Rightarrow>
         andthen (on_cells (list_remove (Some (GeneralTag n))) s) (\<lambda>s.
         andthen (set_status TASK_RUNNING n s) (\<lambda>s.
         Inr (n, s)))))"

section \<open>Starting a task\<close>

lemma sched_ok_fresh:
  assumes "sched_ok s q" and "t \<notin> dom (tasks s)" and "cells s' = clear_tags t (cells s)"
    and "tasks s' = (tasks s)(t \<mapsto> ts)" and "current_task s' = current_task s"
    and "locks s' = locks s"
  shows "sched_ok s' q"
proof -
  have l: "linked_cells (valid_lists s) (dom (tasks s)) (cells s) q"
    using assms(1) by (simp add: sched_ok_def linked_def)
  have "linked s' q"
    using linked_clear_tags [OF l assms(2)] assms(3,4,6) by (simp add: linked_def valid_lists_def)
  moreover have "has_status s' u st" if "has_status s u st" for u st
    using that assms(2,4) by (auto simp: has_status_def)
  ultimately show ?thesis
    using assms by (auto simp: sched_ok_def off_lists_ready)
qed

text \<open>Writing fields of a task other than its status.\<close>

lemma sched_ok_upd:
  assumes "sched_ok s q" and "tasks s t = Some ts" and "status ts' = status ts"
    and "cells s' = cells s" and "tasks s' = (tasks s)(t \<mapsto> ts')" and "locks s' = locks s"
    and "current_task s' = current_task s"
  shows "sched_ok s' q"
proof -
  have "linked s' q"
    using assms(1) by (subst linked_frame [of _ s])
      (use assms in \<open>auto simp: sched_ok_def\<close>)
  moreover have "has_status s' u st = has_status s u st" for u st
    using assms(2,3,5) by (auto simp: has_status_def)
  ultimately show ?thesis
    using assms by (auto simp: sched_ok_def off_lists_ready)
qed

lemma fresh_off_lists:
  assumes "sched_ok s q" and "t \<notin> dom (tasks s)" and "i \<in> valid_lists s"
  shows "t \<notin> set (q i)"
  using assms linked_subset [of "valid_lists s" "dom (tasks s)" "cells s" q i]
  by (auto simp: sched_ok_def linked_def)

lemma sched_ok_lock: "sched_ok s q \<Longrightarrow> locks s k = Some l \<Longrightarrow> Waiters k \<in> valid_lists s"
  by auto

definition head_task :: "string \<Rightarrow> task_status \<Rightarrow> bool \<Rightarrow> task_struct" where
  "head_task nm st fst_run = zero_task\<lparr>tname := nm, status := st, first := fst_run\<rparr>"

lemma init_task_head_new:
  assumes "length nm < 32" and "Some t \<noteq> main_task s"
  shows "init_task_head t nm s = Inr (s\<lparr>tasks := (tasks s)(t \<mapsto> head_task nm TASK_READY True),
    cells := clear_tags t (cells s)\<rparr>)"
  using assms
  by (simp add: init_task_head_def memset_task_def copy_name_def step_simps head_task_def)

lemma init_task_head_main:
  assumes "length nm < 32" and "Some t = main_task s"
  shows "init_task_head t nm s = Inr (s\<lparr>tasks := (tasks s)(t \<mapsto> head_task nm TASK_RUNNING False),
    cells := clear_tags t (cells s), current_task := Some t\<rparr>)"
  using assms
  by (simp add: init_task_head_def memset_task_def copy_name_def step_simps head_task_def)

lemma init_task_overflow: "32 \<le> length nm \<Longrightarrow> init_task env (Some t) nm prio s = Fail Buffer_Overflow"
  by (simp add: init_task_def init_task_head_def copy_name_def Let_def)

text \<open>The fields of a task that \<open>init_task\<close> leaves behind.\<close>

definition fresh_task ::
  "alloc_env \<Rightarrow> string \<Rightarrow> 32 word \<Rightarrow> 16 word \<Rightarrow> task_status \<Rightarrow> bool \<Rightarrow> task_struct" where
  "fresh_task env nm prio td st fst_run =
     (head_task nm st fst_run)\<lparr>tid := td, stack_min_addr := new_stack env,
       task_stack := new_stack env + 4096, priority := ucast prio, ticks := ucast prio,
       elapsed_ticks := 0, stack_magic := 0x19991120, sleep_millisecond := 0,
       is_hook := False, is_collaborative_schedule := False\<rparr>"

text \<open>
  \<open>added_task s q b t ts s'\<close>: \<open>s'\<close> differs from \<open>s\<close> by the new task \<open>t\<close>, the new tid bitmap
  \<open>b\<close> and a task that may have been woken by the release of the tid lock.
\<close>

definition added_task ::
  "sys \<Rightarrow> (list_id \<Rightarrow> nat list) \<Rightarrow> bitmap \<Rightarrow> nat \<Rightarrow> task_struct \<Rightarrow> sys \<Rightarrow> bool" where
  "added_task s q b t ts s' \<longleftrightarrow>
     tid_bitmap s' = b \<and> \<not> blocked s' \<and> locks s' = locks s \<and> main_task s' = main_task s \<and>
     tid_start s' = tid_start s \<and> cpu s' = cpu s \<and> mem s' = mem s \<and> timers s' = timers s \<and>
     tasks s' t = Some ts \<and> dom (tasks s') = insert t (dom (tasks s)) \<and>
     (\<forall>u. u \<noteq> t \<and> u \<notin> set (q (Waiters TidLock)) \<longrightarrow> tasks s' u = tasks s u)"

lemma init_task_run:
  assumes head: "init_task_head t nm s = Inr s1" and ok: "sched_ok s1 q"
    and h: "tasks s1 = (tasks s)(t \<mapsto> head_task nm st f)" "cells s1 = clear_tags t (cells s)"
      "locks s1 = locks s" "main_task s1 = main_task s" "tid_bitmap s1 = tid_bitmap s"
      "tid_start s1 = tid_start s" "cpu s1 = cpu s" "mem s1 = mem s"
      "task_all_nums s1 = task_all_nums s" "timers s1 = timers s"
    and "t \<notin> dom (tasks s)" and "t \<notin> set (q (Waiters TidLock))"
    and l: "locks s TidLock = Some free_lock"
    and m: "pool_map n (tid_bitmap s)" "m < n" "\<not> bit_of (tid_bitmap s) m"
      "\<forall>i<m. bit_of (tid_bitmap s) i"
  shows "\<exists>s' b. init_task env (Some t) nm prio s = Done t s' \<and>
    sched_ok s' (wake_queues TidLock q) \<and> current_task s' = current_task s1 \<and>
    task_all_nums s' = task_all_nums s \<and>
    pool_map n b \<and> (\<forall>i. bit_of b i = (i = m \<or> bit_of (tid_bitmap s) i)) \<and>
    added_task s q b t (fresh_task env nm prio (ucast (of_nat m + tid_start s)) st f) s'"
proof -
  let ?td = "ucast (of_nat m + tid_start s) :: 16 word"
  have l1: "locks s1 TidLock = Some free_lock" using l h(3) by simp
  obtain s2 b where al: "allocate_tid s1 = Done ?td s2" and ps: "pool_step s1 q b s2"
      and b: "pool_map n b" "\<forall>i. bit_of b i = (i = m \<or> bit_of (tid_bitmap s) i)"
    using allocate_tid_run [OF ok l1, of n m] m h(5,6) by auto
  from ps obtain hh ts where s2:
      "s2 = s1\<lparr>tid_bitmap := b, cells := hh, tasks := ts, blocked := False\<rparr>"
      "sched_ok s2 (wake_queues TidLock q)" "dom ts = dom (tasks s1)"
      "\<forall>u. u \<notin> set (q (Waiters TidLock)) \<longrightarrow> ts u = tasks s1 u"
    by (auto simp: pool_step_def)
  have t2: "tasks s2 t = Some (head_task nm st f)" using s2(1,4) assms(14) h(1) by simp
  let ?ts = "fresh_task env nm prio ?td st f"
  let ?s3 = "s2\<lparr>tasks := (tasks s2)(t \<mapsto> ?ts)\<rparr>"
  have tail: "init_task_tail env t prio ?td s2 = Inr ?s3"
    using t2 by (simp add: init_task_tail_def step_simps fresh_task_def)
  have "sched_ok ?s3 (wake_queues TidLock q)"
    by (rule sched_ok_upd [OF s2(2) t2, of ?ts]) (simp_all add: fresh_task_def)
  moreover have "added_task s q b t ?ts ?s3"
    using s2(1,3,4) h by (auto simp: added_task_def)
  moreover have "init_task env (Some t) nm prio s = Done t ?s3"
    using head al tail by (simp add: init_task_def)
  ultimately show ?thesis using s2(1) h(9) b by (intro exI [of _ ?s3] exI [of _ b]) simp
qed

text \<open>A task that is on no ready or wait list is put on the two lists of the scheduler.\<close>

lemma task_start_link_run:
  assumes ok: "sched_ok s q" and t: "tasks s t = Some ts" "status ts = TASK_READY"
    and off: "off_lists (valid_lists s) q ReadyList t" "t \<notin> set (q AllList)"
    and nc: "current_task s \<noteq> Some t"
  shows "\<exists>h. task_start_link t s = Inr (s\<lparr>cells := h, task_all_nums := task_all_nums s + 1,
      blocked := False\<rparr>) \<and>
    sched_ok (s\<lparr>cells := h, task_all_nums := task_all_nums s + 1, blocked := False\<rparr>)
      (q(ReadyList := q ReadyList @ [t], AllList := q AllList @ [t]))"
proof -
  have l: "linked_cells (valid_lists s) (dom (tasks s)) (cells s) q"
    using ok by (simp add: sched_ok_def linked_def)
  have td: "t \<in> dom (tasks s)" using t(1) by blast
  have nr: "t \<notin> set (q ReadyList)" using off(1) by (simp add: off_lists_ready)
  obtain h1 where h1: "list_append (list_at ReadyList) (GeneralTag t) (cells s) = Inr h1"
      "linked_cells (valid_lists s) (dom (tasks s)) h1 (q(ReadyList := q ReadyList @ [t]))"
    using linked_append [OF l _ td off(1)] by auto
  have "off_lists (valid_lists s) (q(ReadyList := q ReadyList @ [t])) AllList t"
    using off(2) by (auto simp: off_lists_def valid_lists_def)
  from linked_append [OF h1(2) _ td this] obtain h where h:
      "list_append (list_at AllList) (AllListTag t) h1 = Inr h"
      "linked_cells (valid_lists s) (dom (tasks s)) h
        (q(ReadyList := q ReadyList @ [t], AllList := q AllList @ [t]))"
    by auto
  have f1: "elem_find (list_at ReadyList) (GeneralTag t) (cells s) = Inr False"
    using linked_find [OF l, of ReadyList t] nr by simp
  have f2: "elem_find (list_at AllList) (AllListTag t) h1 = Inr False"
    using linked_find [OF h1(2), of AllList t] off(2) by simp
  let ?s' = "s\<lparr>cells := h, task_all_nums := task_all_nums s + 1, blocked := False\<rparr>"
  have "task_start_link t s = Inr ?s'"
    using f1 f2 h1(1) h(1) by (simp add: task_start_link_def step_simps)
  moreover have "sched_ok ?s' (q(ReadyList := q ReadyList @ [t], AllList := q AllList @ [t]))"
    using ok h(2) nc t by (auto simp: sched_ok_def linked_def valid_lists_def has_status_def
        off_lists_def)
  ultimately show ?thesis by blast
qed

text \<open>The context a new task begins in: \<open>task_entrance(func, func_arg)\<close> on its own stack.\<close>

definition first_context :: "alloc_env \<Rightarrow> sigcontext \<Rightarrow> 64 word \<Rightarrow> 64 word \<Rightarrow> sigcontext" where
  "first_context env r func func_arg = zero_context\<lparr>rbp := new_stack env + 4096,
     rsp := new_stack env + 4096, ctx_cs := ctx_cs r, ctx_pad0 := ctx_pad0 r,
     rip := entrance env, rdi := func, rsi := func_arg\<rparr>"

definition start_queues :: "nat \<Rightarrow> (list_id \<Rightarrow> nat list) \<Rightarrow> list_id \<Rightarrow> nat list" where
  "start_queues t q = (let q = wake_queues TidLock q in
     q(ReadyList := q ReadyList @ [t], AllList := q AllList @ [t]))"

lemma wake_queues_other [simp]:
  "wake_queues k q AllList = q AllList" "wake_queues k q PoolList = q PoolList"
  "j \<noteq> k \<Longrightarrow> wake_queues k q (Waiters j) = q (Waiters j)"
  by (simp_all add: wake_queues_def split: list.split)

lemma wake_queues_subset:
  "set (wake_queues k q (Waiters j)) \<subseteq> set (q (Waiters j))"
  "set (wake_queues k q ReadyList) \<subseteq> set (q ReadyList) \<union> set (q (Waiters k))"
  by (auto simp: wake_queues_def split: list.split_asm if_splits)

lemma task_start_new:
  assumes ok: "sched_ok s q" and "q PoolList = []" and l: "locks s TidLock = Some free_lock"
    and p: "new_task env = Some t" "t \<notin> dom (tasks s)" "Some t \<noteq> main_task s"
    and nm: "length nm < 32"
    and m: "pool_map n (tid_bitmap s)" "m < n" "\<not> bit_of (tid_bitmap s) m"
      "\<forall>i<m. bit_of (tid_bitmap s) i"
  shows "\<exists>s' b. task_start env nm prio func arg s = Done t s' \<and>
    sched_ok s' (start_queues t q) \<and> current_task s' = current_task s \<and>
    task_all_nums s' = task_all_nums s + 1 \<and>
    pool_map n b \<and> (\<forall>i. bit_of b i = (i = m \<or> bit_of (tid_bitmap s) i)) \<and>
    added_task s q b t
      ((fresh_task env nm prio (ucast (of_nat m + tid_start s)) TASK_READY True)
         \<lparr>tcontext := first_context env (cpu s) func arg\<rparr>) s'"
proof -
  let ?s0 = "interrupt_disable s" and ?q1 = "wake_queues TidLock q"
  let ?s1 = "?s0\<lparr>tasks := (tasks ?s0)(t \<mapsto> head_task nm TASK_READY True),
    cells := clear_tags t (cells ?s0)\<rparr>"
  let ?td = "ucast (of_nat m + tid_start s) :: 16 word"
  let ?f = "fresh_task env nm prio ?td TASK_READY True"
  have s0: "tasks ?s0 = tasks s" "cells ?s0 = cells s" "locks ?s0 = locks s"
      "main_task ?s0 = main_task s" "tid_bitmap ?s0 = tid_bitmap s" "tid_start ?s0 = tid_start s"
      "current_task ?s0 = current_task s" "cpu ?s0 = cpu s" "mem ?s0 = mem s"
      "task_all_nums ?s0 = task_all_nums s" "timers ?s0 = timers s"
    by (simp_all add: interrupt_disable_def)
  have ok0: "sched_ok ?s0 q" using ok s0 by (subst sched_ok_frame [of _ s]) auto
  have t_off: "t \<notin> set (q i)" if "i \<in> valid_lists s" for i
    by (rule fresh_off_lists [OF ok p(2) that])
  have tw: "t \<notin> set (q (Waiters TidLock))" by (rule t_off) (use l in auto)
  have get: "task_start_get env ?s0 = Inr (Some t, ?s0)"
    using linked_empty [of "valid_lists ?s0" "dom (tasks ?s0)" "cells ?s0" q PoolList] ok0 assms(2) p(1)
    by (simp add: task_start_get_def is_empty_def sched_ok_def linked_def)
  have head: "init_task_head t nm ?s0 = Inr ?s1"
    using init_task_head_new [OF nm, of t ?s0] p(3) s0(4) by simp
  have "sched_ok ?s1 q" by (rule sched_ok_fresh [OF ok0]) (use p(2) s0 in auto)
  from init_task_run [OF head this, where st = TASK_READY and f = True and n = n and m = m
        and env = env and prio = prio] s0 p(2) tw l m
  obtain s2 b where s2: "init_task env (Some t) nm prio ?s0 = Done t s2" "sched_ok s2 ?q1"
      "current_task s2 = current_task s" "task_all_nums s2 = task_all_nums s"
      "pool_map n b" "\<forall>i. bit_of b i = (i = m \<or> bit_of (tid_bitmap s) i)"
      "added_task ?s0 q b t ?f s2"
    by auto
  have t2: "tasks s2 t = Some ?f" "cpu s2 = cpu s" "locks s2 = locks s"
    using s2(7) s0 by (simp_all add: added_task_def)
  let ?ts = "?f\<lparr>tcontext := first_context env (cpu s) func arg\<rparr>"
  let ?s3 = "s2\<lparr>tasks := (tasks s2)(t \<mapsto> ?ts)\<rparr>"
  have create: "task_create env t func arg s2 = Inr ?s3"
    using t2 by (simp add: task_create_def step_simps first_context_def get_reg_def
        fresh_task_def head_task_def)
  have ok3: "sched_ok ?s3 ?q1" by (rule sched_ok_upd [OF s2(2) t2(1), of ?ts]) simp_all
  have nc: "current_task ?s3 \<noteq> Some t" using s2(3) ok p(2) by (auto simp: sched_ok_def)
  have off: "off_lists (valid_lists ?s3) ?q1 ReadyList t"
    unfolding off_lists_ready
  proof (intro conjI ballI)
    show "t \<notin> set (?q1 ReadyList)" using wake_queues_subset(2) t_off [of ReadyList] tw by force
    show "t \<notin> set (?q1 (Waiters k))" if "k \<in> dom (locks ?s3)" for k
      using wake_queues_subset(1) t_off [of "Waiters k"] that t2(3) by force
  qed
  obtain h where h: "task_start_link t ?s3 = Inr (?s3\<lparr>cells := h,
        task_all_nums := task_all_nums s + 1, blocked := False\<rparr>)"
      "sched_ok (?s3\<lparr>cells := h, task_all_nums := task_all_nums s + 1, blocked := False\<rparr>)
        (start_queues t q)"
    using task_start_link_run [OF ok3, of t ?ts] nc off t_off [of AllList] s2(4)
    by (auto simp: fresh_task_def head_task_def start_queues_def Let_def)
  let ?s4 = "?s3\<lparr>cells := h, task_all_nums := task_all_nums s + 1, blocked := False\<rparr>"
  have "task_start env nm prio func arg s = Done t ?s4"
    using get s2(1) create h(1) by (simp add: task_start_def Let_def)
  moreover have "added_task s q b t ?ts ?s4"
    using s2(7) s0 by (auto simp: added_task_def)
  ultimately show ?thesis
    using h(2) s2(3,5,6) by (intro exI [of _ ?s4] exI [of _ b]) simp
qed

lemma task_start_reuse:
  assumes ok: "sched_ok s q" and p: "q PoolList = t # ts" and st: "has_status s t TASK_DIED"
  shows "task_start env nm prio func arg s = Fail Assert_Spin"
proof -
  have l: "linked_cells (valid_lists s) (dom (tasks s)) (cells s) q"
    using ok by (simp add: sched_ok_def linked_def)
  obtain h where "list_pop (list_at PoolList) (cells s) = Inr (Some (PoolTag t), h)"
    using linked_pop [OF l _ p] by auto
  moreover have "list_empty (list_at PoolList) (cells s) = Inr False"
    using linked_empty [OF l, of PoolList] p by simp
  ultimately have "task_start_get env (interrupt_disable s) = Inl Assert_Spin"
    using st by (auto simp: task_start_get_def step_simps has_status_def)
  then show ?thesis by (simp add: task_start_def Let_def)
qed

section \<open>Ending a task\<close>

text \<open>The lists while a task ends, before and after the switch to the next task.\<close>

definition exit_queues :: "bool \<Rightarrow> nat \<Rightarrow> (list_id \<Rightarrow> nat list) \<Rightarrow> list_id \<Rightarrow> nat list" where
  "exit_queues main t q = (let q1 = q(AllList := remove1 t (q AllList)) in
     if main then q1 else q1(PoolList := q PoolList @ [t]))"

lemma exit_queues_simps [simp]:
  "exit_queues b t q ReadyList = q ReadyList" "exit_queues b t q (Waiters k) = q (Waiters k)"
  by (simp_all add: exit_queues_def Let_def)

lemma task_exit_unlink_run:
  assumes ok: "sched_ok s q" and c: "current_task s = Some t" and t: "tasks s t = Some ts"
    and al: "t \<in> set (q AllList)" and pl: "t \<notin> set (q PoolList)"
  shows "\<exists>h. task_exit_unlink t s = Inr (s\<lparr>cells := h,
      tasks := (tasks s)(t \<mapsto> ts\<lparr>status := TASK_DIED\<rparr>), task_all_nums := task_all_nums s - 1,
      blocked := True\<rparr>) \<and>
    sched_ok (s\<lparr>cells := h, tasks := (tasks s)(t \<mapsto> ts\<lparr>status := TASK_DIED\<rparr>),
      task_all_nums := task_all_nums s - 1, blocked := True\<rparr>)
      (exit_queues (Some t = main_task s) t q)"
proof -
  have l: "linked_cells (valid_lists s) (dom (tasks s)) (cells s) q"
      and off: "off_lists (valid_lists s) q ReadyList t"
    using ok c by (auto simp: sched_ok_def linked_def)
  have td: "t \<in> dom (tasks s)" using t by blast
  let ?q1 = "q(AllList := remove1 t (q AllList))" and ?m = "Some t = main_task s"
  have f: "elem_find (list_at ReadyList) (GeneralTag t) (cells s) = Inr False"
    using linked_find [OF l, of ReadyList t] off by (simp add: off_lists_ready)
  obtain h1 where h1: "list_remove (Some (AllListTag t)) (cells s) = Inr h1"
      "linked_cells (valid_lists s) (dom (tasks s)) h1 ?q1"
    using linked_remove [OF l _ al] by auto
  have "off_lists (valid_lists s) ?q1 PoolList t"
    using pl by (auto simp: off_lists_def valid_lists_def)
  from linked_append [OF h1(2) _ td this] obtain h2 where h2:
      "list_append (list_at PoolList) (PoolTag t) h1 = Inr h2"
      "linked_cells (valid_lists s) (dom (tasks s)) h2 (?q1(PoolList := q PoolList @ [t]))"
    by auto
  define h where "h = (if ?m then h1 else h2)"
  let ?s' = "s\<lparr>cells := h, tasks := (tasks s)(t \<mapsto> ts\<lparr>status := TASK_DIED\<rparr>),
      task_all_nums := task_all_nums s - 1, blocked := True\<rparr>"
  have lh: "linked_cells (valid_lists s) (dom (tasks s)) h (exit_queues ?m t q)"
    using h1(2) h2(2) by (simp add: h_def exit_queues_def Let_def)
  then have "linked ?s' (exit_queues ?m t q)"
    using td by (simp add: linked_def valid_lists_def insert_absorb)
  moreover have tr: "t \<notin> set (q ReadyList)" "\<forall>k\<in>dom (locks s). t \<notin> set (q (Waiters k))"
    using off by (simp_all add: off_lists_ready)
  moreover have "has_status ?s' u st" if "u \<noteq> t" "has_status s u st" for u st
    using that by (simp add: has_status_def)
  then have "\<forall>u\<in>set (q ReadyList). has_status ?s' u TASK_READY"
      "\<forall>k\<in>dom (locks s). \<forall>u\<in>set (q (Waiters k)). has_status ?s' u TASK_BLOCKED"
    using ok tr unfolding sched_ok_def by metis+
  ultimately have "sched_ok ?s' (exit_queues ?m t q)"
    using c by (simp add: sched_ok_def off_lists_ready)
  moreover have "task_exit_unlink t s = Inr ?s'"
    using f h1(1) h2(1) t by (simp add: task_exit_unlink_def step_simps h_def)
  ultimately show ?thesis by blast
qed

lemma task_exit_run:
  assumes ok: "sched_ok s q" and c: "current_task s = Some t" and t: "tasks s t = Some ts"
    and "t \<in> set (q AllList)" and "t \<notin> set (q PoolList)"
    and l: "locks s TidLock = Some free_lock"
    and m: "pool_map n (tid_bitmap s)" "unat (scast (tid ts) - tid_start s) < n"
    and ready: "wake_queues TidLock q ReadyList = u # us"
  shows "\<exists>s' b tu. task_exit t s = Leave s' \<and>
    sched_ok s' ((wake_queues TidLock (exit_queues (Some t = main_task s) t q))(ReadyList := us)) \<and>
    current_task s' = Some u \<and> has_status s' u TASK_RUNNING \<and> has_status s' t TASK_DIED \<and>
    task_all_nums s' = task_all_nums s - 1 \<and> tid_bitmap s' = b \<and> pool_map n b \<and>
    (\<forall>i. bit_of b i = (i \<noteq> unat (scast (tid ts) - tid_start s) \<and> bit_of (tid_bitmap s) i)) \<and>
    tasks s' u = Some tu \<and> cpu s' = fst (context_load (tcontext tu) (cpu s, mem s)) \<and>
    locks s' = locks s \<and> main_task s' = main_task s \<and> tid_start s' = tid_start s \<and> timers s' = timers s \<and>
    dom (tasks s') = dom (tasks s) \<and> (q (Waiters TidLock) = [] \<longrightarrow>
      (\<exists>tv. tasks s u = Some tv \<and>
        tasks s' = (tasks s)(t \<mapsto> ts\<lparr>status := TASK_DIED\<rparr>, u \<mapsto> tv\<lparr>status := TASK_RUNNING\<rparr>)))"
proof -
  define q1 where "q1 = exit_queues (Some t = main_task s) t q"
  from task_exit_unlink_run [OF ok c t assms(4,5)] obtain h where un: "task_exit_unlink t s =
      Inr (s\<lparr>cells := h, tasks := (tasks s)(t \<mapsto> ts\<lparr>status := TASK_DIED\<rparr>),
        task_all_nums := task_all_nums s - 1, blocked := True\<rparr>)"
      "sched_ok (s\<lparr>cells := h, tasks := (tasks s)(t \<mapsto> ts\<lparr>status := TASK_DIED\<rparr>),
        task_all_nums := task_all_nums s - 1, blocked := True\<rparr>) q1"
    unfolding q1_def by blast
  let ?s1 = "s\<lparr>cells := h, tasks := (tasks s)(t \<mapsto> ts\<lparr>status := TASK_DIED\<rparr>),
    task_all_nums := task_all_nums s - 1, blocked := True\<rparr>"
  have l1: "locks ?s1 TidLock = Some free_lock" using l by simp
  obtain s2 b where rel: "release_tid (tid ts) ?s1 = Done () s2" "pool_step ?s1 q1 b s2"
      "pool_map n b"
      "\<forall>i. bit_of b i = (i \<noteq> unat (scast (tid ts) - tid_start s) \<and> bit_of (tid_bitmap s) i)"
    using release_tid_run [OF un(2) l1, of n "tid ts"] m by auto
  then obtain h2 t2 where s2: "s2 = ?s1\<lparr>tid_bitmap := b, cells := h2, tasks := t2, blocked := False\<rparr>"
      "sched_ok s2 (wake_queues TidLock q1)" "dom t2 = dom (tasks ?s1)"
      "\<And>v. v \<notin> set (q1 (Waiters TidLock)) \<Longrightarrow> t2 v = tasks ?s1 v"
    by (auto simp: pool_step_def)
  have qw: "q1 (Waiters TidLock) = q (Waiters TidLock)" and qr: "q1 ReadyList = q ReadyList"
    by (simp_all add: q1_def)
  have ready1: "wake_queues TidLock q1 ReadyList = u # us"
    using ready qw qr by (simp add: wake_queues_def split: list.splits)
  have lk: "linked s2 (wake_queues TidLock q1)" using s2(2) by (simp add: sched_ok_def)
  have tc: "t \<notin> set (wake_queues TidLock q1 ReadyList)" "current_task s2 = Some t"
      "\<forall>k\<in>dom (locks s2). t \<notin> set (wake_queues TidLock q1 (Waiters k))"
    using s2(1,2) c by (auto simp: sched_ok_def off_lists_ready)
  have tw: "t \<notin> set (q (Waiters TidLock))"
    using ok c l by (auto simp: sched_ok_def off_lists_ready)
  then have ut: "u \<noteq> t" "t2 t = Some (ts\<lparr>status := TASK_DIED\<rparr>)"
    using tc(1) ready1 s2(4) qw by auto
  have e2: "interrupt_enable s2 = s2" using s2(1) by (simp add: interrupt_enable_def)
  obtain h3 tu where d: "tasks s2 u = Some tu"
      "linked_cells (valid_lists s2) (dom (tasks s2)) h3 ((wake_queues TidLock q1)(ReadyList := us))"
      "died_task_schedule s2 = Inr (s2\<lparr>cells := h3, task_tag := Some (GeneralTag u),
        current_task := Some u, tasks := (tasks s2)(u \<mapsto> tu\<lparr>status := TASK_RUNNING\<rparr>),
        cpu := fst (context_load (tcontext tu) (cpu s2, mem s2)),
        mem := snd (context_load (tcontext tu) (cpu s2, mem s2))\<rparr>)" (is "_ = Inr ?s3")
    using died_run [OF lk ready1] by blast
  have td: "tasks ?s3 t = Some (ts\<lparr>status := TASK_DIED\<rparr>)" using ut s2(1) by simp
  have dt: "dom (tasks ?s3) = dom (tasks s)" using s2(1,3) d(1) t by auto
  have tf: "tasks s u = Some tu \<and>
      tasks ?s3 = (tasks s)(t \<mapsto> ts\<lparr>status := TASK_DIED\<rparr>, u \<mapsto> tu\<lparr>status := TASK_RUNNING\<rparr>)"
    if "q (Waiters TidLock) = []"
  proof -
    have "t2 v = tasks ?s1 v" for v using s2(4) [of v] qw that by simp
    then have "t2 = tasks ?s1" by (rule ext)
    then show ?thesis using d(1) ut(1) s2(1) by simp
  qed
  have dn: "distinct (u # us)"
    using linked_distinct [OF lk [unfolded linked_def], of ReadyList] ready1 by simp
  have "sched_ok ?s3 ((wake_queues TidLock q1)(ReadyList := us))"
  proof (rule sched_ok_switch [OF s2(2) tc(2)])
    show "linked ?s3 ((wake_queues TidLock q1)(ReadyList := us))"
      using d(1,2) by (simp add: linked_def valid_lists_def insert_absorb domI)
    show "u \<notin> set (((wake_queues TidLock q1)(ReadyList := us)) ReadyList)"
      using dn by simp
  qed (use d(1) tc ready1 ut dn in \<open>auto simp: has_status_def\<close>)
  moreover have "task_exit t s = Leave ?s3"
    using un(1) rel(1) d(3) e2 by (simp add: task_exit_def task_at_def)
  ultimately show ?thesis
    using td s2(1) rel(3,4) dt tf unfolding q1_def [symmetric]
    by (intro exI [of _ ?s3] exI [of _ b] exI [of _ "tu\<lparr>status := TASK_RUNNING\<rparr>"])
      (simp add: has_status_def)
qed

section \<open>Looking a task up\<close>

lemma find_map: "find P (map f xs) = map_option f (find (P \<circ> f) xs)"
  by (induction xs) auto

lemma tid2task_find:
  assumes "linked s q"
  shows "tid2task td s =
    Inr (find (\<lambda>t. \<exists>ts. tasks s t = Some ts \<and> scast (tid ts) = (scast td :: 32 word)) (q AllList))"
proof -
  have l: "linked_cells (valid_lists s) (dom (tasks s)) (cells s) q"
    using assms by (simp add: linked_def)
  have co: "cell_of AllList = AllListTag" by (simp add: fun_eq_iff)
  define P where "P t \<longleftrightarrow> (\<exists>ts. tasks s t = Some ts \<and> scast (tid ts) = (scast td :: 32 word))" for t
  have "tid_check s (Some (AllListTag t)) (scast td) = Inr (P t)" if "t \<in> set (q AllList)" for t
    using linked_subset [OF l, of AllList] that by (auto simp: tid_check_def step_simps P_def)
  then have "list_traversal (list_at AllList) (tid_check s) (scast td) (cells s) =
      Inr (find (\<lambda>e. case e of AllListTag t \<Rightarrow> P t | _ \<Rightarrow> False) (lview q AllList))"
    by (intro list_traversal_spec heap_lists_dll [OF linked_heap [OF l]]) (auto simp: lview_def)
  also have "find (\<lambda>e. case e of AllListTag t \<Rightarrow> P t | _ \<Rightarrow> False) (lview q AllList) =
      map_option AllListTag (find P (q AllList))"
    by (simp add: lview_def find_map comp_def co)
  finally show ?thesis unfolding P_def [symmetric]
    by (cases "find P (q AllList)") (simp_all add: tid2task_def)
qed

lemma scast_16_32_inj: "scast (a :: 16 word) = (scast b :: 32 word) \<longleftrightarrow> a = b"
proof -
  have "sint (scast w :: 32 word) = sint w" for w :: "16 word"
    using sint_greater_eq [of w] sint_less [of w]
    by (simp add: signed_scast_eq signed_take_bit_int_eq_self)
  then show ?thesis by (metis signed_word_eqI)
qed

section \<open>Cleaning the pool\<close>

lemma clean_step_run:
  assumes ok: "sched_ok s q" and p: "q PoolList = t # ts"
    and off: "\<forall>i\<in>valid_lists s. i \<noteq> PoolList \<longrightarrow> t \<notin> set (q i)" and nc: "current_task s \<noteq> Some t"
  shows "\<exists>h. clean_step s = Inr (s\<lparr>cells := h, task_tag := Some (PoolTag t),
      tasks := (tasks s)(t := None)\<rparr>) \<and>
    sched_ok (s\<lparr>cells := h, task_tag := Some (PoolTag t), tasks := (tasks s)(t := None)\<rparr>)
      (q(PoolList := ts))"
proof -
  have l: "linked_cells (valid_lists s) (dom (tasks s)) (cells s) q"
    using ok by (simp add: sched_ok_def linked_def)
  obtain tk where tk: "tasks s t = Some tk" using linked_subset [OF l, of PoolList] p by auto
  obtain h where h: "list_pop (list_at PoolList) (cells s) = Inr (Some (PoolTag t), h)"
      "linked_cells (valid_lists s) (dom (tasks s)) h (q(PoolList := ts))"
    using linked_pop [OF l _ p] by auto
  have "t \<notin> set ts" using linked_distinct [OF l, of PoolList] p by simp
  then have "\<forall>i\<in>valid_lists s. t \<notin> set ((q(PoolList := ts)) i)" using off by simp
  from linked_free_tags [OF h(2) this]
  have l2: "linked_cells (valid_lists s) (dom (tasks s) - {t}) (free_tags t h) (q(PoolList := ts))" .
  let ?s' = "s\<lparr>cells := free_tags t h, task_tag := Some (PoolTag t), tasks := (tasks s)(t := None)\<rparr>"
  have "clean_step s = Inr ?s'" using h(1) tk by (simp add: clean_step_def free_task_def step_simps)
  moreover have "linked ?s' (q(PoolList := ts))"
    using l2 by (simp add: linked_def valid_lists_def)
  then have "sched_ok ?s' (q(PoolList := ts))"
    using ok off nc by (auto simp: sched_ok_def has_status_def off_lists_def valid_lists_def)
  ultimately show ?thesis by blast
qed

lemma clean_loop_stop:
  assumes "linked s q" and "q PoolList \<noteq> []" and "c \<noteq> 0"
  shows "clean_loop c s = Some (Inr s)"
  using linked_empty [of "valid_lists s" _ _ q PoolList] assms
  by (subst clean_loop.simps) (simp add: linked_def is_empty_def)

lemma clean_loop_empty:
  assumes "linked s q" and "q PoolList = []"
  shows "clean_loop c s = Some (Inl Null_Deref)"
proof -
  have l: "linked_cells (valid_lists s) (dom (tasks s)) (cells s) q"
    using assms by (simp add: linked_def)
  have "clean_step s = Inl Null_Deref"
    using linked_pop_none [OF l, of PoolList] assms(2) by (simp add: clean_step_def pop_cell_def)
  then show ?thesis
    using linked_empty [OF l, of PoolList] assms(2)
    by (subst clean_loop.simps) (simp add: is_empty_def)
qed

lemma clean_loop_zero:
  assumes "linked s q" and "q PoolList \<noteq> []" and "clean_step s = Inr s'"
  shows "clean_loop 0 s = clean_loop (- 1) s'"
  using linked_empty [of "valid_lists s" _ _ q PoolList] assms
  by (subst clean_loop.simps) (simp add: linked_def is_empty_def)

lemma clean_many:
  assumes ok: "sched_ok s q" and p: "q PoolList = t # ts" and n: "8 \<le> sint (task_all_nums s)"
  shows "clean_dead_task s = Inr s"
proof -
  have lk: "linked s q" using ok by (simp add: sched_ok_def)
  have e: "is_empty PoolList s = Inr False"
    using linked_empty [of "valid_lists s" _ _ q PoolList] lk p by (simp add: linked_def is_empty_def)
  have "sint (task_all_nums s) sdiv 8 \<noteq> 0" using n by (simp add: signed_divide_int_def sgn_if)
  then show ?thesis
    using clean_loop_stop [OF lk] p e by (simp add: clean_dead_task_def Let_def)
qed

lemma clean_few:
  assumes ok: "sched_ok s q" and p: "q PoolList = [t]"
    and off: "\<forall>i\<in>valid_lists s. i \<noteq> PoolList \<longrightarrow> t \<notin> set (q i)" and nc: "current_task s \<noteq> Some t"
    and n: "0 \<le> sint (task_all_nums s)" "sint (task_all_nums s) < 8"
  shows "clean_dead_task s = Inl Null_Deref"
proof -
  have lk: "linked s q" using ok by (simp add: sched_ok_def)
  have e: "is_empty PoolList s = Inr False"
    using linked_empty [of "valid_lists s" _ _ q PoolList] lk p by (simp add: linked_def is_empty_def)
  obtain u where u: "clean_step s = Inr u" "sched_ok u (q(PoolList := []))"
    using clean_step_run [OF ok p off nc] by blast
  have "sint (task_all_nums s) sdiv 8 = 0" using n by (simp add: signed_divide_int_def)
  moreover have "clean_loop 0 s = clean_loop (- 1) u" using clean_loop_zero [OF lk _ u(1)] p by simp
  moreover have "clean_loop (- 1) u = Some (Inl Null_Deref)"
    using clean_loop_empty [of u "q(PoolList := [])"] u(2) by (simp add: sched_ok_def)
  ultimately show ?thesis using e by (simp add: clean_dead_task_def Let_def)
qed

lemma task_exit_idle:
  assumes ok: "sched_ok s q" and c: "current_task s = Some t" and t: "tasks s t = Some ts"
    and "t \<in> set (q AllList)" and "t \<notin> set (q PoolList)"
    and l: "locks s TidLock = Some free_lock" and w: "q (Waiters TidLock) = []"
    and m: "pool_map n (tid_bitmap s)" "unat (scast (tid ts) - tid_start s) < n"
    and ready: "q ReadyList = []"
  shows "task_exit t s = Fail Idle_Spin"
proof -
  define q1 where "q1 = exit_queues (Some t = main_task s) t q"
  from task_exit_unlink_run [OF ok c t assms(4,5)] obtain h where un: "task_exit_unlink t s =
      Inr (s\<lparr>cells := h, tasks := (tasks s)(t \<mapsto> ts\<lparr>status := TASK_DIED\<rparr>),
        task_all_nums := task_all_nums s - 1, blocked := True\<rparr>)"
      "sched_ok (s\<lparr>cells := h, tasks := (tasks s)(t \<mapsto> ts\<lparr>status := TASK_DIED\<rparr>),
        task_all_nums := task_all_nums s - 1, blocked := True\<rparr>) q1"
    unfolding q1_def by blast
  let ?s1 = "s\<lparr>cells := h, tasks := (tasks s)(t \<mapsto> ts\<lparr>status := TASK_DIED\<rparr>),
    task_all_nums := task_all_nums s - 1, blocked := True\<rparr>"
  have l1: "locks ?s1 TidLock = Some free_lock" using l by simp
  obtain u b where rel: "release_tid (tid ts) ?s1 = Done () u" "pool_step ?s1 q1 b u"
    using release_tid_run [OF un(2) l1, of n "tid ts"] m by auto
  have "q1 (Waiters TidLock) = []" "q1 ReadyList = []" using w ready by (simp_all add: q1_def)
  then have "wake_queues TidLock q1 ReadyList = []" by (simp add: wake_queues_def)
  moreover have "linked (interrupt_enable u) (wake_queues TidLock q1)"
    using rel(2) by (subst linked_frame [of _ u])
      (auto simp: pool_step_def sched_ok_def interrupt_enable_def)
  ultimately have "died_task_schedule (interrupt_enable u) = Inl Idle_Spin"
    using ready_empty by (simp add: died_task_schedule_def)
  then show ?thesis using un(1) rel(1) by (simp add: task_exit_def task_at_def)
qed

section \<open>Starting the library\<close>

text \<open>
  Before \<open>task_init\<close>: no task, the locks that exist have empty wait lists, the sentinels are
  static variables, the tid pool is not initialised.
\<close>

definition boot_state :: "sys \<Rightarrow> bool" where
  "boot_state s \<longleftrightarrow> tasks s = Map.empty \<and> TidLock \<notin> dom (locks s) \<and>
     (\<forall>i. HeadOf i \<in> dom (cells s) \<and> TailOf i \<in> dom (cells s)) \<and>
     heap_lists list_at (Waiters ` dom (locks s)) (cells s) (\<lambda>_. [])"

lemma boot_list_init:
  assumes "heap_lists list_at D h (\<lambda>_. [])" and "i \<notin> D"
    and "\<forall>i. HeadOf i \<in> dom h \<and> TailOf i \<in> dom h"
  shows "\<exists>h'. list_init (list_at i) h = Inr h' \<and>
    heap_lists list_at (insert i D) h' (\<lambda>_. []) \<and>
    (\<forall>i. HeadOf i \<in> dom h' \<and> TailOf i \<in> dom h')"
proof -
  have "free_cell list_at D h (\<lambda>_. []) (HeadOf i)" "free_cell list_at D h (\<lambda>_. []) (TailOf i)"
    using assms(2,3) by (auto simp: free_cell_def list_cells_def)
  then obtain h' where "list_init (list_at i) h = Inr h'"
      "heap_lists list_at (insert i D) h' ((\<lambda>_. [])(i := []))" "dom h' = dom h"
    using hl_init [OF assms(1,2)] by auto
  moreover have "((\<lambda>_. [])(i := [])) = (\<lambda>_. [] :: cell list)" by auto
  ultimately show ?thesis using assms(3) by auto
qed

lemma tid_pool_init_run:
  assumes "heap_lists list_at D (cells s) (\<lambda>_. [])" and "Waiters TidLock \<notin> D"
    and "\<forall>i. HeadOf i \<in> dom (cells s) \<and> TailOf i \<in> dom (cells s)"
  shows "\<exists>h b. tid_pool_init s = Inr (s\<lparr>cells := h, tid_bitmap := b, tid_start := 1,
      locks := (locks s)(TidLock \<mapsto> free_lock)\<rparr>) \<and>
    heap_lists list_at (insert (Waiters TidLock) D) h (\<lambda>_. []) \<and>
    pool_map 1000800 b \<and> (\<forall>i. \<not> bit_of b i)"
proof -
  let ?b0 = "\<lparr>btmp_bytes_len = 125100, bits = tid_bitmap_bits\<rparr>"
  have n: "nbits ?b0 = 1000800" and "wf_bitmap ?b0"
    by (simp_all add: nbits_def wf_bitmap_def tid_bitmap_bits_def)
  then obtain b where b: "bitmap_init ?b0 = Inr b" "wf_bitmap b" "nbits b = nbits ?b0"
      "\<forall>i. \<not> bit_of b i"
    using bitmap_init_spec by blast
  obtain h where h: "list_init (list_at (Waiters TidLock)) (cells s) = Inr h"
      "heap_lists list_at (insert (Waiters TidLock) D) h (\<lambda>_. [])"
    using boot_list_init [OF assms] by blast
  show ?thesis
    using b h by (intro exI [of _ h] exI [of _ b])
      (simp add: tid_pool_init_def lock_init_def sema_init_def step_simps free_lock_def
        pool_map_def n)
qed

text \<open>The queues of a state whose only task is the main task.\<close>

definition main_queues :: "nat \<Rightarrow> list_id \<Rightarrow> nat list" where
  "main_queues t = (\<lambda>_. [])(AllList := [t])"

lemma lview_nil: "lview (\<lambda>_. []) = (\<lambda>_. [])"
  by (simp add: lview_def fun_eq_iff)

text \<open>The state in which the main program is the only task.\<close>

definition main_only :: "alloc_env \<Rightarrow> nat \<Rightarrow> sys \<Rightarrow> bool" where
  "main_only env t s \<longleftrightarrow> sched_ok s (main_queues t) \<and> current_task s = Some t \<and>
     main_task s = Some t \<and> dom (tasks s) = {t} \<and>
     tasks s t = Some (fresh_task env ''main'' 3 1 TASK_RUNNING False) \<and>
     task_all_nums s = 1 \<and> \<not> blocked s \<and> tid_start s = 1 \<and>
     pool_map 1000800 (tid_bitmap s) \<and> (\<forall>i. bit_of (tid_bitmap s) i = (i = 0))"

lemma make_main_task_run:
  assumes h: "heap_lists list_at (valid_lists s) (cells s) (\<lambda>_. [])" and t0: "tasks s = Map.empty"
    and l: "locks s TidLock = Some free_lock" and env: "new_task env = Some t"
    and b: "pool_map 1000800 (tid_bitmap s)" "\<forall>i. \<not> bit_of (tid_bitmap s) i" "tid_start s = 1"
    and z: "task_all_nums s = 0"
  shows "\<exists>s'. make_main_task env s = Done () s' \<and> main_only env t s' \<and> locks s' = locks s \<and>
    cpu s' = cpu s \<and> mem s' = mem s \<and> timers s' = timers s"
proof -
  let ?s0 = "s\<lparr>main_task := Some t\<rparr>" and ?q = "(\<lambda>_. []) :: list_id \<Rightarrow> nat list"
  let ?s1 = "?s0\<lparr>tasks := (tasks ?s0)(t \<mapsto> head_task ''main'' TASK_RUNNING False),
    cells := clear_tags t (cells ?s0), current_task := Some t\<rparr>"
  have head: "init_task_head t ''main'' ?s0 = Inr ?s1"
    by (rule init_task_head_main) simp_all
  have "linked_cells (valid_lists s) {} (cells s) ?q"
    using h by (simp add: linked_cells_def lview_nil)
  from linked_clear_tags [OF this, of t] have "linked ?s1 ?q"
    using t0 by (simp add: linked_def valid_lists_def)
  then have "sched_ok ?s1 ?q" by (simp add: sched_ok_def off_lists_ready)
  from init_task_run [OF head this, where n = 1000800 and m = 0 and st = TASK_RUNNING and f = False
      and env = env and prio = 3] t0 l b
  obtain s2 b2 where s2: "init_task env (Some t) ''main'' 3 ?s0 = Done t s2"
      "sched_ok s2 (wake_queues TidLock ?q)" "current_task s2 = Some t"
      "task_all_nums s2 = task_all_nums s" "pool_map 1000800 b2" "\<forall>i. bit_of b2 i = (i = 0)"
      "added_task ?s0 ?q b2 t (fresh_task env ''main'' 3 1 TASK_RUNNING False) s2"
    by auto
  have wq: "wake_queues TidLock ?q = ?q" by (simp add: wake_queues_def)
  have l2: "linked_cells (valid_lists s2) (dom (tasks s2)) (cells s2) ?q"
    using s2(2) wq by (simp add: sched_ok_def linked_def)
  obtain h where h: "list_append (list_at AllList) (AllListTag t) (cells s2) = Inr h"
      "linked_cells (valid_lists s2) (dom (tasks s2)) h (main_queues t)"
    using linked_append [OF l2, of AllList t] s2(7)
    by (auto simp: added_task_def off_lists_def main_queues_def)
  let ?s3 = "s2\<lparr>cells := h, task_all_nums := task_all_nums s + 1\<rparr>"
  have "elem_find (list_at AllList) (AllListTag t) (cells s2) = Inr False"
    using linked_find [OF l2, of AllList t] by simp
  then have "make_main_task env s = Done () ?s3"
    using s2(1,4) h(1) env by (simp add: make_main_task_def step_simps)
  moreover have "sched_ok ?s3 (main_queues t)"
    using h(2) s2(3,7) by (simp add: sched_ok_def linked_def valid_lists_def main_queues_def
        added_task_def off_lists_def)
  ultimately show ?thesis
    using s2(3-7) b(3) t0 z
    by (intro exI [of _ ?s3]) (simp add: added_task_def main_only_def)
qed

lemma task_init_run:
  assumes boot: "boot_state s" and env: "new_task env = Some t"
  shows "\<exists>s'. task_init env s = Done () s' \<and> main_only env t s' \<and>
    locks s' = (locks s)(TidLock \<mapsto> free_lock) \<and> cpu s' = cpu s \<and> mem s' = mem s \<and>
    timers s' = timers s"
proof -
  let ?W = "Waiters ` dom (locks s)"
  have b: "heap_lists list_at ?W (cells s) (\<lambda>_. [])" "tasks s = Map.empty" "TidLock \<notin> dom (locks s)"
      "\<forall>i. HeadOf i \<in> dom (cells s) \<and> TailOf i \<in> dom (cells s)"
    using boot by (auto simp: boot_state_def)
  obtain h1 where h1: "list_init (list_at ReadyList) (cells s) = Inr h1"
      "heap_lists list_at (insert ReadyList ?W) h1 (\<lambda>_. [])"
      "\<forall>i. HeadOf i \<in> dom h1 \<and> TailOf i \<in> dom h1"
    using boot_list_init [OF b(1) _ b(4), of ReadyList] by auto
  obtain h2 where h2: "list_init (list_at AllList) h1 = Inr h2"
      "heap_lists list_at (insert AllList (insert ReadyList ?W)) h2 (\<lambda>_. [])"
      "\<forall>i. HeadOf i \<in> dom h2 \<and> TailOf i \<in> dom h2"
    using boot_list_init [OF h1(2) _ h1(3), of AllList] by auto
  obtain h3 where h3: "list_init (list_at PoolList) h2 = Inr h3"
      "heap_lists list_at (insert PoolList (insert AllList (insert ReadyList ?W))) h3 (\<lambda>_. [])"
      "\<forall>i. HeadOf i \<in> dom h3 \<and> TailOf i \<in> dom h3"
    using boot_list_init [OF h2(2) _ h2(3), of PoolList] by auto
  let ?s3 = "s\<lparr>cells := h3, task_all_nums := 0\<rparr>"
  have hl3: "heap_lists list_at (insert PoolList (insert AllList (insert ReadyList ?W))) (cells ?s3) (\<lambda>_. [])"
      "Waiters TidLock \<notin> insert PoolList (insert AllList (insert ReadyList ?W))"
      "\<forall>i. HeadOf i \<in> dom (cells ?s3) \<and> TailOf i \<in> dom (cells ?s3)"
    using h3(2,3) b(3) by auto
  obtain h b2 where p: "tid_pool_init ?s3 = Inr (?s3\<lparr>cells := h, tid_bitmap := b2, tid_start := 1,
        locks := (locks ?s3)(TidLock \<mapsto> free_lock)\<rparr>)"
      "heap_lists list_at (insert (Waiters TidLock)
        (insert PoolList (insert AllList (insert ReadyList ?W)))) h (\<lambda>_. [])"
      "pool_map 1000800 b2" "\<forall>i. \<not> bit_of b2 i"
    using tid_pool_init_run [OF hl3] by blast
  let ?s4 = "?s3\<lparr>cells := h, tid_bitmap := b2, tid_start := 1,
        locks := (locks ?s3)(TidLock \<mapsto> free_lock)\<rparr>"
  have v: "insert (Waiters TidLock) (insert PoolList (insert AllList (insert ReadyList ?W))) =
      valid_lists ?s4"
    by (auto simp: valid_lists_def)
  have init: "task_init env s = make_main_task env ?s4"
    using h1(1) h2(1) h3(1) p(1) by (simp add: task_init_def step_simps)
  have "heap_lists list_at (valid_lists ?s4) (cells ?s4) (\<lambda>_. [])"
    using p(2) unfolding v by simp
  moreover have "tasks ?s4 = Map.empty" "locks ?s4 TidLock = Some free_lock"
      "pool_map 1000800 (tid_bitmap ?s4)" "\<forall>i. \<not> bit_of (tid_bitmap ?s4) i" "tid_start ?s4 = 1"
      "task_all_nums ?s4 = 0"
    using b(2) p(3,4) by simp_all
  ultimately obtain s' where "make_main_task env ?s4 = Done () s'" "main_only env t s'"
      "locks s' = locks ?s4" "cpu s' = cpu ?s4" "mem s' = mem ?s4" "timers s' = timers ?s4"
    using make_main_task_run [of ?s4 env t] env by blast
  with init show ?thesis by simp
qed

end
