(* ===== verification/Protocol.thy ===== *)
theory Protocol
  imports Sync
begin

text \<open>
  Any number of tasks using any number of locks, interleaved by \<open>schedule\<close>: where a task can
  be inside a call of \<open>sync.c\<close>, and a coarse step relation in which a resumed turn of the loop
  of \<open>sema_down\<close> is one step. The relation of the theorems is the one over single statements,
  in theory \<open>Interleave\<close>: there the alarm can come into a resumed turn too, because
  the turn runs with whatever mask the switch left. A run of the coarse relation is a run of the
  fine one in which that does not happen.
\<close>

section \<open>Configurations and steps\<close>

text \<open>
  \<open>phase\<close>: the statement of \<open>sync.c\<close> a task executes next, \<open>Running\<close> outside of the calls.
  \<open>Acquire\<close>: the test of the holder; \<open>Nested\<close>: the increment of the repeat count; \<open>Down\<close>: the
  call of \<open>sema_down\<close>; \<open>Waiting\<close>: the loop test, in a resumed task; \<open>Zero\<close>: the assertion in the
  loop; \<open>Absent\<close>: the second test; \<open>Sure\<close>: \<open>list_append\<close>; \<open>Queued\<close>: \<open>task_block\<close>; \<open>Passed\<close>:
  \<open>value--\<close>; \<open>Loaded\<close>: the store of that statement, with the value it loaded; \<open>Lowered\<close>: the
  assertion after it; \<open>Checked\<close>: \<open>interrupt_enable\<close>; \<open>Got\<close>: the assignment of the holder;
  \<open>Owned\<close>: the assertion of the count; \<open>Fresh\<close>: the assignment of the count.
  \<open>Release\<close>: the assertion of the holder; \<open>Held\<close>: the test of the count; \<open>Many\<close>: the
  decrement; \<open>Last\<close>: the assertion of the count; \<open>Sole\<close>: the clearing of the holder;
  \<open>Cleared\<close>: of the count; \<open>Gone\<close>: the call of \<open>sema_up\<close>; \<open>Woke\<close>: \<open>value++\<close>; \<open>Raised\<close>: the
  assertion after it; \<open>Upped\<close>: \<open>interrupt_enable\<close>.
\<close>

datatype phase = Running
  | Acquire lock_id | Nested lock_id | Down lock_id
  | Waiting lock_id | Zero lock_id | Absent lock_id | Sure lock_id | Queued lock_id
  | Passed lock_id | Loaded lock_id "8 word" | Lowered lock_id | Checked lock_id
  | Got lock_id | Owned lock_id | Fresh lock_id
  | Release lock_id | Held lock_id | Many lock_id | Last lock_id | Sole lock_id | Cleared lock_id
  | Gone lock_id | Woke lock_id | Raised lock_id | Upped lock_id

text \<open>\<open>depth\<close>: how often each task has acquired each lock and not released it.\<close>

record conf =
  machine :: sys
  phase_of :: "nat \<Rightarrow> phase"
  depth :: "nat \<Rightarrow> lock_id \<Rightarrow> nat"

definition set_depth :: "nat \<Rightarrow> lock_id \<Rightarrow> nat \<Rightarrow> (nat \<Rightarrow> lock_id \<Rightarrow> nat) \<Rightarrow> nat \<Rightarrow> lock_id \<Rightarrow> nat" where
  "set_depth c k n d = d(c := (d c)(k := n))"

inductive turn_step :: "conf \<Rightarrow> conf \<Rightarrow> bool" where
  again: "current_task s = Some c \<Longrightarrow> p c = Running \<Longrightarrow> locks s k = Some l \<Longrightarrow> holder l = Some c \<Longrightarrow>
    d c k < 2 ^ 32 - 1 \<Longrightarrow> lock_acquire k s = Done () s' \<Longrightarrow>
    turn_step \<lparr>machine = s, phase_of = p, depth = d\<rparr>
      \<lparr>machine = s', phase_of = p, depth = set_depth c k (Suc (d c k)) d\<rparr>"
| enter: "current_task s = Some c \<Longrightarrow> p c = Running \<Longrightarrow> locks s k = Some l \<Longrightarrow> holder l \<noteq> Some c \<Longrightarrow>
    sema_down k s = Done () s' \<Longrightarrow>
    turn_step \<lparr>machine = s, phase_of = p, depth = d\<rparr>
      \<lparr>machine = s', phase_of = p(c := Got k), depth = d\<rparr>"
| wait: "current_task s = Some c \<Longrightarrow> p c = Running \<Longrightarrow> locks s k = Some l \<Longrightarrow> holder l \<noteq> Some c \<Longrightarrow>
    sema_down k s = Switch s' r \<Longrightarrow>
    turn_step \<lparr>machine = s, phase_of = p, depth = d\<rparr>
      \<lparr>machine = s', phase_of = p(c := Waiting k), depth = d\<rparr>"
| resume: "current_task s = Some c \<Longrightarrow> p c = Waiting k \<Longrightarrow> sema_down_loop k s = Done () s' \<Longrightarrow>
    turn_step \<lparr>machine = s, phase_of = p, depth = d\<rparr>
      \<lparr>machine = s', phase_of = p(c := Got k), depth = d\<rparr>"
| wait_again: "current_task s = Some c \<Longrightarrow> p c = Waiting k \<Longrightarrow> sema_down_loop k s = Switch s' r \<Longrightarrow>
    turn_step \<lparr>machine = s, phase_of = p, depth = d\<rparr>
      \<lparr>machine = s', phase_of = p, depth = d\<rparr>"
| taken: "current_task s = Some c \<Longrightarrow> p c = Got k \<Longrightarrow> lock_taken k s = Inr s' \<Longrightarrow>
    turn_step \<lparr>machine = s, phase_of = p, depth = d\<rparr>
      \<lparr>machine = s', phase_of = p(c := Running), depth = set_depth c k 1 d\<rparr>"
| leave: "current_task s = Some c \<Longrightarrow> p c = Running \<Longrightarrow> locks s k = Some l \<Longrightarrow> holder l = Some c \<Longrightarrow>
    holder_repeat_nr l > 1 \<Longrightarrow> lock_release k s = Inr s' \<Longrightarrow>
    turn_step \<lparr>machine = s, phase_of = p, depth = d\<rparr>
      \<lparr>machine = s', phase_of = p, depth = set_depth c k (d c k - 1) d\<rparr>"
| drop: "current_task s = Some c \<Longrightarrow> p c = Running \<Longrightarrow> locks s k = Some l \<Longrightarrow> holder l = Some c \<Longrightarrow>
    holder_repeat_nr l = 1 \<Longrightarrow> lock_drop k s = Inr s' \<Longrightarrow>
    turn_step \<lparr>machine = s, phase_of = p, depth = d\<rparr>
      \<lparr>machine = s', phase_of = p(c := Gone k), depth = set_depth c k 0 d\<rparr>"
| up_wake: "current_task s = Some c \<Longrightarrow> p c = Gone k \<Longrightarrow> sema_up_wake k s = Inr s' \<Longrightarrow>
    turn_step \<lparr>machine = s, phase_of = p, depth = d\<rparr>
      \<lparr>machine = s', phase_of = p(c := Woke k), depth = d\<rparr>"
| up_raise: "current_task s = Some c \<Longrightarrow> p c = Woke k \<Longrightarrow> sema_up_raise k s = Inr s' \<Longrightarrow>
    turn_step \<lparr>machine = s, phase_of = p, depth = d\<rparr>
      \<lparr>machine = s', phase_of = p(c := Raised k), depth = d\<rparr>"
| up_done: "current_task s = Some c \<Longrightarrow> p c = Raised k \<Longrightarrow> sema_up_done k s = Inr s' \<Longrightarrow>
    turn_step \<lparr>machine = s, phase_of = p, depth = d\<rparr>
      \<lparr>machine = s', phase_of = p(c := Running), depth = d\<rparr>"
| preempt: "current_task s = Some c \<Longrightarrow> \<not> blocked s \<Longrightarrow> (\<forall>k. p c \<noteq> Waiting k) \<Longrightarrow>
    schedule frame s = Inr (frame', s') \<Longrightarrow>
    turn_step \<lparr>machine = s, phase_of = p, depth = d\<rparr>
      \<lparr>machine = s', phase_of = p, depth = d\<rparr>"

inductive_cases turn_stepE: "turn_step x y"

text \<open>A step moves the running task only.\<close>

lemma turn_step_phase: "turn_step x y \<Longrightarrow> phase_of y c \<noteq> phase_of x c \<Longrightarrow> current_task (machine x) = Some c"
  by (erule turn_stepE) (auto split: if_splits)

inductive turn_reachable :: "conf \<Rightarrow> conf \<Rightarrow> bool" for x where
  turn_start: "turn_reachable x x"
| turn_next: "turn_reachable x y \<Longrightarrow> turn_step y z \<Longrightarrow> turn_reachable x z"

text \<open>The start: no call in progress, no lock held, nobody waits.\<close>

definition quiet :: "sys \<Rightarrow> (list_id \<Rightarrow> nat list) \<Rightarrow> bool" where
  "quiet s q \<longleftrightarrow> sched_ok s q \<and>
     (\<forall>k l. locks s k = Some l \<longrightarrow> l = free_lock \<and> q (Waiters k) = [])"

definition begin_conf :: "sys \<Rightarrow> conf" where
  "begin_conf s = \<lparr>machine = s, phase_of = \<lambda>_. Running, depth = \<lambda>_ _. 0\<rparr>"

section \<open>The invariant\<close>

text \<open>
  A lock is free, or one task is in the middle of taking or releasing it, or a task holds it
  as often as it has acquired it.
\<close>

definition at_lock :: "lock_id \<Rightarrow> phase \<Rightarrow> bool" where
  "at_lock k p \<longleftrightarrow> p \<in> {Checked k, Got k, Owned k, Fresh k, Cleared k, Gone k, Woke k}"

lemma at_lock_simps [simp]:
  "\<not> at_lock k Running" "\<not> at_lock k (Acquire j)" "\<not> at_lock k (Nested j)" "\<not> at_lock k (Down j)"
  "\<not> at_lock k (Waiting j)" "\<not> at_lock k (Zero j)" "\<not> at_lock k (Absent j)" "\<not> at_lock k (Sure j)"
  "\<not> at_lock k (Queued j)" "\<not> at_lock k (Passed j)" "\<not> at_lock k (Loaded j v)"
  "\<not> at_lock k (Lowered j)" "at_lock k (Checked j) \<longleftrightarrow> j = k" "at_lock k (Got j) \<longleftrightarrow> j = k"
  "at_lock k (Owned j) \<longleftrightarrow> j = k" "at_lock k (Fresh j) \<longleftrightarrow> j = k" "\<not> at_lock k (Release j)"
  "\<not> at_lock k (Held j)" "\<not> at_lock k (Many j)" "\<not> at_lock k (Last j)" "\<not> at_lock k (Sole j)"
  "at_lock k (Cleared j) \<longleftrightarrow> j = k" "at_lock k (Gone j) \<longleftrightarrow> j = k" "at_lock k (Woke j) \<longleftrightarrow> j = k"
  "\<not> at_lock k (Raised j)" "\<not> at_lock k (Upped j)"
  by (auto simp: at_lock_def)

definition lock_state :: "lock_id \<Rightarrow> lock \<Rightarrow> (nat \<Rightarrow> phase) \<Rightarrow> (nat \<Rightarrow> nat) \<Rightarrow> bool" where
  "lock_state k l p dk \<longleftrightarrow>
     (l = free_lock \<and> (\<forall>c. \<not> at_lock k (p c)) \<and> (\<forall>c. dk c = 0)) \<or>
     (\<exists>c. l = taking_lock \<and> (\<forall>b. at_lock k (p b) \<longleftrightarrow> b = c) \<and> (\<forall>b. dk b = 0)) \<or>
     (\<exists>c n. l = held_lock c n \<and> n \<noteq> 0 \<and> (\<forall>b. \<not> at_lock k (p b)) \<and>
        dk c = unat n \<and> (\<forall>b. b \<noteq> c \<longrightarrow> dk b = 0))"

lemma lock_state_cong:
  "(\<And>b. at_lock k (p b) = at_lock k (p' b)) \<Longrightarrow> lock_state k l p dk = lock_state k l p' dk"
  by (simp add: lock_state_def)

text \<open>
  Who is on a wait list is inside the wait of that lock; who is inside the wait of a lock runs,
  is ready or is on its wait list.
\<close>

definition inv :: "conf \<Rightarrow> (list_id \<Rightarrow> nat list) \<Rightarrow> bool" where
  "inv x q \<longleftrightarrow> sched_ok (machine x) q \<and>
     (\<forall>k l. locks (machine x) k = Some l \<longrightarrow>
        lock_state k l (phase_of x) (\<lambda>c. depth x c k)) \<and>
     (\<forall>k\<in>dom (locks (machine x)). \<forall>c\<in>set (q (Waiters k)). phase_of x c = Waiting k) \<and>
     (\<forall>c k. phase_of x c = Waiting k \<longrightarrow> k \<in> dom (locks (machine x)) \<and>
        (current_task (machine x) = Some c \<or> c \<in> set (q ReadyList) \<or> c \<in> set (q (Waiters k)))) \<and>
     (\<forall>c k. at_lock k (phase_of x c) \<or> phase_of x c = Raised k \<longrightarrow> k \<in> dom (locks (machine x)))"

lemma invI:
  assumes "sched_ok s q"
    and "\<And>k l. locks s k = Some l \<Longrightarrow> lock_state k l p (\<lambda>c. d c k)"
    and "\<And>k c. k \<in> dom (locks s) \<Longrightarrow> c \<in> set (q (Waiters k)) \<Longrightarrow> p c = Waiting k"
    and "\<And>c k. p c = Waiting k \<Longrightarrow> k \<in> dom (locks s)"
    and "\<And>c k. p c = Waiting k \<Longrightarrow>
      current_task s = Some c \<or> c \<in> set (q ReadyList) \<or> c \<in> set (q (Waiters k))"
    and "\<And>c k. at_lock k (p c) \<or> p c = Raised k \<Longrightarrow> k \<in> dom (locks s)"
  shows "inv \<lparr>machine = s, phase_of = p, depth = d\<rparr> q"
  using assms unfolding inv_def conf.select_convs by blast

lemma invD:
  assumes "inv \<lparr>machine = s, phase_of = p, depth = d\<rparr> q"
  shows "sched_ok s q"
    and "locks s k = Some l \<Longrightarrow> lock_state k l p (\<lambda>c. d c k)"
    and "k \<in> dom (locks s) \<Longrightarrow> c \<in> set (q (Waiters k)) \<Longrightarrow> p c = Waiting k"
    and "p c = Waiting k \<Longrightarrow> k \<in> dom (locks s)"
    and "p c = Waiting k \<Longrightarrow>
      current_task s = Some c \<or> c \<in> set (q ReadyList) \<or> c \<in> set (q (Waiters k))"
    and "at_lock k (p c) \<or> p c = Raised k \<Longrightarrow> k \<in> dom (locks s)"
  using assms unfolding inv_def conf.select_convs by blast+

lemma inv_quiet:
  assumes "quiet s q"
  shows "inv (begin_conf s) q"
  using assms by (auto simp: quiet_def inv_def begin_conf_def lock_state_def)

section \<open>The functions, by the state of the lock\<close>

lemma down_loop_free:
  assumes "locks s k = Some free_lock"
  shows "sema_down_loop k s = Done () (s\<lparr>locks := (locks s)(k \<mapsto> taking_lock), blocked := False\<rparr>)"
  using sema_down_loop_free [OF assms] by (simp add: taking_lock_def free_lock_def)

lemma down_free:
  assumes "locks s k = Some free_lock"
  shows "sema_down k s = Done () (s\<lparr>locks := (locks s)(k \<mapsto> taking_lock), blocked := False\<rparr>)"
  using down_loop_free [of "interrupt_disable s" k] assms
  by (simp add: sema_down_def interrupt_disable_def)

text \<open>What a wait does: the queues move, the locks stay.\<close>

definition waited ::
  "lock_id \<Rightarrow> nat \<Rightarrow> bool \<Rightarrow> sys \<Rightarrow> (list_id \<Rightarrow> nat list) \<Rightarrow> sys \<Rightarrow> bool" where
  "waited k c m s q s' \<longleftrightarrow> (\<exists>n ns. q ReadyList = n # ns \<and> current_task s' = Some n \<and>
     sched_ok s' (q(ReadyList := ns, Waiters k := q (Waiters k) @ [c])) \<and> locks s' = locks s \<and>
     blocked s' = m)"

lemma down_loop_zero:
  assumes ok: "sched_ok s q" and l: "locks s k = Some l" "sema_value (sema l) = 0"
    and c: "current_task s = Some c"
  shows "sema_down_loop k s =
      (if q ReadyList = [] then Fail Idle_Spin
       else Switch (projr (sema_down_wait k s)) (sema_down_loop k)) \<and>
    (q ReadyList \<noteq> [] \<longrightarrow> waited k c (blocked s) s q (projr (sema_down_wait k s)))"
proof (cases "q ReadyList")
  case Nil
  have "k \<in> dom (locks s)" using l(1) by blast
  from sema_down_wait_idle [OF ok this Nil] show ?thesis
    using l Nil by (subst sema_down_loop.code) (simp add: lock_at_def)
next
  case (Cons n ns)
  have "k \<in> dom (locks s)" using l(1) by blast
  from sema_down_wait_ok [OF ok this Cons c] obtain s' where
    "sema_down_wait k s = Inr s'" "waited k c (blocked s) s q s'"
    using Cons by (auto simp: waited_def)
  then show ?thesis
    using l Cons by (subst sema_down_loop.code) (simp add: lock_at_def fun_eq_iff)
qed

lemma down_zero:
  assumes "sched_ok s q" and "locks s k = Some l" and "sema_value (sema l) = 0"
    and "current_task s = Some c"
  shows "(q ReadyList = [] \<and> sema_down k s = Fail Idle_Spin) \<or>
    (\<exists>s'. sema_down k s = Switch s' (sema_down_loop k) \<and> waited k c True s q s')"
proof -
  let ?s = "interrupt_disable s"
  have "sched_ok ?s q" using assms(1) by (subst sched_ok_frame [of _ s]) (auto simp: interrupt_disable_def)
  from down_loop_zero [OF this, of k l c] assms(2-4) show ?thesis
    by (auto simp: sema_down_def interrupt_disable_def waited_def split: if_splits)
qed

lemma sema_value_state:
  "lock_state k l p dk \<Longrightarrow> l = free_lock \<or> sema_value (sema l) = 0"
  by (auto simp: lock_state_def)

lemma holder_state:
  "lock_state k l p dk \<Longrightarrow> holder l = Some c \<Longrightarrow>
   l = held_lock c (holder_repeat_nr l) \<and> holder_repeat_nr l \<noteq> 0 \<and> (\<forall>b. \<not> at_lock k (p b)) \<and>
   dk c = unat (holder_repeat_nr l) \<and> (\<forall>b. b \<noteq> c \<longrightarrow> dk b = 0)"
  by (auto simp: lock_state_def)

lemma at_lock_state:
  "lock_state k l p dk \<Longrightarrow> at_lock k (p c) \<Longrightarrow>
   l = taking_lock \<and> (\<forall>b. at_lock k (p b) \<longleftrightarrow> b = c) \<and> (\<forall>b. dk b = 0)"
  by (auto simp: lock_state_def)

section \<open>Every step keeps the invariant\<close>

text \<open>A step that changes one lock, and lets no task go.\<close>

lemma wake_queues_waiters: "set (wake_queues k q (Waiters j)) \<subseteq> set (q (Waiters j))"
  by (auto simp: wake_queues_def split: list.split_asm if_splits)

lemma inv_lock_change:
  assumes i: "inv \<lparr>machine = s, phase_of = p, depth = d\<rparr> q"
    and c: "current_task s = Some c" and k: "k \<in> dom (locks s)"
    and pc: "p c = Running \<or> p c = Waiting k \<or> at_lock k (p c)"
    and x: "x = Running \<or> x = Raised k \<or> at_lock k x"
    and l: "lock_state k l' (p(c := x)) (\<lambda>b. if b = c then n else d b k)"
  shows "inv \<lparr>machine = s\<lparr>locks := (locks s)(k \<mapsto> l'), blocked := v\<rparr>,
      phase_of = p(c := x), depth = set_depth c k n d\<rparr> q"
proof -
  let ?s = "s\<lparr>locks := (locks s)(k \<mapsto> l'), blocked := v\<rparr>"
  note ok = invD(1) [OF i]
  show ?thesis
  proof (rule invI)
    show "sched_ok ?s q"
      using ok k by (subst sched_ok_frame [of _ s]) (auto simp: insert_absorb)
    show "lock_state j lj (p(c := x)) (\<lambda>b. set_depth c k n d b j)"
      if j: "locks ?s j = Some lj" for j lj
    proof (cases "j = k")
      case True
      then have "(\<lambda>b. set_depth c k n d b j) = (\<lambda>b. if b = c then n else d b k)"
        by (auto simp: set_depth_def fun_eq_iff)
      then show ?thesis using True j l by simp
    next
      case False
      then have "at_lock j ((p(c := x)) b) = at_lock j (p b)" for b
        using pc x by (auto simp: at_lock_def)
      moreover have "(\<lambda>b. set_depth c k n d b j) = (\<lambda>b. d b j)"
        using False by (auto simp: set_depth_def fun_eq_iff)
      moreover have "lock_state j lj p (\<lambda>b. d b j)" using invD(2) [OF i, of j lj] j False by simp
      ultimately show ?thesis by (simp add: lock_state_def)
    qed
    show "(p(c := x)) w = Waiting j" if j: "j \<in> dom (locks ?s)" "w \<in> set (q (Waiters j))" for j w
    proof -
      have "j \<in> dom (locks s)" using j(1) k by auto
      moreover from this have "w \<noteq> c" using ok c j(2) by (auto simp: sched_ok_def off_lists_ready)
      ultimately show ?thesis using invD(3) [OF i _ j(2)] by simp
    qed
    have pw: "p w = Waiting j" if "(p(c := x)) w = Waiting j" for w j
      using that x by (auto simp: at_lock_def split: if_splits)
    show "j \<in> dom (locks ?s)" if "(p(c := x)) w = Waiting j" for w j
      using invD(4) [OF i pw [OF that]] by simp
    show "current_task ?s = Some w \<or> w \<in> set (q ReadyList) \<or> w \<in> set (q (Waiters j))"
      if "(p(c := x)) w = Waiting j" for w j
      using invD(5) [OF i pw [OF that]] by simp
    show "j \<in> dom (locks ?s)" if "at_lock j ((p(c := x)) w) \<or> (p(c := x)) w = Raised j" for w j
      using that x k invD(6) [OF i, of j w] by (auto simp: at_lock_def split: if_splits)
  qed
qed

text \<open>A wait: the task goes to the end of the wait list and the next one runs.\<close>

lemma inv_waited:
  assumes i: "inv \<lparr>machine = s, phase_of = p, depth = d\<rparr> q"
    and c: "current_task s = Some c" and k: "locks s k = Some l" "sema_value (sema l) = 0"
    and pc: "p c = Running \<or> p c = Waiting k" and w: "waited k c m s q s'"
  shows "\<exists>q'. inv \<lparr>machine = s', phase_of = p(c := Waiting k), depth = d\<rparr> q'"
proof -
  obtain n ns where n: "q ReadyList = n # ns" "current_task s' = Some n" "locks s' = locks s"
      "sched_ok s' (q(ReadyList := ns, Waiters k := q (Waiters k) @ [c]))"
    using w by (auto simp: waited_def)
  let ?p = "p(c := Waiting k)" and ?q = "q(ReadyList := ns, Waiters k := q (Waiters k) @ [c])"
  have kd: "k \<in> dom (locks s)" using k(1) by blast
  have "inv \<lparr>machine = s', phase_of = ?p, depth = d\<rparr> ?q"
  proof (rule invI)
    show "sched_ok s' ?q" by (rule n(4))
    show "lock_state j lj ?p (\<lambda>b. d b j)" if j: "locks s' j = Some lj" for j lj
    proof -
      have "at_lock j (?p b) = at_lock j (p b)" for b using pc by auto
      then have "lock_state j lj ?p (\<lambda>b. d b j) = lock_state j lj p (\<lambda>b. d b j)"
        by (rule lock_state_cong)
      then show ?thesis using invD(2) [OF i, of j lj] j n(3) by simp
    qed
    show "?p w = Waiting j" if j: "j \<in> dom (locks s')" "w \<in> set (?q (Waiters j))" for j w
    proof (cases "w = c")
      case True
      then show ?thesis
        using j n(3) c invD(1) [OF i] by (auto simp: sched_ok_def off_lists_ready split: if_splits)
    next
      case False
      then have "w \<in> set (q (Waiters j))" using j(2) by (auto split: if_splits)
      then show ?thesis using invD(3) [OF i, of j w] j(1) n(3) False by simp
    qed
    show "j \<in> dom (locks s')" if "?p w = Waiting j" for w j
      using that kd invD(4) [OF i, of w j] n(3) by (auto split: if_splits)
    show "current_task s' = Some w \<or> w \<in> set (?q ReadyList) \<or> w \<in> set (?q (Waiters j))"
      if "?p w = Waiting j" for w j
      using that invD(5) [OF i, of w j] n(1,2) c by (auto split: if_splits)
    show "j \<in> dom (locks s')" if "at_lock j (?p w) \<or> ?p w = Raised j" for w j
      using that invD(6) [OF i, of j w] n(3) by (auto split: if_splits)
  qed
  then show ?thesis by blast
qed

text \<open>The first part of \<open>sema_up\<close>: a waiting task is woken.\<close>

lemma inv_up_wake:
  assumes i: "inv \<lparr>machine = s, phase_of = p, depth = d\<rparr> q"
    and c: "current_task s = Some c" and pc: "p c = Gone k" and up: "sema_up_wake k s = Inr s'"
  shows "inv \<lparr>machine = s', phase_of = p(c := Woke k), depth = d\<rparr> (wake_queues k q)"
proof -
  let ?p = "p(c := Woke k)" and ?q = "wake_queues k q"
  have "k \<in> dom (locks s)" using invD(6) [OF i, of k c] pc by simp
  then obtain l where lk: "locks s k = Some l" by blast
  have tk: "l = taking_lock" using at_lock_state [OF invD(2) [OF i lk], of c] pc by simp
  obtain h ts where s': "s' = s\<lparr>cells := h, tasks := ts, blocked := (q (Waiters k) = [])\<rparr>"
      "sched_ok s' ?q"
    using sema_up_wake_run [OF invD(1) [OF i], of k] lk tk up by auto
  have same: "at_lock j (?p b) = at_lock j (p b)" for b j using pc by auto
  show ?thesis
  proof (rule invI)
    show "sched_ok s' ?q" by (rule s'(2))
    show "lock_state j lj ?p (\<lambda>b. d b j)" if "locks s' j = Some lj" for j lj
      using invD(2) [OF i, of j lj] that s'(1) lock_state_cong [of j ?p p, OF same] by simp
    show "?p w = Waiting j" if j: "j \<in> dom (locks s')" "w \<in> set (?q (Waiters j))" for j w
    proof -
      have "p w = Waiting j"
        using invD(3) [OF i, of j w] j wake_queues_waiters [of k q j] s'(1) by auto
      then show ?thesis using pc by auto
    qed
    show "j \<in> dom (locks s')" if "?p w = Waiting j" for w j
      using that invD(4) [OF i, of w j] s'(1) by (auto split: if_splits)
    show "current_task s' = Some w \<or> w \<in> set (?q ReadyList) \<or> w \<in> set (?q (Waiters j))"
      if "?p w = Waiting j" for w j
      using that invD(5) [OF i, of w j] s'(1)
      by (auto simp: wake_queues_def split: if_splits list.split)
    show "j \<in> dom (locks s')" if "at_lock j (?p w) \<or> ?p w = Raised j" for w j
      using that invD(6) [OF i, of j w] s'(1) same by (auto split: if_splits)
  qed
qed

lemma inv_up_done:
  assumes i: "inv \<lparr>machine = s, phase_of = p, depth = d\<rparr> q"
    and pc: "p c = Raised k"
  shows "inv \<lparr>machine = s\<lparr>blocked := v\<rparr>, phase_of = p(c := Running), depth = d\<rparr> q"
proof (rule invI)
  let ?p = "p(c := Running)" and ?s = "s\<lparr>blocked := v\<rparr>"
  have same: "at_lock j (?p b) = at_lock j (p b)" for b j using pc by auto
  have pw: "p w = Waiting j" if "?p w = Waiting j" for w j using that by (auto split: if_splits)
  show "sched_ok ?s q" using invD(1) [OF i] by (subst sched_ok_frame [of _ s]) auto
  show "lock_state j lj ?p (\<lambda>b. d b j)" if "locks ?s j = Some lj" for j lj
    using invD(2) [OF i, of j lj] that lock_state_cong [of j ?p p, OF same] by simp
  show "?p w = Waiting j" if "j \<in> dom (locks ?s)" "w \<in> set (q (Waiters j))" for j w
    using invD(3) [OF i, of j w] that pc by auto
  show "j \<in> dom (locks ?s)" if "?p w = Waiting j" for w j
    using invD(4) [OF i pw [OF that]] by simp
  show "current_task ?s = Some w \<or> w \<in> set (q ReadyList) \<or> w \<in> set (q (Waiters j))"
    if "?p w = Waiting j" for w j
    using invD(5) [OF i pw [OF that]] by simp
  show "j \<in> dom (locks ?s)" if "at_lock j (?p w) \<or> ?p w = Raised j" for w j
    using that invD(6) [OF i, of j w] same by (auto split: if_splits)
qed

lemma inv_preempt:
  assumes i: "inv \<lparr>machine = s, phase_of = p, depth = d\<rparr> q"
    and c: "current_task s = Some c" and sch: "schedule frame s = Inr (frame', s')"
  shows "\<exists>q'. inv \<lparr>machine = s', phase_of = p, depth = d\<rparr> q'"
proof -
  let ?q = "q(ReadyList := tl (q ReadyList @ [c]))"
  have s': "sched_ok s' ?q" "current_task s' = Some (hd (q ReadyList @ [c]))" "locks s' = locks s"
    using schedule_ok [OF invD(1) [OF i] c, of frame] sch by auto
  have same: "current_task s' = Some w \<or> w \<in> set (?q ReadyList)"
    if "current_task s = Some w \<or> w \<in> set (q ReadyList)" for w
    using that c s'(2) by (cases "q ReadyList") auto
  have "inv \<lparr>machine = s', phase_of = p, depth = d\<rparr> ?q"
  proof (rule invI)
    show "sched_ok s' ?q" by (rule s'(1))
    show "current_task s' = Some w \<or> w \<in> set (?q ReadyList) \<or> w \<in> set (?q (Waiters j))"
      if "p w = Waiting j" for w j
      using invD(5) [OF i that] same [of w] by auto
    show "lock_state j lj p (\<lambda>b. d b j)" if "locks s' j = Some lj" for j lj
      using invD(2) [OF i] that s'(3) by simp
    show "p w = Waiting j" if "j \<in> dom (locks s')" "w \<in> set (?q (Waiters j))" for j w
      using invD(3) [OF i, of j w] that s'(3) by simp
    show "j \<in> dom (locks s')" if "p w = Waiting j" for w j
      using invD(4) [OF i that] s'(3) by simp
    show "j \<in> dom (locks s')" if "at_lock j (p w) \<or> p w = Raised j" for w j
      using invD(6) [OF i that] s'(3) by simp
  qed
  then show ?thesis by blast
qed

lemma unat_plus_one_less:
  fixes n :: "32 word"
  assumes "unat n < 2 ^ 32 - 1"
  shows "unat (n + 1) = Suc (unat n)" "n + 1 \<noteq> 0"
proof -
  have "Suc (unat n) < 2 ^ 32" using assms by simp
  then show "unat (n + 1) = Suc (unat n)" by (simp add: unat_word_ariths(1))
  then show "n + 1 \<noteq> 0" by (metis Suc_neq_Zero unsigned_0)
qed

text \<open>The steps of a task that holds a lock already.\<close>

lemma inv_nested:
  assumes i: "inv \<lparr>machine = s, phase_of = p, depth = d\<rparr> q"
    and c: "current_task s = Some c" and pc: "p c = Running"
    and l: "locks s k = Some l" "holder l = Some c" and m: "m \<noteq> 0"
    and s': "s' = s\<lparr>locks := (locks s)(k \<mapsto> held_lock c m)\<rparr>"
  shows "inv \<lparr>machine = s', phase_of = p, depth = set_depth c k (unat m) d\<rparr> q"
proof -
  note st = holder_state [OF invD(2) [OF i l(1)] l(2)]
  have "lock_state k (held_lock c m) (p(c := Running)) (\<lambda>b. if b = c then unat m else d b k)"
    using st m pc by (auto simp: lock_state_def)
  from inv_lock_change [OF i c _ _ _ this, of "blocked s"] show ?thesis
    using l pc s' by (auto simp: fun_upd_idem)
qed

lemma turn_step_inv:
  assumes "turn_step x y" and "inv x q"
  shows "\<exists>q'. inv y q'"
  using assms
proof (induction rule: turn_step.induct)
  case (again s c p k l d s')
  note st = holder_state [OF invD(2) [OF again(7,3)] again(4)]
  let ?n = "holder_repeat_nr l"
  have n: "unat (?n + 1) = Suc (d c k)" "?n + 1 \<noteq> 0"
    using unat_plus_one_less [of ?n] st again(5) by auto
  have "locks s k = Some (held_lock c ?n)" using again(3) st by simp
  from acquire_held_lock [OF this again(1)] again(6)
  have "s' = s\<lparr>locks := (locks s)(k \<mapsto> held_lock c (?n + 1))\<rparr>" by simp
  from inv_nested [OF again(7,1,2,3,4) n(2) this] show ?case unfolding n(1) by blast
next
  case (enter s c p k l s' d)
  have "l = free_lock"
    using sema_value_state [OF invD(2) [OF enter(6,3)]] down_zero [OF invD(1) [OF enter(6)] enter(3) _ enter(1)]
      enter(5) by auto
  then have s': "s' = s\<lparr>locks := (locks s)(k \<mapsto> taking_lock), blocked := False\<rparr>"
    and st: "lock_state k free_lock p (\<lambda>b. d b k)"
    using down_free [of s k] enter(3,5) invD(2) [OF enter(6,3)] by auto
  have "lock_state k taking_lock (p(c := Got k)) (\<lambda>b. if b = c then d c k else d b k)"
    using st by (auto simp: lock_state_def)
  from inv_lock_change [OF enter(6,1) _ _ _ this, of False] enter(2,3)
  show ?case unfolding s' by (auto simp: set_depth_def)
next
  case (wait s c p k l s' r d)
  have v: "sema_value (sema l) = 0"
  proof (rule ccontr)
    assume "sema_value (sema l) \<noteq> 0"
    then have "l = free_lock" using sema_value_state [OF invD(2) [OF wait(6,3)]] by blast
    then show False using down_free [of s k] wait(3,5) by simp
  qed
  then have "waited k c True s q s'"
    using down_zero [OF invD(1) [OF wait(6)] wait(3) v wait(1)] wait(5) by auto
  from inv_waited [OF wait(6,1,3) v _ this] show ?case using wait(2) by blast
next
  case (resume s c p k s' d)
  obtain l where l: "locks s k = Some l" using invD(4) [OF resume(4,2)] by blast
  have "l = free_lock"
    using sema_value_state [OF invD(2) [OF resume(4) l]]
      down_loop_zero [OF invD(1) [OF resume(4)] l _ resume(1)] resume(3) by (auto split: if_splits)
  then have s': "s' = s\<lparr>locks := (locks s)(k \<mapsto> taking_lock), blocked := False\<rparr>"
    and st: "lock_state k free_lock p (\<lambda>b. d b k)"
    using down_loop_free [of s k] l resume(3) invD(2) [OF resume(4) l] by auto
  have "lock_state k taking_lock (p(c := Got k)) (\<lambda>b. if b = c then d c k else d b k)"
    using st by (auto simp: lock_state_def)
  from inv_lock_change [OF resume(4,1) _ _ _ this, of False] resume(2) l
  show ?case unfolding s' by (auto simp: set_depth_def)
next
  case (wait_again s c p k s' r d)
  obtain l where l: "locks s k = Some l" using invD(4) [OF wait_again(4,2)] by blast
  have v: "sema_value (sema l) = 0"
  proof (rule ccontr)
    assume "sema_value (sema l) \<noteq> 0"
    then have "l = free_lock" using sema_value_state [OF invD(2) [OF wait_again(4) l]] by blast
    then show False using down_loop_free [of s k] l wait_again(3) by simp
  qed
  then have "waited k c (blocked s) s q s'"
    using down_loop_zero [OF invD(1) [OF wait_again(4)] l v wait_again(1)] wait_again(3)
    by (auto split: if_splits)
  from inv_waited [OF wait_again(4,1) l v _ this] wait_again(2) show ?case
    by (auto simp: fun_upd_idem)
next
  case (taken s c p k s' d)
  obtain l where l: "locks s k = Some l" using invD(6) [OF taken(4), of k c] taken(2) by auto
  note st = at_lock_state [OF invD(2) [OF taken(4) l], of c]
  have tk: "locks s k = Some taking_lock" using st taken(2) l by simp
  have s': "s' = s\<lparr>locks := (locks s)(k \<mapsto> held_lock c 1)\<rparr>"
    using lock_taken_run [OF tk taken(1)] taken(3) by simp
  have "lock_state k (held_lock c 1) (p(c := Running)) (\<lambda>b. if b = c then 1 else d b k)"
    using st taken(2) by (auto simp: lock_state_def)
  from inv_lock_change [OF taken(4,1) _ _ _ this, of "blocked s"] taken(2) l
  show ?case unfolding s' by auto
next
  case (leave s c p k l s' d)
  note st = holder_state [OF invD(2) [OF leave(7,3)] leave(4)]
  let ?n = "holder_repeat_nr l"
  have "unat (?n - 1) = d c k - 1" using st by (simp add: unat_minus_one)
  moreover have "?n - 1 \<noteq> 0" using leave(5) by auto
  moreover have "locks s k = Some (held_lock c ?n)" using leave(3) st by simp
  from release_nested [OF this leave(1,5)] leave(6)
  have "s' = s\<lparr>locks := (locks s)(k \<mapsto> held_lock c (?n - 1))\<rparr>" by simp
  ultimately show ?case using inv_nested [OF leave(7,1,2,3,4), of "?n - 1" s'] by auto
next
  case (drop s c p k l s' d)
  note st = holder_state [OF invD(2) [OF drop(7,3)] drop(4)]
  have hk: "locks s k = Some (held_lock c (holder_repeat_nr l))" using drop(3) st by simp
  have s': "s' = s\<lparr>locks := (locks s)(k \<mapsto> taking_lock)\<rparr>"
    using lock_drop_run [OF hk] drop(6) by simp
  have "lock_state k taking_lock (p(c := Gone k)) (\<lambda>b. if b = c then 0 else d b k)"
    using st by (auto simp: lock_state_def)
  from inv_lock_change [OF drop(7,1) _ _ _ this, of "blocked s"] drop(2,3)
  show ?case unfolding s' by auto
next
  case (up_wake s c p k s' d)
  from inv_up_wake [OF up_wake(4,1,2,3)] show ?case by blast
next
  case (up_raise s c p k s' d)
  obtain l where l: "locks s k = Some l" using invD(6) [OF up_raise(4), of k c] up_raise(2) by auto
  note st = at_lock_state [OF invD(2) [OF up_raise(4) l], of c]
  have "locks s k = Some taking_lock" using st up_raise(2) l by simp
  then have s': "s' = s\<lparr>locks := (locks s)(k \<mapsto> free_lock)\<rparr>"
    using sema_up_raise_run up_raise(3) by simp
  have "lock_state k free_lock (p(c := Raised k)) (\<lambda>b. if b = c then d c k else d b k)"
    using st up_raise(2) by (auto simp: lock_state_def)
  from inv_lock_change [OF up_raise(4,1) _ _ _ this, of "blocked s"] up_raise(2) l
  show ?case unfolding s' by (auto simp: set_depth_def)
next
  case (up_done s c p k s' d)
  obtain l where l: "locks s k = Some l" using invD(6) [OF up_done(4), of k c] up_done(2) by auto
  have "s' = s\<lparr>blocked := False\<rparr>"
    using sema_up_done_run [of s k l] up_done(3) l by (simp split: if_splits)
  then show ?case using inv_up_done [OF up_done(4,2), of False] by blast
next
  case (preempt s c p frame frame' s' d)
  from inv_preempt [OF preempt(5,1,4)] show ?case .
qed

lemma turn_reachable_inv:
  assumes "turn_reachable x y" and "inv x q"
  shows "\<exists>q'. inv y q'"
  using assms by (induction rule: turn_reachable.induct) (auto dest: turn_step_inv)

section \<open>Consequences\<close>

text \<open>\<open>c\<close> is inside the lock: it has got the semaphore and not given it back.\<close>

definition inside :: "conf \<Rightarrow> nat \<Rightarrow> lock_id \<Rightarrow> bool" where
  "inside x c k \<longleftrightarrow> at_lock k (phase_of x c) \<or>
     (\<exists>l. locks (machine x) k = Some l \<and> holder l = Some c)"

lemma inside_unique:
  assumes i: "inv x q" and "inside x b k" and "inside x c k"
  shows "b = c"
proof (cases x)
  case (fields s p d)
  note iv = i [unfolded fields]
  have "k \<in> dom (locks s)"
    using assms(2) invD(6) [OF iv, of k b] by (auto simp: inside_def fields)
  then obtain l where l: "locks s k = Some l" by blast
  show ?thesis
    using invD(2) [OF iv l] assms(2,3) l by (auto simp: inside_def fields lock_state_def)
qed

lemma depth_counts:
  assumes i: "inv x q" and l: "locks (machine x) k = Some l"
  shows "depth x c k = (if holder l = Some c then unat (holder_repeat_nr l) else 0)"
proof (cases x)
  case (fields s p d)
  show ?thesis
    using invD(2) [OF i [unfolded fields], of k l] l by (auto simp: fields lock_state_def)
qed

text \<open>
  What the functions do in a state of the protocol: none of their assertions fails, and the
  only way not to return is the idle loop of a wait when no task is ready.
\<close>

definition down_ok :: "sys \<Rightarrow> (sys, unit) run \<Rightarrow> bool" where
  "down_ok s r \<longleftrightarrow> (\<exists>s'. r = Done () s') \<or> (\<exists>s' f. r = Switch s' f) \<or>
     (r = Fail Idle_Spin \<and> is_empty ReadyList s = Inr True)"

lemma sched_ok_current: "sched_ok s q \<Longrightarrow> \<exists>c. current_task s = Some c"
  by (auto simp: sched_ok_def)

lemma down_loop_ok:
  assumes ok: "sched_ok s q" and l: "locks s k = Some l" "lock_state k l p dk"
  shows "down_ok s (sema_down_loop k s)"
proof (cases "l = free_lock")
  case True
  then show ?thesis using down_loop_free [of s k] l(1) by (auto simp: down_ok_def)
next
  case False
  then have v: "sema_value (sema l) = 0" using sema_value_state [OF l(2)] by blast
  obtain c where c: "current_task s = Some c" using sched_ok_current [OF ok] by blast
  have "q ReadyList = [] \<Longrightarrow> is_empty ReadyList s = Inr True"
    using ready_empty [of s q] ok by (simp add: sched_ok_def)
  then show ?thesis using down_loop_zero [OF ok l(1) v c] by (auto simp: down_ok_def)
qed

lemma down_start_ok:
  assumes ok: "sched_ok s q" and l: "locks s k = Some l" "lock_state k l p dk"
  shows "down_ok s (sema_down k s)"
proof -
  let ?s = "interrupt_disable s"
  have "sched_ok ?s q" using ok by (subst sched_ok_frame [of _ s]) (auto simp: interrupt_disable_def)
  from down_loop_ok [OF this, of k l p dk] l show ?thesis
    by (simp add: sema_down_def interrupt_disable_def down_ok_def is_empty_def)
qed

lemma protocol_runs:
  assumes i: "inv x q" and c: "current_task (machine x) = Some c"
  shows "(\<forall>k. phase_of x c = Got k \<longrightarrow> (\<exists>s'. lock_taken k (machine x) = Inr s'))"
    and "(\<forall>k. phase_of x c = Gone k \<longrightarrow> (\<exists>s'. sema_up_wake k (machine x) = Inr s'))"
    and "(\<forall>k. phase_of x c = Woke k \<longrightarrow> (\<exists>s'. sema_up_raise k (machine x) = Inr s'))"
    and "(\<forall>k. phase_of x c = Raised k \<longrightarrow> (if locks (machine x) k = Some free_lock
           then \<exists>s'. sema_up_done k (machine x) = Inr s'
           else sema_up_done k (machine x) = Inl Assert_Spin))"
    and "(\<forall>k. phase_of x c = Waiting k \<longrightarrow> down_ok (machine x) (sema_down_loop k (machine x)))"
    and "(\<forall>k\<in>dom (locks (machine x)). down_ok (machine x) (sema_down k (machine x)))"
    and "(\<forall>k l. locks (machine x) k = Some l \<and> holder l = Some c \<longrightarrow>
           (\<exists>s'. lock_release k (machine x) = Inr s'))"
proof -
  obtain s p d where x: "x = \<lparr>machine = s, phase_of = p, depth = d\<rparr>" by (cases x) auto
  note iv = i [unfolded x]
  have cs: "current_task s = Some c" using c x by simp
  have at: "locks s k = Some taking_lock" if a: "at_lock k (p c)" for k
  proof -
    obtain l where l: "locks s k = Some l" using invD(6) [OF iv] a by blast
    then show ?thesis using at_lock_state [OF invD(2) [OF iv l] a] by simp
  qed
  show "(\<forall>k. phase_of x c = Got k \<longrightarrow> (\<exists>s'. lock_taken k (machine x) = Inr s'))"
    using lock_taken_run [OF at cs] by (simp add: x)
  show "(\<forall>k. phase_of x c = Gone k \<longrightarrow> (\<exists>s'. sema_up_wake k (machine x) = Inr s'))"
    using sema_up_wake_run [OF invD(1) [OF iv] at] by (auto simp: x)
  show "(\<forall>k. phase_of x c = Woke k \<longrightarrow> (\<exists>s'. sema_up_raise k (machine x) = Inr s'))"
    using sema_up_raise_run [OF at] by (auto simp: x)
  show "(\<forall>k. phase_of x c = Raised k \<longrightarrow> (if locks (machine x) k = Some free_lock
      then \<exists>s'. sema_up_done k (machine x) = Inr s'
      else sema_up_done k (machine x) = Inl Assert_Spin))"
  proof (intro allI impI)
    fix k assume "phase_of x c = Raised k"
    then obtain l where l: "locks s k = Some l" using invD(6) [OF iv, of k c] by (auto simp: x)
    show "if locks (machine x) k = Some free_lock then \<exists>s'. sema_up_done k (machine x) = Inr s'
        else sema_up_done k (machine x) = Inl Assert_Spin"
      using sema_up_done_run [OF l] sema_value_state [OF invD(2) [OF iv l]] l by (auto simp: x)
  qed
  show "(\<forall>k. phase_of x c = Waiting k \<longrightarrow> down_ok (machine x) (sema_down_loop k (machine x)))"
    using invD(4) [OF iv, of c] down_loop_ok [OF invD(1) [OF iv] _ invD(2) [OF iv]] by (fastforce simp: x)
  show "(\<forall>k\<in>dom (locks (machine x)). down_ok (machine x) (sema_down k (machine x)))"
    using down_start_ok [OF invD(1) [OF iv] _ invD(2) [OF iv]] by (auto simp: x)
  show "(\<forall>k l. locks (machine x) k = Some l \<and> holder l = Some c \<longrightarrow>
      (\<exists>s'. lock_release k (machine x) = Inr s'))"
  proof (intro allI impI)
    fix k l assume h: "locks (machine x) k = Some l \<and> holder l = Some c"
    then have hl: "locks s k = Some l" "holder l = Some c" by (simp_all add: x)
    note st = holder_state [OF invD(2) [OF iv hl(1)] hl(2)]
    have hk: "locks s k = Some (held_lock c (holder_repeat_nr l))" using hl(1) st by simp
    show "\<exists>s'. lock_release k (machine x) = Inr s'"
    proof (cases "holder_repeat_nr l = 1")
      case True
      then show ?thesis using release_last [OF invD(1) [OF iv], of k c] hk cs by (auto simp: x)
    next
      case False
      then have "1 < holder_repeat_nr l"
        using st by (metis word_coorder.not_eq_extremum word_less_1 linorder_neqE)
      then show ?thesis using release_nested [OF hk cs] by (simp add: x)
    qed
  qed
qed

end
