(* ===== verification/Ioqueue.thy ===== *)
theory Ioqueue
  imports Sync "HOL-Library.Signed_Division"
begin

text \<open>
  \<open>device/ioqueue.c\<close>: a ring buffer of 64 bytes between producers and consumers, with a lock
  and one place each for a sleeping producer and a sleeping consumer. The second half relates
  it to the queue of the bytes in it.
\<close>

section \<open>The functions\<close>

definition ioq_at :: "sys \<Rightarrow> nat \<Rightarrow> ioqueue result" where
  "ioq_at s i = (case ioqs s i of None \<Rightarrow> Inl Bad_Access | Some q \<Rightarrow> Inr q)"

definition upd_ioq :: "nat \<Rightarrow> (ioqueue \<Rightarrow> ioqueue) \<Rightarrow> sys \<Rightarrow> sys result" where
  "upd_ioq i f s = andthen (ioq_at s i) (\<lambda>q. Inr (s\<lparr>ioqs := (ioqs s)(i \<mapsto> f q)\<rparr>))"

definition ioqueue_init :: "nat \<Rightarrow> sys \<Rightarrow> sys result" where
  "ioqueue_init i s =
     andthen (lock_init (IoqLock i) s) (\<lambda>s.
     andthen (upd_ioq i (\<lambda>q. q\<lparr>ioq_producer := None, ioq_consumer := None\<rparr>) s) (\<lambda>s.
     upd_ioq i (\<lambda>q. q\<lparr>ioq_head := 0, ioq_tail := 0\<rparr>) s))"

text \<open>The remainder of an \<open>int\<close>.\<close>

definition next_pos :: "32 word \<Rightarrow> 32 word" where
  "next_pos pos = word_of_int (sint (pos + 1) smod 64)"

definition ioq_full :: "ioqueue \<Rightarrow> bool" where
  "ioq_full q \<longleftrightarrow> next_pos (ioq_head q) = ioq_tail q"

definition ioq_empty :: "ioqueue \<Rightarrow> bool" where
  "ioq_empty q \<longleftrightarrow> ioq_head q = ioq_tail q"

text \<open>Which of the two places of the queue a task sleeps at.\<close>

datatype side = Producer | Consumer

fun sleeper :: "side \<Rightarrow> ioqueue \<Rightarrow> nat option" where
  "sleeper Producer q = ioq_producer q"
| "sleeper Consumer q = ioq_consumer q"

fun set_sleeper :: "side \<Rightarrow> nat option \<Rightarrow> ioqueue \<Rightarrow> ioqueue" where
  "set_sleeper Producer t q = q\<lparr>ioq_producer := t\<rparr>"
| "set_sleeper Consumer t q = q\<lparr>ioq_consumer := t\<rparr>"

text \<open>
  \<open>ioq_wait\<close> in two parts: the assertion and the store, and the call of \<open>task_block\<close> up to the
  switch to another task. An alarm can come between the two as far as the alarm is not masked.
\<close>

definition ioq_record :: "nat \<Rightarrow> side \<Rightarrow> sys \<Rightarrow> sys result" where
  "ioq_record i w s =
     andthen (ioq_at s i) (\<lambda>q.
     assert_c (sleeper w q = None) (
     upd_ioq i (set_sleeper w (current_task s)) s))"

definition ioq_wait :: "nat \<Rightarrow> side \<Rightarrow> sys \<Rightarrow> sys result" where
  "ioq_wait i w s = andthen (ioq_record i w s) (\<lambda>s. task_block_switch TASK_BLOCKED s)"

definition wakeup :: "nat \<Rightarrow> side \<Rightarrow> sys \<Rightarrow> sys result" where
  "wakeup i w s =
     andthen (ioq_at s i) (\<lambda>q.
     assert_c (sleeper w q \<noteq> None) (
     andthen (deref (sleeper w q)) (\<lambda>t.
     andthen (task_unblock t s) (\<lambda>s.
     upd_ioq i (set_sleeper w None) s))))"

text \<open>
  The loop \<open>while (cond) { lock_acquire; ioq_wait; lock_release; }\<close> of \<open>ioq_getchar\<close> and
  \<open>ioq_putchar\<close>. A pending part of it is at the test, inside \<open>lock_acquire\<close>, or behind the
  switch of \<open>ioq_wait\<close>.
\<close>

datatype sleep_job = Test sys | Acquiring "(sys, unit) run" | Waited sys

fun must_sleep :: "side \<Rightarrow> ioqueue \<Rightarrow> bool" where
  "must_sleep Producer q = ioq_full q"
| "must_sleep Consumer q = ioq_empty q"

fun sleep_acquire :: "nat \<Rightarrow> side \<Rightarrow> (sys, unit) run \<Rightarrow> (sys, unit, sleep_job) advance" where
  "sleep_acquire i w (Done _ s) = (case ioq_wait i w s of
       Inl e \<Rightarrow> Crashed e
     | Inr t \<Rightarrow> Suspended t (\<lambda>u. Waited u))"
| "sleep_acquire i w (Switch t k) = Suspended t (\<lambda>u. Acquiring (k u))"
| "sleep_acquire i w (Leave t) = Left t"
| "sleep_acquire i w (Fail e) = Crashed e"

definition sleep_test :: "nat \<Rightarrow> side \<Rightarrow> sys \<Rightarrow> (sys, unit, sleep_job) advance" where
  "sleep_test i w s = (case ioq_at s i of
       Inl e \<Rightarrow> Crashed e
     | Inr q \<Rightarrow>
         (if must_sleep w q then sleep_acquire i w (lock_acquire (IoqLock i) s) else Finished () s))"

fun sleep_advance :: "nat \<Rightarrow> side \<Rightarrow> sleep_job \<Rightarrow> (sys, unit, sleep_job) advance" where
  "sleep_advance i w (Test s) = sleep_test i w s"
| "sleep_advance i w (Acquiring m) = sleep_acquire i w m"
| "sleep_advance i w (Waited s) = (case lock_release (IoqLock i) s of
       Inl e \<Rightarrow> Crashed e
     | Inr s \<Rightarrow> sleep_test i w s)"

definition ioq_sleep :: "nat \<Rightarrow> side \<Rightarrow> sys \<Rightarrow> (sys, unit) run" where
  "ioq_sleep i w s = drive (sleep_advance i w) (Test s)"

text \<open>What the two functions do after the loop. The indices are checked against the array.\<close>

definition ioq_take :: "nat \<Rightarrow> sys \<Rightarrow> (8 word \<times> sys) result" where
  "ioq_take i s =
     andthen (ioq_at s i) (\<lambda>q.
     if unat (ioq_tail q) < length (ioq_buf q) then
       let byte = ioq_buf q ! unat (ioq_tail q) in
       andthen (upd_ioq i (\<lambda>q. q\<lparr>ioq_tail := next_pos (ioq_tail q)\<rparr>) s) (\<lambda>s.
       andthen (ioq_at s i) (\<lambda>q.
       andthen (if ioq_producer q \<noteq> None then wakeup i Producer s else Inr s) (\<lambda>s.
       Inr (byte, s))))
     else Inl Out_Of_Bounds)"

definition ioq_store :: "nat \<Rightarrow> 8 word \<Rightarrow> sys \<Rightarrow> sys result" where
  "ioq_store i byte s =
     andthen (ioq_at s i) (\<lambda>q.
     if unat (ioq_head q) < length (ioq_buf q) then
       andthen (upd_ioq i (\<lambda>q. q\<lparr>ioq_buf := (ioq_buf q)[unat (ioq_head q) := byte]\<rparr>) s) (\<lambda>s.
       andthen (upd_ioq i (\<lambda>q. q\<lparr>ioq_head := next_pos (ioq_head q)\<rparr>) s) (\<lambda>s.
       andthen (ioq_at s i) (\<lambda>q.
       if ioq_consumer q \<noteq> None then wakeup i Consumer s else Inr s)))
     else Inl Out_Of_Bounds)"

definition ioq_getchar :: "nat \<Rightarrow> sys \<Rightarrow> (sys, 8 word) run" where
  "ioq_getchar i s = bind_run (ioq_sleep i Consumer s) (\<lambda>_ s. lift_val (ioq_take i s))"

definition ioq_putchar :: "nat \<Rightarrow> 8 word \<Rightarrow> sys \<Rightarrow> (sys, unit) run" where
  "ioq_putchar i byte s = bind_run (ioq_sleep i Producer s) (\<lambda>_ s. lift_run (ioq_store i byte s))"

definition ioq_length :: "ioqueue \<Rightarrow> 32 word" where
  "ioq_length q =
     (if ioq_tail q \<le>s ioq_head q then ioq_head q - ioq_tail q
      else 64 - (ioq_tail q - ioq_head q))"

section \<open>The bytes in the queue\<close>

text \<open>
  \<open>ring_ok\<close>: the buffer has 64 bytes and both positions are inside it. \<open>contents\<close>: the bytes
  from the tail to the head.
\<close>

definition ring_ok :: "ioqueue \<Rightarrow> bool" where
  "ring_ok q \<longleftrightarrow> length (ioq_buf q) = 64 \<and> ioq_head q < 64 \<and> ioq_tail q < 64"

definition ring_count :: "ioqueue \<Rightarrow> nat" where
  "ring_count q = (unat (ioq_head q) + 64 - unat (ioq_tail q)) mod 64"

definition contents :: "ioqueue \<Rightarrow> 8 word list" where
  "contents q = map (\<lambda>n. ioq_buf q ! ((unat (ioq_tail q) + n) mod 64)) [0..<ring_count q]"

lemma sint_small:
  fixes w :: "32 word"
  assumes "unat w < 2147483648"
  shows "sint w = int (unat w)"
proof -
  have "uint w < 2147483648" using assms uint_nat [of w] by linarith
  moreover have "- 2147483648 \<le> uint w" using uint_ge_0 [of w] by linarith
  ultimately have "sint w = uint w" by (simp add: sint_uint signed_take_bit_int_eq_self)
  then show ?thesis by simp
qed

lemma next_pos_unat:
  assumes "pos < 64"
  shows "unat (next_pos pos) = Suc (unat pos) mod 64" "next_pos pos < 64"
proof -
  have u: "unat pos < 64" using assms by (simp add: word_less_nat_alt)
  then have "unat (pos + 1) = Suc (unat pos)" by (simp add: unat_word_ariths(1))
  then have "sint (pos + 1) = int (Suc (unat pos))" using u by (subst sint_small) simp_all
  moreover have "int n smod 64 = int (n mod 64)" for n
    by (cases "n = 0") (simp_all add: signed_modulo_int_def zmod_int)
  ultimately have "next_pos pos = of_nat (Suc (unat pos) mod 64)"
    unfolding next_pos_def by (simp only: of_int_of_nat_eq)
  then show n: "unat (next_pos pos) = Suc (unat pos) mod 64"
    by (simp add: unat_of_nat take_bit_nat_eq_self)
  then show "next_pos pos < 64" by (simp add: word_less_nat_alt)
qed

lemma ring_bounds:
  assumes "ring_ok q"
  shows "unat (ioq_head q) < 64" "unat (ioq_tail q) < 64" "length (ioq_buf q) = 64"
  using assms by (simp_all add: ring_ok_def word_less_nat_alt)

lemma ring_count_cases:
  assumes "ring_ok q"
  shows "ring_count q = (if unat (ioq_tail q) \<le> unat (ioq_head q)
    then unat (ioq_head q) - unat (ioq_tail q) else 64 - (unat (ioq_tail q) - unat (ioq_head q)))"
proof (cases "unat (ioq_tail q) \<le> unat (ioq_head q)")
  case True
  then have "unat (ioq_head q) + 64 - unat (ioq_tail q) = unat (ioq_head q) - unat (ioq_tail q) + 64"
    by simp
  then show ?thesis
    using True ring_bounds [OF assms] unfolding ring_count_def by (simp only: mod_add_self2) simp
next
  case False
  then show ?thesis using ring_bounds [OF assms] by (simp add: ring_count_def)
qed

lemma length_contents: "length (contents q) = ring_count q"
  by (simp add: contents_def)

lemma ioq_empty_contents: "ring_ok q \<Longrightarrow> ioq_empty q \<longleftrightarrow> contents q = []"
  using ring_bounds [of q] ring_count_cases [of q]
  by (auto simp: ioq_empty_def contents_def word_eq_iff_unsigned [where ?'a = nat] split: if_splits)

lemma ioq_full_contents:
  assumes "ring_ok q"
  shows "ioq_full q \<longleftrightarrow> length (contents q) = 63"
proof -
  have "ioq_full q \<longleftrightarrow> Suc (unat (ioq_head q)) mod 64 = unat (ioq_tail q)"
    using next_pos_unat(1) [of "ioq_head q"] assms
    by (simp add: ioq_full_def ring_ok_def word_eq_iff_unsigned [where ?'a = nat])
  also have "\<dots> \<longleftrightarrow> ring_count q = 63"
  proof (cases "unat (ioq_head q) = 63")
    case True
    then show ?thesis using ring_bounds [OF assms] ring_count_cases [OF assms] by (auto split: if_splits)
  next
    case False
    then have "Suc (unat (ioq_head q)) mod 64 = Suc (unat (ioq_head q))"
      using ring_bounds [OF assms] by simp
    then show ?thesis using False ring_bounds [OF assms] ring_count_cases [OF assms]
      by (auto split: if_splits)
  qed
  finally show ?thesis by (simp add: length_contents)
qed

lemma contents_length_less: "ring_ok q \<Longrightarrow> length (contents q) < 64"
  by (simp add: length_contents ring_count_def)

lemma ioq_length_contents:
  assumes "ring_ok q"
  shows "ioq_length q = of_nat (length (contents q))"
proof -
  note b = ring_bounds [OF assms]
  have "sint (ioq_tail q) = int (unat (ioq_tail q))" "sint (ioq_head q) = int (unat (ioq_head q))"
    using b by (simp_all add: sint_small)
  then have le: "ioq_tail q \<le>s ioq_head q \<longleftrightarrow> unat (ioq_tail q) \<le> unat (ioq_head q)"
    unfolding word_sle_eq by linarith
  show ?thesis
    using le b unfolding ioq_length_def length_contents ring_count_cases [OF assms]
    by (simp add: of_nat_diff)
qed

text \<open>Distances on the ring.\<close>

lemma ring_dist:
  fixes h t :: nat
  assumes "h < 64" and "t < 64"
  shows "(h + 64 - t) mod 64 = (if t \<le> h then h - t else h + 64 - t)"
proof (cases "t \<le> h")
  case True
  then have "h + 64 - t = h - t + 64" by simp
  then show ?thesis using True assms by (simp only: mod_add_self2) simp
qed (use assms in simp)

lemma ring_pos: "a < 64 \<Longrightarrow> b < 64 \<Longrightarrow> (a + b) mod 64 = (if a + b < 64 then a + b else a + b - (64 :: nat))"
  by (simp add: mod_if)

lemma ring_suc: "(a :: nat) < 64 \<Longrightarrow> Suc a mod 64 = (if a = 63 then 0 else Suc a)"
  by (simp add: mod_if)

lemma ring_step:
  fixes h t :: nat
  assumes "h < 64" and "t < 64"
  shows "(h + 64 - t) mod 64 < 63 \<Longrightarrow> (Suc h mod 64 + 64 - t) mod 64 = Suc ((h + 64 - t) mod 64)"
    and "0 < (h + 64 - t) mod 64 \<Longrightarrow> Suc ((h + 64 - Suc t mod 64) mod 64) = (h + 64 - t) mod 64"
    and "k < (h + 64 - t) mod 64 \<Longrightarrow> (t + k) mod 64 \<noteq> h"
    and "(t + (h + 64 - t) mod 64) mod 64 = h"
proof -
  have b: "Suc h mod 64 < 64" "Suc t mod 64 < 64" "(h + 64 - t) mod 64 < 64" by simp_all
  note d = ring_dist [OF assms]
  show "(Suc h mod 64 + 64 - t) mod 64 = Suc ((h + 64 - t) mod 64)" if "(h + 64 - t) mod 64 < 63"
    unfolding ring_dist [OF b(1) assms(2)] d unfolding ring_suc [OF assms(1)]
    using that [unfolded d] assms by (simp split: if_splits) linarith+
  show "Suc ((h + 64 - Suc t mod 64) mod 64) = (h + 64 - t) mod 64" if "0 < (h + 64 - t) mod 64"
    unfolding ring_dist [OF assms(1) b(2)] d unfolding ring_suc [OF assms(2)]
    using that [unfolded d] assms by (simp split: if_splits) linarith+
  show "(t + k) mod 64 \<noteq> h" if k: "k < (h + 64 - t) mod 64"
  proof -
    have "k < 64" using k b(3) by (rule less_trans)
    then show ?thesis
      using k [unfolded d] assms unfolding ring_pos [OF assms(2) \<open>k < 64\<close>]
      by (simp split: if_splits) linarith+
  qed
  show "(t + (h + 64 - t) mod 64) mod 64 = h"
    unfolding ring_pos [OF assms(2) b(3)] unfolding d using assms by simp
qed

text \<open>Storing and taking a byte, without the wake-up.\<close>

lemma contents_store:
  assumes "ring_ok q" and "\<not> ioq_full q"
  shows "ring_ok (q\<lparr>ioq_buf := (ioq_buf q)[unat (ioq_head q) := x], ioq_head := next_pos (ioq_head q)\<rparr>)"
      (is "ring_ok ?q")
    and "contents (q\<lparr>ioq_buf := (ioq_buf q)[unat (ioq_head q) := x],
      ioq_head := next_pos (ioq_head q)\<rparr>) = contents q @ [x]"
proof -
  note b = ring_bounds [OF assms(1)] and n = next_pos_unat [of "ioq_head q"]
  show ok: "ring_ok ?q" using assms(1) n by (simp add: ring_ok_def)
  have nf: "ring_count q < 63"
    using ioq_full_contents [OF assms(1)] contents_length_less [OF assms(1)] assms(2)
    by (simp add: length_contents)
  have h: "unat (ioq_head ?q) = Suc (unat (ioq_head q)) mod 64"
    using n(1) assms(1) by (simp add: ring_ok_def)
  note step = ring_step [OF b(1,2)]
  have c: "ring_count ?q = Suc (ring_count q)"
    using step(1) nf h by (simp add: ring_count_def)
  have pos: "(unat (ioq_tail q) + ring_count q) mod 64 = unat (ioq_head q)"
    using step(4) by (simp add: ring_count_def)
  have other: "(ioq_buf q)[unat (ioq_head q) := x] ! ((unat (ioq_tail q) + k) mod 64) =
      ioq_buf q ! ((unat (ioq_tail q) + k) mod 64)" if "k < ring_count q" for k
    using step(3) that by (intro nth_list_update_neq) (metis ring_count_def)
  show "contents ?q = contents q @ [x]"
    using b pos other by (simp add: contents_def c)
qed

lemma contents_take:
  assumes "ring_ok q" and "\<not> ioq_empty q"
  shows "ring_ok (q\<lparr>ioq_tail := next_pos (ioq_tail q)\<rparr>)" (is "ring_ok ?q")
    and "contents q = ioq_buf q ! unat (ioq_tail q) # contents (q\<lparr>ioq_tail := next_pos (ioq_tail q)\<rparr>)"
proof -
  note b = ring_bounds [OF assms(1)] and n = next_pos_unat [of "ioq_tail q"]
  show ok: "ring_ok ?q" using assms(1) n by (simp add: ring_ok_def)
  have t: "unat (ioq_tail ?q) = Suc (unat (ioq_tail q)) mod 64"
    using n(1) assms(1) by (simp add: ring_ok_def)
  have "0 < ring_count q"
    using ioq_empty_contents [OF assms(1)] assms(2) length_contents [of q]
    by (metis length_greater_0_conv)
  then have c: "ring_count q = Suc (ring_count ?q)"
    using ring_step(2) [OF b(1,2)] t by (simp add: ring_count_def)
  have "[0..<ring_count q] = 0 # map Suc [0..<ring_count ?q]"
    unfolding c by (simp add: upt_conv_Cons map_Suc_upt del: upt_Suc)
  moreover have "(Suc (unat (ioq_tail q)) mod 64 + k) mod 64 = (unat (ioq_tail q) + Suc k) mod 64" for k
    by (simp add: mod_simps)
  ultimately show "contents q = ioq_buf q ! unat (ioq_tail q) # contents ?q"
    using b t by (simp add: contents_def del: upt_Suc)
qed

section \<open>The functions on a running system\<close>

lemma ring_sleeper [simp]:
  "ring_ok (set_sleeper w p r) = ring_ok r" "contents (set_sleeper w p r) = contents r"
  "sleeper w (set_sleeper w p r) = p"
  by (cases w; simp add: ring_ok_def contents_def ring_count_def)+

lemma contents_other [simp]:
  "contents (r\<lparr>ioq_consumer := p\<rparr>) = contents r" "contents (r\<lparr>ioq_producer := p\<rparr>) = contents r"
  "ring_ok (r\<lparr>ioq_consumer := p\<rparr>) = ring_ok r" "ring_ok (r\<lparr>ioq_producer := p\<rparr>) = ring_ok r"
  by (simp_all add: ring_ok_def contents_def ring_count_def)

text \<open>
  A place of a queue: empty, or with a task that is blocked and on no list. \<open>woken\<close>: the
  lists after that task is woken.
\<close>

definition asleep :: "sys \<Rightarrow> (list_id \<Rightarrow> nat list) \<Rightarrow> nat option \<Rightarrow> bool" where
  "asleep s q p = (case p of None \<Rightarrow> True | Some t \<Rightarrow> has_status s t TASK_BLOCKED \<and>
     current_task s \<noteq> Some t \<and> off_lists (valid_lists s) q ReadyList t)"

definition woken :: "nat option \<Rightarrow> (list_id \<Rightarrow> nat list) \<Rightarrow> list_id \<Rightarrow> nat list" where
  "woken p q = (case p of None \<Rightarrow> q | Some t \<Rightarrow> q(ReadyList := t # q ReadyList))"

lemmas ioq_simps = ioq_at_def upd_ioq_def

lemma wakeup_run:
  assumes "sched_ok s q" and "ioqs s i = Some r" and "sleeper w r = Some t"
    and "asleep s q (sleeper w r)"
  shows "\<exists>u. wakeup i w s = Inr u \<and> sched_ok u (q(ReadyList := t # q ReadyList)) \<and>
    ioqs u = (ioqs s)(i \<mapsto> set_sleeper w None r) \<and> locks u = locks s \<and>
    current_task u = current_task s"
proof -
  obtain ts where ts: "tasks s t = Some ts" "status ts = TASK_BLOCKED" "current_task s \<noteq> Some t"
      "off_lists (valid_lists s) q ReadyList t"
    using assms(3,4) by (auto simp: asleep_def has_status_def)
  obtain u where u: "task_unblock t s = Inr u" "sched_ok u (q(ReadyList := t # q ReadyList))"
      "locks u = locks s" "ioqs u = ioqs s" "current_task u = current_task s"
    using task_unblock_ok [OF assms(1) ts(1,3) _ ts(4)] ts(2) by auto
  let ?u = "u\<lparr>ioqs := (ioqs s)(i \<mapsto> set_sleeper w None r)\<rparr>"
  have "wakeup i w s = Inr ?u"
    using assms(2,3) u(1,4) by (simp add: wakeup_def ioq_simps)
  moreover have "sched_ok ?u (q(ReadyList := t # q ReadyList))"
    using u(2) by (subst sched_ok_frame [of _ u]) simp_all
  ultimately show ?thesis using u(3,5) by (intro exI [of _ ?u]) simp
qed

text \<open>What follows the storing or taking of a byte: the other side is woken if it sleeps.\<close>

lemma wake_other:
  assumes "sched_ok s q" and "ioqs s i = Some r" and "asleep s q (sleeper w r)"
  shows "\<exists>u. (if sleeper w r \<noteq> None then wakeup i w s else Inr s) = Inr u \<and>
    sched_ok u (woken (sleeper w r) q) \<and> ioqs u = (ioqs s)(i \<mapsto> set_sleeper w None r) \<and>
    locks u = locks s \<and> current_task u = current_task s"
proof (cases "sleeper w r")
  case None
  then have "set_sleeper w None r = r" by (cases w) simp_all
  then show ?thesis using None assms(1,2) by (simp add: woken_def fun_upd_idem)
next
  case (Some t)
  then show ?thesis using wakeup_run [OF assms(1,2) Some assms(3)] by (auto simp: woken_def)
qed

lemma asleep_frame:
  "tasks s' = tasks s \<Longrightarrow> current_task s' = current_task s \<Longrightarrow> dom (locks s') = dom (locks s) \<Longrightarrow>
   asleep s' q p = asleep s q p"
  by (simp add: asleep_def has_status_def off_lists_def valid_lists_def split: option.split)

lemma ioq_store_run:
  assumes ok: "sched_ok s q" and r: "ioqs s i = Some r" and "ring_ok r" and "\<not> ioq_full r"
    and a: "asleep s q (ioq_consumer r)"
  shows "\<exists>u r'. ioq_store i x s = Inr u \<and> sched_ok u (woken (ioq_consumer r) q) \<and>
    ioqs u = (ioqs s)(i \<mapsto> r') \<and> ring_ok r' \<and> contents r' = contents r @ [x] \<and>
    ioq_consumer r' = None \<and> ioq_producer r' = ioq_producer r \<and>
    locks u = locks s \<and> current_task u = current_task s"
proof -
  let ?r = "r\<lparr>ioq_buf := (ioq_buf r)[unat (ioq_head r) := x], ioq_head := next_pos (ioq_head r)\<rparr>"
  let ?s = "s\<lparr>ioqs := (ioqs s)(i \<mapsto> ?r)\<rparr>"
  have ok': "sched_ok ?s q" using ok by (subst sched_ok_frame [of _ s]) simp_all
  have a': "asleep ?s q (sleeper Consumer ?r)" using a by (subst asleep_frame [of _ s]) simp_all
  have "ioqs ?s i = Some ?r" by simp
  from wake_other [OF ok' this a'] obtain u where u:
      "(if ioq_consumer r \<noteq> None then wakeup i Consumer ?s else Inr ?s) = Inr u"
      "sched_ok u (woken (ioq_consumer r) q)" "ioqs u = (ioqs s)(i \<mapsto> ?r\<lparr>ioq_consumer := None\<rparr>)"
      "locks u = locks s" "current_task u = current_task s"
    by auto
  have "ioq_store i x s = Inr u"
    using r u(1) ring_bounds(1,3) [OF assms(3)] by (simp add: ioq_store_def ioq_simps)
  with u(2-5) contents_store [OF assms(3,4), of x] show ?thesis
    by (intro exI [of _ u] exI [of _ "?r\<lparr>ioq_consumer := None\<rparr>"]) simp
qed

lemma ioq_take_run:
  assumes ok: "sched_ok s q" and r: "ioqs s i = Some r" and "ring_ok r" and "\<not> ioq_empty r"
    and a: "asleep s q (ioq_producer r)"
  shows "\<exists>u r' x. ioq_take i s = Inr (x, u) \<and> sched_ok u (woken (ioq_producer r) q) \<and>
    ioqs u = (ioqs s)(i \<mapsto> r') \<and> ring_ok r' \<and> contents r = x # contents r' \<and>
    ioq_producer r' = None \<and> ioq_consumer r' = ioq_consumer r \<and>
    locks u = locks s \<and> current_task u = current_task s"
proof -
  let ?r = "r\<lparr>ioq_tail := next_pos (ioq_tail r)\<rparr>"
  let ?s = "s\<lparr>ioqs := (ioqs s)(i \<mapsto> ?r)\<rparr>"
  have ok': "sched_ok ?s q" using ok by (subst sched_ok_frame [of _ s]) simp_all
  have a': "asleep ?s q (sleeper Producer ?r)" using a by (subst asleep_frame [of _ s]) simp_all
  have "ioqs ?s i = Some ?r" by simp
  from wake_other [OF ok' this a'] obtain u where u:
      "(if ioq_producer r \<noteq> None then wakeup i Producer ?s else Inr ?s) = Inr u"
      "sched_ok u (woken (ioq_producer r) q)" "ioqs u = (ioqs s)(i \<mapsto> ?r\<lparr>ioq_producer := None\<rparr>)"
      "locks u = locks s" "current_task u = current_task s"
    by auto
  have "ioq_take i s = Inr (ioq_buf r ! unat (ioq_tail r), u)"
    using r u(1) ring_bounds(2,3) [OF assms(3)] by (simp add: ioq_take_def ioq_simps Let_def)
  with u(2-5) contents_take [OF assms(3,4)] show ?thesis
    by (intro exI [of _ u] exI [of _ "?r\<lparr>ioq_producer := None\<rparr>"]) simp
qed

text \<open>The loop: passed, entered, and resumed behind the switch.\<close>

definition sleep_rest :: "nat \<Rightarrow> side \<Rightarrow> sys \<Rightarrow> (sys, unit) run" where
  "sleep_rest i w v = drive (sleep_advance i w) (Waited v)"

lemma ioq_sleep_pass:
  assumes "ioqs s i = Some r" and "\<not> must_sleep w r"
  shows "ioq_sleep i w s = Done () s"
  using assms unfolding ioq_sleep_def
  by (subst drive.code) (simp add: sleep_test_def ioq_simps)

lemma ioq_wait_ok:
  assumes ok: "sched_ok s q" and r: "ioqs s i = Some r" and "sleeper w r = None"
    and n: "q ReadyList = n # ns" and c: "current_task s = Some c"
  shows "\<exists>u. ioq_wait i w s = Inr u \<and> sched_ok u (q(ReadyList := ns)) \<and>
    current_task u = Some n \<and> ioqs u = (ioqs s)(i \<mapsto> set_sleeper w (Some c) r) \<and>
    locks u = locks s \<and> blocked u = blocked s \<and> asleep u (q(ReadyList := ns)) (Some c)"
proof -
  let ?s = "s\<lparr>ioqs := (ioqs s)(i \<mapsto> set_sleeper w (Some c) r)\<rparr>"
  have ok': "sched_ok ?s q" using ok by (subst sched_ok_frame [of _ s]) simp_all
  have "current_task ?s = Some c" using c by simp
  from task_block_ok [OF ok' n this, of TASK_BLOCKED] obtain u tc tn where u:
      "task_block_switch TASK_BLOCKED ?s = Inr u" "sched_ok u (q(ReadyList := ns))"
      "current_task u = Some n" "locks u = locks s" "ioqs u = ioqs ?s" "blocked u = blocked s"
      "tasks u = (tasks s)
        (c \<mapsto> tc\<lparr>status := TASK_BLOCKED, tcontext := context_save (cpu s) (mem s) (tcontext tc)\<rparr>,
         n \<mapsto> tn\<lparr>status := TASK_RUNNING\<rparr>)"
    by auto
  have off: "off_lists (valid_lists s) q ReadyList c"
    using ok c by (auto simp: sched_ok_def)
  then have nc: "n \<noteq> c" using n by (auto simp: off_lists_ready)
  have "ioq_wait i w s = Inr u"
    using r c u(1) assms(3) by (simp add: ioq_wait_def ioq_record_def ioq_simps)
  moreover have "asleep u (q(ReadyList := ns)) (Some c)"
    using u(3,4,7) nc off n by (auto simp: asleep_def has_status_def off_lists_ready)
  ultimately show ?thesis using u(2-6) by (intro exI [of _ u]) simp
qed

text \<open>A task that must sleep records itself and is then blocked.\<close>

lemma ioq_sleep_parts:
  assumes "ioqs s i = Some r" and "must_sleep w r" and "lock_acquire (IoqLock i) s = Done () s1"
    and "ioq_record i w s1 = Inr s2" and "task_block_switch TASK_BLOCKED s2 = Inr u"
  shows "ioq_sleep i w s = Switch u (sleep_rest i w)"
proof -
  have "sleep_advance i w (Test s) = Suspended u Waited"
    using assms by (simp add: sleep_test_def ioq_wait_def ioq_simps)
  then show ?thesis
    unfolding ioq_sleep_def by (subst drive.code) (simp add: sleep_rest_def fun_eq_iff)
qed

lemma ioq_sleep_blocks:
  assumes ok: "sched_ok s q" and r: "ioqs s i = Some r" and m: "must_sleep w r"
    and "sleeper w r = None" and l: "locks s (IoqLock i) = Some free_lock"
    and n: "q ReadyList = n # ns" and c: "current_task s = Some c"
  shows "\<exists>u. ioq_sleep i w s = Switch u (sleep_rest i w) \<and> sched_ok u (q(ReadyList := ns)) \<and>
    current_task u = Some n \<and> ioqs u = (ioqs s)(i \<mapsto> set_sleeper w (Some c) r) \<and>
    locks u = (locks s)(IoqLock i \<mapsto> held_lock c 1) \<and> \<not> blocked u \<and>
    asleep u (q(ReadyList := ns)) (Some c)"
proof -
  let ?s = "s\<lparr>locks := (locks s)(IoqLock i \<mapsto> held_lock c 1), blocked := False\<rparr>"
  have ok': "sched_ok ?s q" using ok l by (subst sched_ok_frame [of _ s]) (auto simp: insert_absorb)
  from ioq_wait_ok [OF ok', of i r w n ns c] r assms(4) n c obtain u where u:
      "ioq_wait i w ?s = Inr u" "sched_ok u (q(ReadyList := ns))" "current_task u = Some n"
      "ioqs u = (ioqs s)(i \<mapsto> set_sleeper w (Some c) r)" "locks u = locks ?s" "\<not> blocked u"
      "asleep u (q(ReadyList := ns)) (Some c)"
    by auto
  have "sleep_advance i w (Test s) = Suspended u Waited"
    using r m u(1) acquire_free_lock(1) [OF l c] by (simp add: sleep_test_def ioq_simps)
  then have "ioq_sleep i w s = Switch u (sleep_rest i w)"
    unfolding ioq_sleep_def by (subst drive.code) (simp add: sleep_rest_def fun_eq_iff)
  with u(2-7) show ?thesis by (intro exI [of _ u]) simp
qed

lemma sleep_rest_run:
  assumes ok: "sched_ok v q" and r: "ioqs v i = Some r" and m: "\<not> must_sleep w r"
    and l: "locks v (IoqLock i) = Some (held_lock c 1)" and c: "current_task v = Some c"
  shows "\<exists>u. sleep_rest i w v = Done () u \<and> sched_ok u (wake_queues (IoqLock i) q) \<and>
    ioqs u = ioqs v \<and> locks u = (locks v)(IoqLock i \<mapsto> free_lock) \<and> current_task u = Some c \<and>
    (\<forall>t. t \<notin> set (q (Waiters (IoqLock i))) \<longrightarrow> tasks u t = tasks v t)"
proof -
  obtain h ts where rel: "lock_release (IoqLock i) v = Inr (v\<lparr>cells := h, tasks := ts,
        locks := (locks v)(IoqLock i \<mapsto> free_lock), blocked := False\<rparr>)"
      "sched_ok (v\<lparr>cells := h, tasks := ts,
        locks := (locks v)(IoqLock i \<mapsto> free_lock), blocked := False\<rparr>) (wake_queues (IoqLock i) q)"
      "\<forall>t. t \<notin> set (q (Waiters (IoqLock i))) \<longrightarrow> ts t = tasks v t"
    using release_last [OF ok l c] by blast
  let ?u = "v\<lparr>cells := h, tasks := ts, locks := (locks v)(IoqLock i \<mapsto> free_lock), blocked := False\<rparr>"
  have "sleep_advance i w (Waited v) = Finished () ?u"
    using rel(1) r m by (simp add: sleep_test_def ioq_simps)
  then have "sleep_rest i w v = Done () ?u"
    unfolding sleep_rest_def by (subst drive.code) simp
  then show ?thesis using rel(2,3) c by (intro exI [of _ ?u]) simp
qed

end
