(* ===== verification/Console.thy ===== *)
theory Console
  imports Sync
begin

text \<open>
  \<open>device/console.c\<close>: output and input under the lock of the console. How many characters
  \<open>write\<close> takes, how many of the held-back characters \<open>printf\<close> passes on, and what \<open>read\<close>
  delivers are decided outside the program: they are arguments. \<open>console_init\<close> makes the
  descriptors non-blocking, so \<open>write\<close> can take less than it is given, and the results of the
  calls are not looked at.
\<close>

section \<open>The calls of the C library\<close>

definition write_out :: "nat \<Rightarrow> string \<Rightarrow> sys \<Rightarrow> sys" where
  "write_out n str s = s\<lparr>console_out := console_out s @ take n str\<rparr>"

definition digit :: "nat \<Rightarrow> char" where
  "digit d = char_of (48 + d)"

fun digits :: "nat \<Rightarrow> string" where
  "digits n = (if n < 10 then [digit n] else digits (n div 10) @ [digit (n mod 10)])"

declare digits.simps [simp del]

definition decimal :: "32 word \<Rightarrow> string" where
  "decimal w = (if sint w < 0 then CHR ''-'' # digits (nat (- sint w)) else digits (nat (sint w)))"

definition print_int :: "nat \<Rightarrow> 32 word \<Rightarrow> sys \<Rightarrow> sys" where
  "print_int m w s =
     (let buf = stdio_buf s @ decimal w in
      s\<lparr>console_out := console_out s @ take m buf, stdio_buf := drop m buf\<rparr>)"

text \<open>\<open>read\<close> puts what it delivers, at most as much as it is asked for, into an array.\<close>

definition read_in :: "string \<Rightarrow> nat \<Rightarrow> string \<Rightarrow> string result" where
  "read_in input n dest =
     (let got = take n input in
      if length got \<le> length dest then Inr (got @ drop (length got) dest) else Inl Buffer_Overflow)"

section \<open>The functions\<close>

definition console_init :: "sys \<Rightarrow> sys result" where
  "console_init s = lock_init ConsoleLock s"

definition console_acquire :: "sys \<Rightarrow> (sys, unit) run" where
  "console_acquire s = lock_acquire ConsoleLock s"

definition console_release :: "sys \<Rightarrow> sys result" where
  "console_release s = lock_release ConsoleLock s"

definition console_put_str :: "nat \<Rightarrow> string \<Rightarrow> sys \<Rightarrow> (sys, unit) run" where
  "console_put_str n str s =
     bind_run (console_acquire s) (\<lambda>_ s. lift_run (console_release (write_out n str s)))"

definition console_put_int :: "nat \<Rightarrow> 32 word \<Rightarrow> sys \<Rightarrow> (sys, unit) run" where
  "console_put_int m w s =
     bind_run (console_acquire s) (\<lambda>_ s. lift_run (console_release (print_int m w s)))"

definition console_put_char :: "nat \<Rightarrow> char \<Rightarrow> sys \<Rightarrow> (sys, unit) run" where
  "console_put_char n ch s =
     bind_run (console_acquire s) (\<lambda>_ s. lift_run (console_release (write_out n [ch] s)))"

definition console_get_str :: "string \<Rightarrow> string \<Rightarrow> sys \<Rightarrow> (sys, string) run" where
  "console_get_str input str s =
     bind_run (console_acquire s) (\<lambda>_ s. lift_val (
       andthen (read_in input 1024 str) (\<lambda>str.
       andthen (console_release s) (\<lambda>s.
       Inr (str, s)))))"

section \<open>Output under the lock\<close>

text \<open>
  What the three output functions have in common: between the calls on the lock they change
  the devices only, as a function of the devices.
\<close>

locale console_output =
  fixes emit :: "sys \<Rightarrow> sys"
    and change :: "devs \<Rightarrow> devs"
  assumes keeps: "cells (emit s) = cells s" "tasks (emit s) = tasks s"
      "current_task (emit s) = current_task s" "locks (emit s) = locks s"
    and changes: "devices (emit s) = change (devices s)"
begin

lemma emit_release:
  assumes "sched_ok s q" and "locks s ConsoleLock = Some (held_lock c 1)" and "current_task s = Some c"
  shows "\<exists>u. console_release (emit s) = Inr u \<and> sched_ok u (wake_queues ConsoleLock q) \<and>
    locks u = (locks s)(ConsoleLock \<mapsto> free_lock) \<and> devices u = change (devices s) \<and>
    current_task u = Some c \<and> \<not> blocked u"
proof -
  have "sched_ok (emit s) q" using assms(1) by (subst sched_ok_frame [of _ s]) (simp_all add: keeps)
  from release_last [OF this, of ConsoleLock c] assms(2,3) show ?thesis
    using changes [of s] by (auto simp: keeps console_release_def)
qed

lemma when_free:
  assumes "sched_ok s q" and l: "locks s ConsoleLock = Some free_lock" and c: "current_task s = Some c"
  shows "\<exists>u. bind_run (console_acquire s) (\<lambda>_ t. lift_run (console_release (emit t))) = Done () u \<and>
    sched_ok u (wake_queues ConsoleLock q) \<and> locks u = locks s \<and>
    devices u = change (devices s) \<and> current_task u = Some c"
proof -
  let ?s = "s\<lparr>locks := (locks s)(ConsoleLock \<mapsto> held_lock c 1), blocked := False\<rparr>"
  have "sched_ok ?s q" using assms(1) l by (subst sched_ok_frame [of _ s]) (auto simp: insert_absorb)
  from emit_release [OF this, of c] c obtain u where u: "console_release (emit ?s) = Inr u"
      "sched_ok u (wake_queues ConsoleLock q)" "locks u = (locks ?s)(ConsoleLock \<mapsto> free_lock)"
      "devices u = change (devices s)" "current_task u = Some c"
    by auto
  moreover have "locks u = locks s" using u(3) l by (simp add: fun_upd_idem)
  ultimately show ?thesis
    using acquire_free_lock(1) [OF l c] by (simp add: console_acquire_def)
qed

lemma when_mine:
  assumes l: "locks s ConsoleLock = Some (held_lock c m)" and c: "current_task s = Some c"
    and "0 < m" and "m < m + 1"
  shows "\<exists>u. bind_run (console_acquire s) (\<lambda>_ t. lift_run (console_release (emit t))) = Done () u \<and>
    locks u = locks s \<and> devices u = change (devices s) \<and> current_task u = Some c"
proof -
  let ?s = "s\<lparr>locks := (locks s)(ConsoleLock \<mapsto> held_lock c (m + 1))\<rparr>"
  have "1 \<le> m" using assms(3) by (simp add: word_le_nat_alt word_less_nat_alt)
  then have m: "1 < m + 1" using assms(4) by (rule le_less_trans)
  have "locks (emit ?s) ConsoleLock = Some (held_lock c (m + 1))" "current_task (emit ?s) = Some c"
    using c by (simp_all add: keeps)
  from release_nested [OF this m] have "console_release (emit ?s) =
      Inr ((emit ?s)\<lparr>locks := (locks s)(ConsoleLock \<mapsto> held_lock c m)\<rparr>)"
    by (simp add: console_release_def keeps)
  moreover have "(locks s)(ConsoleLock \<mapsto> held_lock c m) = locks s" using l by (simp add: fun_upd_idem)
  ultimately show ?thesis
    using acquire_held_lock [OF l c] changes [of ?s] c by (simp add: console_acquire_def keeps)
qed

lemma when_taken:
  assumes ok: "sched_ok s q" and l: "locks s ConsoleLock = Some (held_lock d m)"
    and c: "current_task s = Some c" and "d \<noteq> c" and n: "q ReadyList = n # ns"
  shows "\<exists>u k. bind_run (console_acquire s) (\<lambda>_ t. lift_run (console_release (emit t))) = Switch u k \<and>
    sched_ok u (q(ReadyList := ns, Waiters ConsoleLock := q (Waiters ConsoleLock) @ [c])) \<and>
    devices u = devices s \<and> current_task u = Some n \<and>
    (\<forall>v q'. sched_ok v q' \<and> current_task v = Some c \<and> locks v ConsoleLock = Some free_lock \<longrightarrow>
       (\<exists>w. k v = Done () w \<and> locks w = locks v \<and> devices w = change (devices v)))"
proof -
  let ?s = "interrupt_disable s" and ?f = "\<lambda>_ t. lift_run (console_release (emit t))"
  have ok': "sched_ok ?s q" using ok by (subst sched_ok_frame [of _ s]) (simp_all add: interrupt_disable_def)
  have acq: "console_acquire s = acquire_rest ConsoleLock ?s"
    using lock_acquire_other [OF l] c assms(4) by (simp add: console_acquire_def)
  obtain u where u: "acquire_rest ConsoleLock ?s = Switch u (acquire_rest ConsoleLock)"
      "sched_ok u (q(ReadyList := ns, Waiters ConsoleLock := q (Waiters ConsoleLock) @ [c]))"
      "current_task u = Some n" "devices u = devices s"
    using acquire_rest_blocks [OF ok', of ConsoleLock "held_lock d m" n ns c] l n c
    by (auto simp: interrupt_disable_def)
  have "\<exists>w. bind_run (acquire_rest ConsoleLock v) ?f = Done () w \<and> locks w = locks v \<and>
      devices w = change (devices v)"
    if v: "sched_ok v q'" "current_task v = Some c" "locks v ConsoleLock = Some free_lock" for v q'
    using when_free [OF v(1,3,2)] acquire_free_lock [OF v(3,2)] by (auto simp: console_acquire_def)
  then show ?thesis using u acq by auto
qed

end

interpretation put: console_output "write_out n str" "\<lambda>(a, b, c). (a, b @ take n str, c)"
  by unfold_locales (simp_all add: write_out_def)

interpretation put_int: console_output "print_int m w"
    "\<lambda>(a, b, c, d). (a, b @ take m (c @ decimal w), drop m (c @ decimal w), d)"
  by unfold_locales (simp_all add: print_int_def Let_def)

section \<open>Input\<close>

lemma console_get_run:
  assumes "sched_ok s q" and l: "locks s ConsoleLock = Some free_lock" and c: "current_task s = Some c"
  shows "if length (take 1024 input) \<le> length str
    then \<exists>u. console_get_str input str s =
      Done (take 1024 input @ drop (length (take 1024 input)) str) u \<and> locks u = locks s
    else console_get_str input str s = Fail Buffer_Overflow"
proof -
  let ?s = "s\<lparr>locks := (locks s)(ConsoleLock \<mapsto> held_lock c 1), blocked := False\<rparr>"
  have "sched_ok ?s q" using assms(1) l by (subst sched_ok_frame [of _ s]) (auto simp: insert_absorb)
  from release_last [OF this, of ConsoleLock c] c obtain u where
      "console_release ?s = Inr u" "locks u = (locks s)(ConsoleLock \<mapsto> free_lock)"
    by (auto simp: console_release_def)
  then show ?thesis
    using acquire_free_lock(1) [OF l c] l
    by (auto simp: console_get_str_def console_acquire_def read_in_def Let_def fun_upd_idem
        simp del: length_take)
qed

section \<open>Numbers\<close>

text \<open>The value of a numeral.\<close>

definition undigits :: "string \<Rightarrow> nat" where
  "undigits ds = foldl (\<lambda>n d. 10 * n + (of_char d - 48)) 0 ds"

lemma undigits_digits: "undigits (digits n) = n"
proof (induction n rule: digits.induct)
  case (1 n)
  have d: "of_char (digit k) = 48 + k" if "k < 10" for k :: nat
    using that by (simp add: digit_def)
  show ?case
    using 1 by (subst digits.simps) (auto simp: undigits_def d)
qed

end
