(* ===== verification/Demo.thy ===== *)
theory Demo
  imports Task Protocol Ioqueue Console
begin

text \<open>
  Concrete machine states, on which the theorems are tried: the list cells are computed from
  the queues, and the invariants are evaluated.
\<close>

section \<open>Building a state\<close>

definition chain :: "list_id \<Rightarrow> nat list \<Rightarrow> (cell \<times> cell list_elem) list" where
  "chain i ts = (let zs = HeadOf i # map (cell_of i) ts @ [TailOf i] in
     zip zs (map2 (\<lambda>p n. \<lparr>prev = p, nxt = n\<rparr>) (None # map Some zs) (map Some (tl zs) @ [None])))"

definition demo_cells :: "(list_id \<times> nat list) list \<Rightarrow> nat list \<Rightarrow> cell heap" where
  "demo_cells qs ts = map_of (concat (map (\<lambda>(i, xs). chain i xs) qs) @
     map (\<lambda>e. (e, \<lparr>prev = None, nxt = None\<rparr>))
       (map GeneralTag ts @ map AllListTag ts @ map PoolTag ts))"

definition demo_q :: "(list_id \<times> nat list) list \<Rightarrow> list_id \<Rightarrow> nat list" where
  "demo_q qs i = (case map_of qs i of None \<Rightarrow> [] | Some xs \<Rightarrow> xs)"

definition demo_task :: "nat \<Rightarrow> task_status \<Rightarrow> task_struct" where
  "demo_task t st = zero_task\<lparr>tid := of_nat t, status := st, priority := 3, ticks := 3, stack_magic := 0x19991120,
     tcontext := zero_context\<lparr>rip := of_nat (100 * t), rsp := of_nat (1000 * t)\<rparr>\<rparr>"

definition demo ::
  "(list_id \<times> nat list) list \<Rightarrow> (nat \<times> task_status) list \<Rightarrow> (lock_id \<times> lock) list \<Rightarrow> bitmap \<Rightarrow> sys" where
  "demo qs ts ls b = \<lparr>cells = demo_cells qs (map fst ts),
     tasks = map_of (map (\<lambda>(t, st). (t, demo_task t st)) ts),
     main_task = Some 1, current_task = Some 1, task_all_nums = of_nat (length (demo_q qs AllList)),
     task_tag = None, tid_bitmap = b, tid_start = 1, locks = map_of ls, ioqs = Map.empty, console_out = [], stdio_buf = [],
     timers = \<lparr>tlinks = Map.empty, tnodes = Map.empty, timer_manager = False, manager_mem = None\<rparr>,
     total_ticks = 0, blocked = False,
     cpu = zero_context\<lparr>rip := 7, rsp := 5000\<rparr>, mem = (\<lambda>_. 0)\<rparr>"

definition b1 :: bitmap where "b1 = \<lparr>btmp_bytes_len = 2, bits = [15, 0]\<rparr>"

lemma all_tags: "(\<forall>i. cell_of i t \<in> A) \<longleftrightarrow> GeneralTag t \<in> A \<and> AllListTag t \<in> A \<and> PoolTag t \<in> A"
  by (metis cell_of.elims cell_of.simps)

lemma linked_tags: "linked_cells D T h q \<longleftrightarrow> heap_lists list_at D h (lview q) \<and>
    (\<forall>i\<in>D. set (q i) \<subseteq> T) \<and>
    (\<forall>t\<in>T. GeneralTag t \<in> dom h \<and> AllListTag t \<in> dom h \<and> PoolTag t \<in> dom h)"
  by (simp add: linked_cells_def all_tags)

lemmas demo_eval = sched_ok_def linked_def valid_lists_def linked_tags heap_lists_def
  dll_def lview_def demo_q_def demo_cells_def chain_def nx_def pv_def list_cells_def
  has_status_def demo_task_def off_lists_def demo_def

section \<open>The states\<close>

text \<open>Task \<open>1\<close> runs and holds the console; \<open>4\<close> waits for it; \<open>2\<close> and \<open>3\<close> are ready.\<close>

definition q1 :: "(list_id \<times> nat list) list" where
  "q1 = [(ReadyList, [2, 3]), (AllList, [1, 2, 3, 4]), (PoolList, []),
     (Waiters TidLock, []), (Waiters ConsoleLock, [4])]"

definition s1 :: sys where
  "s1 = demo q1 [(1, TASK_RUNNING), (2, TASK_READY), (3, TASK_READY), (4, TASK_BLOCKED)]
     [(TidLock, free_lock), (ConsoleLock, held_lock 1 1)] b1"

lemma s1_ok: "sched_ok s1 (demo_q q1)"
  unfolding s1_def q1_def by (auto simp: demo_eval)

text \<open>Nobody holds or waits for a lock.\<close>

definition q2 :: "(list_id \<times> nat list) list" where
  "q2 = [(ReadyList, [2, 3]), (AllList, [1, 2, 3]), (PoolList, []),
     (Waiters TidLock, []), (Waiters ConsoleLock, [])]"

definition s2 :: sys where
  "s2 = demo q2 [(1, TASK_RUNNING), (2, TASK_READY), (3, TASK_READY)]
     [(TidLock, free_lock), (ConsoleLock, free_lock)] b1"

lemma s2_ok: "sched_ok s2 (demo_q q2)"
  unfolding s2_def q2_def by (auto simp: demo_eval)

lemma s2_quiet: "quiet s2 (demo_q q2)"
  using s2_ok by (auto simp: quiet_def) (auto simp: s2_def q2_def demo_def demo_q_def split: if_splits)

text \<open>The ended task \<open>5\<close> is in the pool, and the ready list is empty.\<close>

definition q3 :: "(list_id \<times> nat list) list" where
  "q3 = [(ReadyList, []), (AllList, [1]), (PoolList, [5]), (Waiters TidLock, [])]"

definition s3 :: sys where
  "s3 = demo q3 [(1, TASK_RUNNING), (5, TASK_DIED)] [(TidLock, free_lock)] b1"

lemma s3_ok: "sched_ok s3 (demo_q q3)"
  unfolding s3_def q3_def by (auto simp: demo_eval)

text \<open>An empty I/O queue whose positions are near the end of the array.\<close>

definition q4 :: "(list_id \<times> nat list) list" where
  "q4 = [(ReadyList, [2, 3]), (AllList, [1, 2, 3]), (PoolList, []),
     (Waiters TidLock, []), (Waiters (IoqLock 0), [])]"

definition r4 :: ioqueue where
  "r4 = \<lparr>ioq_producer = None, ioq_consumer = None, ioq_buf = replicate 64 0,
     ioq_head = 63, ioq_tail = 63\<rparr>"

definition s4 :: sys where
  "s4 = demo q4 [(1, TASK_RUNNING), (2, TASK_READY), (3, TASK_READY)]
     [(TidLock, free_lock), (IoqLock 0, free_lock)] b1 \<lparr>ioqs := [0 \<mapsto> r4]\<rparr>"

lemma s4_ok: "sched_ok s4 (demo_q q4)"
  unfolding s4_def q4_def by (auto simp: demo_eval)

lemma s4_facts: "current_task s4 = Some 1" "ioqs s4 0 = Some r4" "demo_q q4 ReadyList = [2, 3]"
    "locks s4 (IoqLock 0) = Some free_lock"
  by (simp_all add: s4_def demo_def demo_q_def q4_def)

lemma r4_facts: "ring_ok r4" "contents r4 = []" "ioq_empty r4" "ioq_producer r4 = None"
    "ioq_consumer r4 = None" "\<not> ioq_full r4"
proof -
  show r: "ring_ok r4" "ioq_empty r4" "ioq_producer r4 = None" "ioq_consumer r4 = None"
    by (simp_all add: r4_def ring_ok_def ioq_empty_def)
  then show c: "contents r4 = []" using ioq_empty_contents by blast
  show "\<not> ioq_full r4" using ioq_full_contents [OF r(1)] c by simp
qed

text \<open>Before \<open>task_init\<close>: only the sentinels exist.\<close>

definition s0 :: sys where
  "s0 = demo [] [] [] b1
     \<lparr>cells := (\<lambda>e. case e of HeadOf _ \<Rightarrow> Some \<lparr>prev = None, nxt = None\<rparr>
        | TailOf _ \<Rightarrow> Some \<lparr>prev = None, nxt = None\<rparr> | _ \<Rightarrow> None),
      main_task := None, current_task := None\<rparr>"

lemma s0_boot: "boot_state s0"
  by (auto simp: boot_state_def s0_def demo_def heap_lists_def)

definition env1 :: alloc_env where
  "env1 = \<lparr>new_task = Some 9, new_stack = 0x10000, entrance = 0x400\<rparr>"

lemma b1_map: "pool_map 16 b1"
  by (simp add: pool_map_def wf_bitmap_def nbits_def b1_def)

lemma b1_bits: "bit_of b1 n \<longleftrightarrow> n < 4"
proof -
  have "bit (15 :: 8 word) n \<longleftrightarrow> n < 4" for n
  proof -
    have m: "(15 :: 8 word) = mask 4" by (simp add: mask_eq_exp_minus_1)
    show ?thesis unfolding m by (simp add: bit_mask_iff) arith
  qed
  then show ?thesis
    by (cases "n < 8"; cases "n < 16")
      (auto simp: bit_of_def b1_def nth_Cons' div_eq_0_iff)
qed

section \<open>Runs of the lock protocol\<close>

text \<open>\<open>c\<close> runs in a state \<open>s\<close> that can be reached, with the phases \<open>p\<close> and the queues \<open>q\<close>.\<close>

definition run_at ::
  "conf \<Rightarrow> sys \<Rightarrow> (nat \<Rightarrow> phase) \<Rightarrow> (list_id \<Rightarrow> nat list) \<Rightarrow> nat \<Rightarrow> bool" where
  "run_at x s p q c \<longleftrightarrow> (\<exists>d. turn_reachable x \<lparr>machine = s, phase_of = p, depth = d\<rparr>) \<and>
     sched_ok s q \<and> current_task s = Some c"

lemma run_atI:
  "run_at x s p q c \<Longrightarrow>
   (\<And>d. \<exists>d'. turn_step \<lparr>machine = s, phase_of = p, depth = d\<rparr> \<lparr>machine = s', phase_of = p', depth = d'\<rparr>) \<Longrightarrow>
   sched_ok s' q' \<Longrightarrow> current_task s' = Some c' \<Longrightarrow> run_at x s' p' q' c'"
  unfolding run_at_def by (blast intro: turn_next)

lemma run_atD:
  assumes "run_at x s p q c"
  shows "sched_ok s q" "current_task s = Some c" "\<exists>d. turn_reachable x \<lparr>machine = s, phase_of = p, depth = d\<rparr>"
  using assms by (simp_all add: run_at_def)

lemma run_preempt:
  assumes r: "run_at x s p q c" and "q ReadyList = n # ns" and "\<not> blocked s" and "\<forall>k. p c \<noteq> Waiting k"
  shows "\<exists>t. run_at x t p (q(ReadyList := ns @ [c])) n \<and> locks t = locks s \<and> \<not> blocked t"
proof -
  obtain f t where t: "schedule zero_context s = Inr (f, t)" "locks t = locks s" "\<not> blocked t"
      "sched_ok t (q(ReadyList := ns @ [c]))" "current_task t = Some n"
    using schedule_ok [OF run_atD(1,2) [OF r], of zero_context] assms(2,3) by auto
  have "turn_step \<lparr>machine = s, phase_of = p, depth = d\<rparr> \<lparr>machine = t, phase_of = p, depth = d\<rparr>" for d
    by (rule preempt [where c = c]) (use run_atD(2) [OF r] assms(3,4) t(1) in simp_all)
  then show ?thesis using run_atI [OF r _ t(4,5)] t(2,3) by blast
qed

text \<open>A step that only changes a lock and the mask.\<close>

lemma run_change:
  assumes r: "run_at x s p q c" and k: "k \<in> dom (locks s)"
    and st: "\<And>d. \<exists>d'. turn_step \<lparr>machine = s, phase_of = p, depth = d\<rparr>
      \<lparr>machine = s\<lparr>locks := (locks s)(k \<mapsto> l), blocked := b\<rparr>, phase_of = p', depth = d'\<rparr>"
  shows "\<exists>t. run_at x t p' q c \<and> locks t = (locks s)(k \<mapsto> l) \<and> blocked t = b"
proof -
  let ?t = "s\<lparr>locks := (locks s)(k \<mapsto> l), blocked := b\<rparr>"
  have "sched_ok ?t q"
    using run_atD(1) [OF r] k by (subst sched_ok_frame [of _ s]) (auto simp: insert_absorb)
  moreover have "current_task ?t = Some c" using run_atD(2) [OF r] by simp
  ultimately show ?thesis using run_atI [OF r st] by (intro exI [of _ ?t]) simp
qed

lemma run_lock:
  assumes r: "run_at x s p q c" and "p c = Running" and l: "locks s k = Some free_lock"
  shows "\<exists>t. run_at x t p q c \<and> locks t = (locks s)(k \<mapsto> held_lock c 1) \<and> \<not> blocked t"
proof -
  have "turn_step \<lparr>machine = s, phase_of = p, depth = d\<rparr>
      \<lparr>machine = s\<lparr>locks := (locks s)(k \<mapsto> taking_lock), blocked := False\<rparr>,
        phase_of = p(c := Got k), depth = d\<rparr>" for d
    by (rule enter [where c = c and k = k and l = free_lock])
      (use run_atD(2) [OF r] assms(2) l in \<open>simp_all add: down_free\<close>)
  then obtain t where t: "run_at x t (p(c := Got k)) q c" "locks t = (locks s)(k \<mapsto> taking_lock)"
      "\<not> blocked t"
    using run_change [OF r, where k = k and l = taking_lock and b = False and p' = "p(c := Got k)"] l by blast
  have "turn_step \<lparr>machine = t, phase_of = p(c := Got k), depth = d\<rparr>
      \<lparr>machine = t\<lparr>locks := (locks t)(k \<mapsto> held_lock c 1), blocked := False\<rparr>,
        phase_of = (p(c := Got k))(c := Running), depth = set_depth c k 1 d\<rparr>" for d
    by (rule taken [where c = c and k = k])
      (use run_atD(2) [OF t(1)] t(2,3) in \<open>simp_all add: lock_taken_run\<close>)
  then obtain u where u: "run_at x u ((p(c := Got k))(c := Running)) q c"
      "locks u = (locks t)(k \<mapsto> held_lock c 1)" "\<not> blocked u"
    using run_change [OF t(1), where k = k and l = "held_lock c 1" and b = False] t(2) by fastforce
  moreover have "(p(c := Got k))(c := Running) = p" using assms(2) by auto
  ultimately show ?thesis using t(2) by auto
qed

lemma run_wait:
  assumes r: "run_at x s p q c" and "p c = Running" and l: "locks s k = Some (held_lock b m)" "b \<noteq> c"
    and q: "q ReadyList = n # ns"
  shows "\<exists>t. run_at x t (p(c := Waiting k)) (q(ReadyList := ns, Waiters k := q (Waiters k) @ [c])) n \<and>
    locks t = locks s \<and> blocked t"
proof -
  obtain t where t: "sema_down k s = Switch t (sema_down_loop k)" "waited k c True s q t"
    using down_zero [OF run_atD(1) [OF r] l(1) _ run_atD(2) [OF r]] q by auto
  have "turn_step \<lparr>machine = s, phase_of = p, depth = d\<rparr>
      \<lparr>machine = t, phase_of = p(c := Waiting k), depth = d\<rparr>" for d
    by (rule wait [where c = c and k = k and l = "held_lock b m"])
      (use run_atD(2) [OF r] assms(2) l t(1) in simp_all)
  then show ?thesis
    using run_atI [OF r, of t "p(c := Waiting k)" "q(ReadyList := ns, Waiters k := q (Waiters k) @ [c])" n]
      t(2) q by (auto simp: waited_def)
qed

lemma run_wait_again:
  assumes r: "run_at x s p q c" and "p c = Waiting k"
    and l: "locks s k = Some l" "sema_value (sema l) = 0" and q: "q ReadyList = n # ns"
  shows "\<exists>t. run_at x t p (q(ReadyList := ns, Waiters k := q (Waiters k) @ [c])) n \<and>
    locks t = locks s \<and> blocked t = blocked s"
proof -
  obtain t where t: "sema_down_loop k s = Switch t (sema_down_loop k)" "waited k c (blocked s) s q t"
    using down_loop_zero [OF run_atD(1) [OF r] l run_atD(2) [OF r]] q by auto
  have "turn_step \<lparr>machine = s, phase_of = p, depth = d\<rparr> \<lparr>machine = t, phase_of = p, depth = d\<rparr>" for d
    by (rule wait_again [where c = c and k = k]) (use run_atD(2) [OF r] assms(2) t(1) in simp_all)
  then show ?thesis
    using run_atI [OF r, of t p "q(ReadyList := ns, Waiters k := q (Waiters k) @ [c])" n]
      t(2) q by (auto simp: waited_def)
qed

lemma run_resume:
  assumes r: "run_at x s p q c" and "p c = Waiting k" and l: "locks s k = Some free_lock"
  shows "\<exists>t. run_at x t (p(c := Got k)) q c \<and> locks t = (locks s)(k \<mapsto> taking_lock) \<and> \<not> blocked t"
proof -
  have "turn_step \<lparr>machine = s, phase_of = p, depth = d\<rparr>
      \<lparr>machine = s\<lparr>locks := (locks s)(k \<mapsto> taking_lock), blocked := False\<rparr>,
        phase_of = p(c := Got k), depth = d\<rparr>" for d
    by (rule resume [where c = c and k = k])
      (use run_atD(2) [OF r] assms(2) l in \<open>simp_all add: down_loop_free\<close>)
  then show ?thesis using run_change [OF r, where k = k and l = taking_lock and b = False and p' = "p(c := Got k)"] l by blast
qed

text \<open>A release up to the wake-up, which leaves the alarm unmasked.\<close>

lemma run_wake:
  assumes r: "run_at x s p q c" and "p c = Running" and l: "locks s k = Some (held_lock c 1)"
    and q: "q (Waiters k) = w # ws"
  shows "\<exists>t. run_at x t (p(c := Woke k)) (q(Waiters k := ws, ReadyList := w # q ReadyList)) c \<and>
    locks t = (locks s)(k \<mapsto> taking_lock) \<and> \<not> blocked t"
proof -
  have "turn_step \<lparr>machine = s, phase_of = p, depth = d\<rparr>
      \<lparr>machine = s\<lparr>locks := (locks s)(k \<mapsto> taking_lock), blocked := blocked s\<rparr>,
        phase_of = p(c := Gone k), depth = set_depth c k 0 d\<rparr>" for d
    by (rule drop [where c = c and k = k and l = "held_lock c 1"])
      (use run_atD(2) [OF r] assms(2) l in \<open>simp_all add: lock_drop_run\<close>)
  then obtain t where t: "run_at x t (p(c := Gone k)) q c" "locks t = (locks s)(k \<mapsto> taking_lock)"
    using run_change [OF r, where k = k and l = taking_lock and b = "blocked s" and p' = "p(c := Gone k)"] l by blast
  obtain u where u: "sema_up_wake k t = Inr u" "locks u = locks t" "\<not> blocked u"
      "sched_ok u (wake_queues k q)" "current_task u = Some c"
    using sema_up_wake_run [OF run_atD(1) [OF t(1)], of k] run_atD(2) [OF t(1)] t(2) q by auto
  have "turn_step \<lparr>machine = t, phase_of = p(c := Gone k), depth = d\<rparr>
      \<lparr>machine = u, phase_of = (p(c := Gone k))(c := Woke k), depth = d\<rparr>" for d
    by (rule up_wake [where c = c and k = k]) (use run_atD(2) [OF t(1)] u(1) in simp_all)
  then have "run_at x u ((p(c := Gone k))(c := Woke k)) (wake_queues k q) c"
    using run_atI [OF t(1) _ u(4,5)] by blast
  then show ?thesis using u(2,3) t(2) q by (auto simp: wake_queues_def)
qed

lemma run_raise:
  assumes r: "run_at x s p q c" and "p c = Woke k" and l: "locks s k = Some taking_lock"
  shows "\<exists>t. run_at x t (p(c := Raised k)) q c \<and> locks t = (locks s)(k \<mapsto> free_lock) \<and>
    blocked t = blocked s"
proof -
  have "turn_step \<lparr>machine = s, phase_of = p, depth = d\<rparr>
      \<lparr>machine = s\<lparr>locks := (locks s)(k \<mapsto> free_lock), blocked := blocked s\<rparr>,
        phase_of = p(c := Raised k), depth = d\<rparr>" for d
    by (rule up_raise [where c = c and k = k])
      (use run_atD(2) [OF r] assms(2) l in \<open>simp_all add: sema_up_raise_run\<close>)
  then show ?thesis using run_change [OF r, where k = k and l = free_lock and b = "blocked s" and p' = "p(c := Raised k)"] l by blast
qed

lemma run_done:
  assumes r: "run_at x s p q c" and "p c = Raised k" and l: "locks s k = Some free_lock"
  shows "\<exists>t. run_at x t (p(c := Running)) q c \<and> locks t = locks s \<and> \<not> blocked t"
proof -
  have id: "(locks s)(k \<mapsto> free_lock) = locks s" using l by auto
  have "turn_step \<lparr>machine = s, phase_of = p, depth = d\<rparr>
      \<lparr>machine = s\<lparr>locks := (locks s)(k \<mapsto> free_lock), blocked := False\<rparr>,
        phase_of = p(c := Running), depth = d\<rparr>" for d
    unfolding id
    by (rule up_done [where c = c and k = k])
      (use run_atD(2) [OF r] assms(2) l in \<open>simp_all add: sema_up_done_run\<close>)
  then show ?thesis
    using run_change [OF r, where k = k and l = free_lock and b = False and p' = "p(c := Running)"] l unfolding id by blast
qed

text \<open>Task \<open>1\<close> takes the console, task \<open>2\<close> is scheduled and has to wait for it; then \<open>3\<close> runs.\<close>

lemma demo_waiting:
  "\<exists>s. run_at (begin_conf s2) s ((\<lambda>_. Running)(2 := Waiting ConsoleLock))
     ((demo_q q2)(ReadyList := [1], Waiters ConsoleLock := [2])) 3 \<and>
   locks s = (locks s2)(ConsoleLock \<mapsto> held_lock 1 1)"
proof -
  let ?x = "begin_conf s2" and ?k = ConsoleLock
  have s2: "current_task s2 = Some 1" "locks s2 ?k = Some free_lock"
    by (simp_all add: s2_def demo_def)
  have q2: "demo_q q2 ReadyList = [2, 3]" "demo_q q2 (Waiters ?k) = []"
    by (simp_all add: demo_q_def q2_def)
  have "run_at ?x s2 (\<lambda>_. Running) (demo_q q2) 1"
    using s2_ok s2(1) turn_start [of ?x] by (auto simp: run_at_def begin_conf_def)
  from run_lock [OF this refl s2(2)] obtain t1 where 1: "run_at ?x t1 (\<lambda>_. Running) (demo_q q2) 1"
      "locks t1 = (locks s2)(?k \<mapsto> held_lock 1 1)" "\<not> blocked t1"
    by blast
  from run_preempt [OF 1(1) q2(1) 1(3)] obtain t2 where
    2: "run_at ?x t2 (\<lambda>_. Running) ((demo_q q2)(ReadyList := [3, 1])) 2"
      "locks t2 = (locks s2)(?k \<mapsto> held_lock 1 1)"
    using 1(2) by auto
  from run_wait [OF 2(1) refl, of ?k 1 1 3 "[1]"] obtain t3 where
    "run_at ?x t3 ((\<lambda>_. Running)(2 := Waiting ?k))
       ((demo_q q2)(ReadyList := [3, 1], ReadyList := [1], Waiters ?k := [2])) 3"
    "locks t3 = (locks s2)(?k \<mapsto> held_lock 1 1)"
    using 2(2) q2(2) by auto
  then show ?thesis by auto
qed

text \<open>
  Task \<open>3\<close> takes the tid lock, which unmasks the alarm, and is preempted; task \<open>1\<close> begins to
  release the console and has woken task \<open>2\<close>.
\<close>

lemma demo_woken:
  "\<exists>s. run_at (begin_conf s2) s ((\<lambda>_. Running)(2 := Waiting ConsoleLock, 1 := Woke ConsoleLock))
     ((demo_q q2)(ReadyList := [2, 3])) 1 \<and> \<not> blocked s \<and>
   locks s = (locks s2)(ConsoleLock \<mapsto> taking_lock, TidLock \<mapsto> held_lock 3 1)"
proof -
  let ?x = "begin_conf s2" and ?k = ConsoleLock
  let ?p = "(\<lambda>_. Running)(2 := Waiting ?k)" and ?q = "(demo_q q2)(ReadyList := [1], Waiters ?k := [2])"
  obtain t1 where 1: "run_at ?x t1 ?p ?q 3" "locks t1 = (locks s2)(?k \<mapsto> held_lock 1 1)"
    using demo_waiting by blast
  have "locks t1 TidLock = Some free_lock" using 1(2) by (simp add: s2_def demo_def)
  from run_lock [OF 1(1) _ this] obtain t2 where 2: "run_at ?x t2 ?p ?q 3"
      "locks t2 = (locks s2)(?k \<mapsto> held_lock 1 1, TidLock \<mapsto> held_lock 3 1)" "\<not> blocked t2"
    using 1(2) by auto
  from run_preempt [OF 2(1) _ 2(3), of 1 "[]"] obtain t3 where
    3: "run_at ?x t3 ?p (?q(ReadyList := [3])) 1"
      "locks t3 = (locks s2)(?k \<mapsto> held_lock 1 1, TidLock \<mapsto> held_lock 3 1)"
    using 2(2) by auto
  from run_wake [OF 3(1), of ?k 2 "[]"] 3(2) obtain t4 where
    4: "run_at ?x t4 (?p(1 := Woke ?k)) (?q(ReadyList := [3], Waiters ?k := [], ReadyList := [2, 3])) 1"
      "locks t4 = (locks s2)(?k \<mapsto> held_lock 1 1, TidLock \<mapsto> held_lock 3 1, ?k \<mapsto> taking_lock)"
      "\<not> blocked t4"
    by auto
  have "?q(ReadyList := [3], Waiters ?k := [], ReadyList := [2, 3]) = (demo_q q2)(ReadyList := [2, 3])"
    by (auto simp: fun_eq_iff demo_q_def q2_def)
  moreover have "(locks s2)(?k \<mapsto> held_lock 1 1, TidLock \<mapsto> held_lock 3 1, ?k \<mapsto> taking_lock) =
      (locks s2)(?k \<mapsto> taking_lock, TidLock \<mapsto> held_lock 3 1)"
    by auto
  ultimately show ?thesis using 4 by metis
qed

end
