(* ===== verification/Interleave.thy ===== *)
theory Interleave
  imports Protocol
begin

text \<open>
  The interleavings of \<open>lock_acquire\<close> and \<open>lock_release\<close>, statement by statement. Any task may
  call either function on any lock at any time, the running task executes the statement it has
  come to, and whenever the alarm is not masked it may come before the next statement.
  What a step executes without an alarm in it is: \<open>sema_down\<close> from \<open>interrupt_disable\<close> to its
  return or its first switch, and \<open>sema_up\<close> up to the return of \<open>task_unblock\<close>, which both run
  with the alarm masked; and, in a resumed turn of the loop, the calls of \<open>elem_find\<close>,
  \<open>list_append\<close> and \<open>task_block\<close>. Two granularities are given to \<open>value--\<close>: one instruction
  (\<open>step\<close>), or a load and a store with a place for the alarm between them (\<open>access_step\<close>).
\<close>

section \<open>One statement\<close>

definition goto :: "phase \<Rightarrow> sys result \<Rightarrow> (phase \<times> sys) result" where
  "goto x r = andthen r (\<lambda>s. Inr (x, s))"

lemma goto_simps [simp]: "goto x (Inl e) = Inl e" "goto x (Inr s) = Inr (x, s)"
  by (simp_all add: goto_def)

lemma goto_eq: "goto x r = Inr (y, t) \<longleftrightarrow> y = x \<and> r = Inr t"
  by (cases r) auto

text \<open>The statement at a place: the place after it, and the state; or the loop it spins in.\<close>

fun stmt :: "phase \<Rightarrow> sys \<Rightarrow> (phase \<times> sys) result" where
  "stmt Running s = Inr (Running, s)"
| "stmt (Acquire k) s = andthen (lock_at s k) (\<lambda>l.
     Inr (if holder l \<noteq> current_task s then Down k else Nested k, s))"
| "stmt (Nested k) s = goto Running (lock_again k s)"
| "stmt (Down k) s = (case sema_down k s of
       Done _ t \<Rightarrow> Inr (Got k, t) | Switch t _ \<Rightarrow> Inr (Waiting k, t)
     | Leave t \<Rightarrow> Inl Diverges | Fail e \<Rightarrow> Inl e)"
| "stmt (Waiting k) s = andthen (lock_at s k) (\<lambda>l.
     Inr (if sema_value (sema l) = 0 then Zero k else Passed k, s))"
| "stmt (Zero k) s = goto (Absent k) (sema_down_assert k s)"
| "stmt (Absent k) s = goto (Sure k) (sema_down_panic k s)"
| "stmt (Sure k) s = goto (Queued k) (sema_down_queue k s)"
| "stmt (Queued k) s = goto (Waiting k) (task_block_switch TASK_BLOCKED s)"
| "stmt (Passed k) s = goto (Lowered k) (sema_down_lower k s)"
| "stmt (Loaded k v) s = goto (Lowered k) (upd_lock k (\<lambda>l. l\<lparr>sema := \<lparr>sema_value = v - 1\<rparr>\<rparr>) s)"
| "stmt (Lowered k) s = goto (Checked k) (sema_down_check k s)"
| "stmt (Checked k) s = Inr (Got k, interrupt_enable s)"
| "stmt (Got k) s = goto (Owned k) (lock_own k s)"
| "stmt (Owned k) s = goto (Fresh k) (lock_unused k s)"
| "stmt (Fresh k) s = goto Running (lock_once k s)"
| "stmt (Release k) s = andthen (lock_at s k) (\<lambda>l.
     assert_c (holder l = current_task s) (Inr (Held k, s)))"
| "stmt (Held k) s = andthen (lock_at s k) (\<lambda>l.
     Inr (if holder_repeat_nr l > 1 then Many k else Last k, s))"
| "stmt (Many k) s = goto Running (lock_less k s)"
| "stmt (Last k) s = andthen (lock_at s k) (\<lambda>l.
     assert_c (holder_repeat_nr l = 1) (Inr (Sole k, s)))"
| "stmt (Sole k) s = goto (Cleared k) (lock_clear k s)"
| "stmt (Cleared k) s = goto (Gone k) (lock_zero k s)"
| "stmt (Gone k) s = goto (Woke k) (sema_up_wake k s)"
| "stmt (Woke k) s = goto (Raised k) (sema_up_raise k s)"
| "stmt (Raised k) s = goto (Upped k) (sema_up_check k s)"
| "stmt (Upped k) s = Inr (Running, interrupt_enable s)"

text \<open>The acquisitions and releases, counted at the last statement of the one and the first
  store of the other.\<close>

fun counted :: "nat \<Rightarrow> phase \<Rightarrow> (nat \<Rightarrow> lock_id \<Rightarrow> nat) \<Rightarrow> nat \<Rightarrow> lock_id \<Rightarrow> nat" where
  "counted c (Nested k) d = set_depth c k (Suc (d c k)) d"
| "counted c (Fresh k) d = set_depth c k 1 d"
| "counted c (Many k) d = set_depth c k (d c k - 1) d"
| "counted c (Sole k) d = set_depth c k 0 d"
| "counted c _ d = d"

section \<open>The interleavings\<close>

inductive step :: "conf \<Rightarrow> conf \<Rightarrow> bool" where
  acquire: "current_task s = Some c \<Longrightarrow> p c = Running \<Longrightarrow> locks s k = Some l \<Longrightarrow>
    (holder l = Some c \<longrightarrow> d c k < 2 ^ 32 - 1) \<Longrightarrow>
    step \<lparr>machine = s, phase_of = p, depth = d\<rparr> \<lparr>machine = s, phase_of = p(c := Acquire k), depth = d\<rparr>"
| release: "current_task s = Some c \<Longrightarrow> p c = Running \<Longrightarrow> k \<in> dom (locks s) \<Longrightarrow>
    step \<lparr>machine = s, phase_of = p, depth = d\<rparr> \<lparr>machine = s, phase_of = p(c := Release k), depth = d\<rparr>"
| exec: "current_task s = Some c \<Longrightarrow> stmt (p c) s = Inr (x, s') \<Longrightarrow>
    step \<lparr>machine = s, phase_of = p, depth = d\<rparr>
      \<lparr>machine = s', phase_of = p(c := x), depth = counted c (p c) d\<rparr>"
| alarm: "current_task s = Some c \<Longrightarrow> \<not> blocked s \<Longrightarrow> schedule frame s = Inr (frame', s') \<Longrightarrow>
    step \<lparr>machine = s, phase_of = p, depth = d\<rparr> \<lparr>machine = s', phase_of = p, depth = d\<rparr>"

inductive reachable :: "conf \<Rightarrow> conf \<Rightarrow> bool" for x where
  here: "reachable x x"
| onward: "reachable x y \<Longrightarrow> step y z \<Longrightarrow> reachable x z"

text \<open>With \<open>value--\<close> as two memory accesses, which is how it compiles without optimisation.\<close>

inductive access_step :: "conf \<Rightarrow> conf \<Rightarrow> bool" where
  whole: "step x y \<Longrightarrow> access_step x y"
| load: "current_task s = Some c \<Longrightarrow> p c = Passed k \<Longrightarrow> locks s k = Some l \<Longrightarrow>
    access_step \<lparr>machine = s, phase_of = p, depth = d\<rparr>
      \<lparr>machine = s, phase_of = p(c := Loaded k (sema_value (sema l))), depth = d\<rparr>"

inductive access_reachable :: "conf \<Rightarrow> conf \<Rightarrow> bool" for x where
  access_here: "access_reachable x x"
| access_onward: "access_reachable x y \<Longrightarrow> access_step y z \<Longrightarrow> access_reachable x z"

lemma reachable_trans: "reachable y z \<Longrightarrow> reachable x y \<Longrightarrow> reachable x z"
  by (induction rule: reachable.induct) (auto intro: onward)

lemma reachable_access: "reachable x y \<Longrightarrow> access_reachable x y"
  by (induction rule: reachable.induct) (auto intro: access_here access_onward whole)

section \<open>A run of the coarse relation is a run of statements\<close>

lemma go:
  assumes "reachable x \<lparr>machine = s, phase_of = p, depth = d\<rparr>" and "current_task s = Some c"
    and "p c = a" and "stmt a s = Inr (b, s')"
  shows "reachable x \<lparr>machine = s', phase_of = p(c := b), depth = counted c a d\<rparr>"
  using onward [OF assms(1) exec, of c b s'] assms(2-4) by auto

lemma upd_lock_Inr:
  "upd_lock k f s = Inr t \<longleftrightarrow> (\<exists>l. locks s k = Some l \<and> t = s\<lparr>locks := (locks s)(k \<mapsto> f l)\<rparr>)"
  by (auto simp: upd_lock_def lock_at_def split: option.splits)

lemma lock_at_Inr: "lock_at s k = Inr l \<longleftrightarrow> locks s k = Some l"
  by (auto simp: lock_at_def split: option.splits)

lemma assert_c_Inr: "assert_c b m = Inr t \<longleftrightarrow> b \<and> m = Inr t"
  by (simp add: assert_c_def)

lemmas stmt_eqs = andthen_eq_Inr assert_c_Inr lock_at_Inr upd_lock_Inr goto_eq

lemma down_assert_Inr: "sema_down_assert k s = Inr t \<Longrightarrow> t = s"
  and down_panic_Inr: "sema_down_panic k s = Inr t \<Longrightarrow> t = s"
  by (auto simp: sema_down_assert_def sema_down_panic_def stmt_eqs split: if_splits)

lemma down_queue_Inr:
  assumes "sema_down_queue k s = Inr t"
  obtains h where "t = s\<lparr>cells := h\<rparr>"
  using assms by (auto simp: sema_down_queue_def append_cell_def on_cells_def stmt_eqs)

lemma down_take_Inr:
  assumes "sema_down_take k s = Inr t"
  obtains l u where "locks s k = Some l" "u = s\<lparr>locks := (locks s)(k \<mapsto>
      l\<lparr>sema := \<lparr>sema_value = sema_value (sema l) - 1\<rparr>\<rparr>)\<rparr>" "sema_down_lower k s = Inr u"
    "sema_down_check k u = Inr u" "t = interrupt_enable u"
  using assms by (auto simp: take_defs stmt_eqs)

lemma down_loop_Done:
  assumes "sema_down_loop k s = Done () t"
  obtains l where "locks s k = Some l" "sema_value (sema l) \<noteq> 0" "sema_down_take k s = Inr t"
  using assms by (subst (asm) sema_down_loop.code) (auto simp: lock_at_Inr split: sum.splits if_splits)

lemma down_loop_Switch:
  assumes "sema_down_loop k s = Switch t r"
  obtains l where "locks s k = Some l" "sema_value (sema l) = 0" "sema_down_wait k s = Inr t"
    "r = sema_down_loop k"
  using assms by (subst (asm) sema_down_loop.code) (auto simp: lock_at_Inr split: sum.splits if_splits)

text \<open>A resumed task that takes the semaphore, and one that waits again.\<close>

lemma go_take:
  assumes r: "reachable x \<lparr>machine = s, phase_of = p, depth = d\<rparr>" and c: "current_task s = Some c"
    and p: "p c = Waiting k" and run: "sema_down_loop k s = Done () t"
  shows "reachable x \<lparr>machine = t, phase_of = p(c := Got k), depth = d\<rparr>"
proof -
  obtain l where l: "locks s k = Some l" "sema_value (sema l) \<noteq> 0" "sema_down_take k s = Inr t"
    using down_loop_Done [OF run] by blast
  obtain u l' where u: "u = s\<lparr>locks := (locks s)(k \<mapsto> l')\<rparr>" "sema_down_lower k s = Inr u"
      "sema_down_check k u = Inr u" "t = interrupt_enable u"
    using down_take_Inr [OF l(3)] by metis
  have "reachable x \<lparr>machine = s, phase_of = p(c := Passed k), depth = d\<rparr>"
    using go [OF r c p, of "Passed k" s] l by (simp add: lock_at_def)
  from go [OF this c _, of "Passed k" "Lowered k" u]
  have "reachable x \<lparr>machine = u, phase_of = p(c := Lowered k), depth = d\<rparr>" using u(2) by simp
  from go [OF this _, of c "Lowered k" "Checked k" u] c
  have "reachable x \<lparr>machine = u, phase_of = p(c := Checked k), depth = d\<rparr>" using u(1,3) by simp
  from go [OF this _, of c "Checked k" "Got k" t] c show ?thesis using u(1,4) by simp
qed

lemma go_wait:
  assumes r: "reachable x \<lparr>machine = s, phase_of = p, depth = d\<rparr>" and c: "current_task s = Some c"
    and p: "p c = Waiting k" and run: "sema_down_loop k s = Switch t f"
  shows "reachable x \<lparr>machine = t, phase_of = p, depth = d\<rparr>"
proof -
  obtain l where l: "locks s k = Some l" "sema_value (sema l) = 0" "sema_down_wait k s = Inr t"
    using down_loop_Switch [OF run] by blast
  obtain u where u: "sema_down_assert k s = Inr s" "sema_down_panic k s = Inr s"
      "sema_down_queue k s = Inr u" "task_block_switch TASK_BLOCKED u = Inr t"
    using l(3) unfolding sema_down_wait_def andthen_eq_Inr by (metis down_assert_Inr down_panic_Inr)
  have cu: "current_task u = Some c" using down_queue_Inr [OF u(3)] c by (metis sys.select_convs(4) sys.surjective sys.update_convs(1))
  have "reachable x \<lparr>machine = s, phase_of = p(c := Zero k), depth = d\<rparr>"
    using go [OF r c p, of "Zero k" s] l by (simp add: lock_at_def)
  from go [OF this c _, of "Zero k" "Absent k" s]
  have "reachable x \<lparr>machine = s, phase_of = p(c := Absent k), depth = d\<rparr>" using u(1) by simp
  from go [OF this c _, of "Absent k" "Sure k" s]
  have "reachable x \<lparr>machine = s, phase_of = p(c := Sure k), depth = d\<rparr>" using u(2) by simp
  from go [OF this c _, of "Sure k" "Queued k" u]
  have "reachable x \<lparr>machine = u, phase_of = p(c := Queued k), depth = d\<rparr>" using u(3) by simp
  from go [OF this cu _, of "Queued k" "Waiting k" t]
  have "reachable x \<lparr>machine = t, phase_of = p(c := Waiting k), depth = d\<rparr>" using u(4) by simp
  then show ?thesis using p by (simp add: fun_upd_idem)
qed

lemma go_taken:
  assumes r: "reachable x \<lparr>machine = s, phase_of = p, depth = d\<rparr>" and c: "current_task s = Some c"
    and p: "p c = Got k" and run: "lock_taken k s = Inr t"
  shows "reachable x \<lparr>machine = t, phase_of = p(c := Running), depth = set_depth c k 1 d\<rparr>"
proof -
  obtain u where u: "lock_own k s = Inr u" "lock_unused k u = Inr u" "lock_once k u = Inr t"
    using run by (auto simp: taken_defs stmt_eqs)
  have cu: "current_task u = Some c" using u(1) c by (auto simp: lock_own_def stmt_eqs)
  from go [OF r c p, of "Owned k" u]
  have "reachable x \<lparr>machine = u, phase_of = p(c := Owned k), depth = d\<rparr>" using u(1) by simp
  from go [OF this cu _, of "Owned k" "Fresh k" u]
  have "reachable x \<lparr>machine = u, phase_of = p(c := Fresh k), depth = d\<rparr>" using u(2) by simp
  from go [OF this cu _, of "Fresh k" Running t] show ?thesis using u(3) by simp
qed

lemma go_release:
  assumes r: "reachable x \<lparr>machine = s, phase_of = p, depth = d\<rparr>" and c: "current_task s = Some c"
    and p: "p c = Running" and l: "locks s k = Some l" "holder l = Some c"
  shows "reachable x \<lparr>machine = s, phase_of = p(c := if holder_repeat_nr l > 1 then Many k else Last k),
    depth = d\<rparr>"
proof -
  have "k \<in> dom (locks s)" using l(1) by blast
  from onward [OF r release [where p = p, OF c p this]]
  have "reachable x \<lparr>machine = s, phase_of = p(c := Release k), depth = d\<rparr>" .
  from go [OF this c _, of "Release k" "Held k" s]
  have "reachable x \<lparr>machine = s, phase_of = p(c := Held k), depth = d\<rparr>"
    using l c by (simp add: lock_at_def)
  from go [OF this c _, of "Held k" _ s] show ?thesis using l by (simp add: lock_at_def)
qed

lemma go_acquire:
  assumes r: "reachable x \<lparr>machine = s, phase_of = p, depth = d\<rparr>" and c: "current_task s = Some c"
    and p: "p c = Running" and l: "locks s k = Some l" and d: "holder l = Some c \<longrightarrow> d c k < 2 ^ 32 - 1"
  shows "reachable x \<lparr>machine = s, phase_of = p(c := if holder l \<noteq> Some c then Down k else Nested k),
    depth = d\<rparr>"
proof -
  from onward [OF r acquire [where d = d and p = p, OF c p l d]]
  have "reachable x \<lparr>machine = s, phase_of = p(c := Acquire k), depth = d\<rparr>" .
  from go [OF this c _, of "Acquire k" _ s] show ?thesis using l c by (simp add: lock_at_def)
qed

lemma turn_is_run:
  assumes "turn_step y z" and "reachable x y"
  shows "reachable x z"
  using assms
proof (induction rule: turn_step.induct)
  case (again s c p k l d s')
  have run: "lock_again k s = Inr s'"
    using again(1,3,4,6) by (simp add: lock_acquire_def lock_at_def lift_run_def split: sum.splits)
  have "reachable x \<lparr>machine = s, phase_of = p(c := Nested k), depth = d\<rparr>"
    using go_acquire [OF again(7,1,2,3)] again(4,5) by simp
  from go [OF this again(1) _, of "Nested k" Running s'] run show ?case
    using again(2) by (simp add: fun_upd_idem)
next
  case (enter s c p k l s' d)
  have "reachable x \<lparr>machine = s, phase_of = p(c := Down k), depth = d\<rparr>"
    using go_acquire [OF enter(6,1,2,3)] enter(4) by simp
  from go [OF this enter(1) _, of "Down k" "Got k" s'] enter(5) show ?case by simp
next
  case (wait s c p k l s' r d)
  have "reachable x \<lparr>machine = s, phase_of = p(c := Down k), depth = d\<rparr>"
    using go_acquire [OF wait(6,1,2,3)] wait(4) by simp
  from go [OF this wait(1) _, of "Down k" "Waiting k" s'] wait(5) show ?case by simp
next
  case (resume s c p k s' d)
  then show ?case using go_take [OF resume(4,1,2,3)] by simp
next
  case (wait_again s c p k s' r d)
  then show ?case using go_wait [OF wait_again(4,1,2,3)] by simp
next
  case (taken s c p k s' d)
  then show ?case using go_taken [OF taken(4,1,2,3)] by simp
next
  case (leave s c p k l s' d)
  have run: "lock_less k s = Inr s'"
    using leave(1,3-6) by (simp add: lock_release_def lock_at_def)
  have "reachable x \<lparr>machine = s, phase_of = p(c := Many k), depth = d\<rparr>"
    using go_release [OF leave(7,1,2,3,4)] leave(5) by simp
  from go [OF this leave(1) _, of "Many k" Running s'] run show ?case
    using leave(2) by (simp add: fun_upd_idem)
next
  case (drop s c p k l s' d)
  obtain u where u: "lock_clear k s = Inr u" "lock_zero k u = Inr s'"
    using drop(6) by (auto simp: lock_drop_def andthen_eq_Inr)
  have cu: "current_task u = Some c" using u(1) drop(1) by (auto simp: lock_clear_def stmt_eqs)
  have "reachable x \<lparr>machine = s, phase_of = p(c := Last k), depth = d\<rparr>"
    using go_release [OF drop(7,1,2,3,4)] drop(5) by simp
  from go [OF this drop(1) _, of "Last k" "Sole k" s]
  have "reachable x \<lparr>machine = s, phase_of = p(c := Sole k), depth = d\<rparr>"
    using drop(3,5) by (simp add: lock_at_def)
  from go [OF this drop(1) _, of "Sole k" "Cleared k" u]
  have "reachable x \<lparr>machine = u, phase_of = p(c := Cleared k), depth = set_depth c k 0 d\<rparr>"
    using u(1) by simp
  from go [OF this cu _, of "Cleared k" "Gone k" s'] u(2) show ?case by simp
next
  case (up_wake s c p k s' d)
  then show ?case using go [OF up_wake(4,1,2), of "Woke k" s'] by simp
next
  case (up_raise s c p k s' d)
  then show ?case using go [OF up_raise(4,1,2), of "Raised k" s'] by simp
next
  case (up_done s c p k s' d)
  obtain u where u: "sema_up_check k s = Inr s" "s' = interrupt_enable s"
    using up_done(3) by (auto simp: sema_up_done_def sema_up_check_def stmt_eqs)
  have "reachable x \<lparr>machine = s, phase_of = p(c := Upped k), depth = d\<rparr>"
    using go [OF up_done(4,1,2), of "Upped k" s] u(1) by simp
  from go [OF this up_done(1) _, of "Upped k" Running s'] u(2) show ?case by simp
next
  case (preempt s c p frame frame' s' d)
  from onward [OF preempt(5) alarm [OF preempt(1,2,4)]] show ?case .
qed

theorem turn_reachable_reachable: "turn_reachable x y \<Longrightarrow> reachable x y"
  by (induction rule: turn_reachable.induct) (auto intro: here turn_is_run)

end
