(* ===== verification/Exclusion.thy ===== *)
theory Exclusion
  imports Interleave
begin

text \<open>
  The invariant of the interleaved lock calls. A resumed waiter can pass the test of the loop of
  \<open>sema_down\<close> on a value that another task then takes, so the value is not 0 or 1: it is one
  less the number of tasks that have decremented it and not given it back, modulo 256.
  Each task satisfies an assertion about the lock at the statement it has come to, and no step of
  another task falsifies it.
\<close>

section \<open>What the statements leave alone\<close>

definition same_locks :: "sys \<Rightarrow> sys \<Rightarrow> bool" where
  "same_locks s t \<longleftrightarrow> locks t = locks s \<and> (\<forall>i. tasks t i = None \<longleftrightarrow> tasks s i = None) \<and>
     (\<exists>c. current_task t = Some c \<and> tasks s c \<noteq> None)"

lemma same_locksD:
  assumes "same_locks s t"
  shows "locks t = locks s" "dom (tasks t) = dom (tasks s)" "\<exists>c\<in>dom (tasks s). current_task t = Some c"
  using assms by (auto simp: same_locks_def dom_def)

lemma upd_task_Inr:
  "upd_task i f s = Inr t \<longleftrightarrow> (\<exists>ts. tasks s i = Some ts \<and> t = s\<lparr>tasks := (tasks s)(i \<mapsto> f ts)\<rparr>)"
  by (auto simp: upd_task_def task_at_def split: option.splits)

lemma on_cells_Inr: "on_cells f s = Inr t \<longleftrightarrow> (\<exists>h. f (cells s) = Inr h \<and> t = s\<lparr>cells := h\<rparr>)"
  by (auto simp: on_cells_def andthen_eq_Inr)

lemma pop_cell_Inr:
  "pop_cell i s = Inr (e, t) \<longleftrightarrow> (\<exists>h. list_pop (list_at i) (cells s) = Inr (e, h) \<and> t = s\<lparr>cells := h\<rparr>)"
  by (auto simp: pop_cell_def andthen_eq_Inr split: prod.splits)

lemma task_at_Inr: "task_at s i = Inr ts \<longleftrightarrow> tasks s i = Some ts"
  by (auto simp: task_at_def split: option.splits)

lemma current_Inr: "current s = Inr c \<longleftrightarrow> current_task s = Some c"
  by (auto simp: current_def deref_def split: option.splits)

lemma context_swap_Inr:
  "context_swap a b s = Inr t \<Longrightarrow> locks t = locks s \<and> (\<forall>i. tasks t i = None \<longleftrightarrow> tasks s i = None) \<and>
     current_task t = current_task s"
  by (auto simp: context_swap_def andthen_eq_Inr upd_task_Inr task_at_Inr Let_def case_prod_beta
      split: if_splits)

lemmas frame_eqs = andthen_eq_Inr assert_c_Inr upd_task_Inr on_cells_Inr pop_cell_Inr task_at_Inr
  current_Inr

lemma get_next_task_Inr:
  assumes "get_next_task s = Inr (n, t)"
  shows "locks t = locks s \<and> (\<forall>i. tasks t i = None \<longleftrightarrow> tasks s i = None) \<and> current_task t = current_task s \<and>
    tasks s n \<noteq> None"
  using assms
  by (auto simp: get_next_task_def set_status_def frame_eqs Let_def split: prod.splits if_splits)

lemma schedule_locks:
  assumes "schedule frame s = Inr (frame', t)"
  shows "same_locks s t"
  using assms
  by (auto simp: schedule_def same_locks_def append_cell_def set_status_def frame_eqs Let_def
      split: prod.splits if_splits dest!: get_next_task_Inr)

lemma block_locks:
  assumes "task_block_switch st s = Inr t"
  shows "same_locks s t"
  using assms
  by (auto simp: task_block_switch_def block_task_schedule_def same_locks_def set_status_def frame_eqs
      Let_def split: prod.splits if_splits dest!: context_swap_Inr)

lemma unblock_locks:
  assumes "task_unblock i s = Inr t"
  shows "locks t = locks s \<and> (\<forall>i. tasks t i = None \<longleftrightarrow> tasks s i = None) \<and> current_task t = current_task s"
  using assms
  by (auto simp: task_unblock_def set_status_def push_cell_def frame_eqs Let_def
      interrupt_disable_def interrupt_enable_def split: if_splits)

lemma up_wake_locks:
  assumes "sema_up_wake k s = Inr t"
  shows "locks t = locks s \<and> (\<forall>i. tasks t i = None \<longleftrightarrow> tasks s i = None) \<and> current_task t = current_task s \<and>
    (\<exists>l. locks s k = Some l \<and> sema_value (sema l) = 0)"
  using assms
  by (auto simp: sema_up_wake_def frame_eqs lock_at_Inr Let_def interrupt_disable_def
      split: prod.splits if_splits dest!: unblock_locks)

section \<open>The first turn of \<open>sema_down\<close>\<close>

lemma down_Done:
  assumes "sema_down k s = Done () t"
  shows "\<exists>l. locks s k = Some l \<and> sema_value (sema l) = 1 \<and>
    locks t = (locks s)(k \<mapsto> l\<lparr>sema := \<lparr>sema_value = 0\<rparr>\<rparr>) \<and> dom (tasks t) = dom (tasks s) \<and>
    current_task t = current_task s"
proof -
  obtain l where l: "locks s k = Some l" "sema_down_take k (interrupt_disable s) = Inr t"
    using down_loop_Done [OF assms [unfolded sema_down_def]] by (auto simp: interrupt_disable_def)
  from l(2) have "sema_value (sema l) - 1 = 0"
    using l(1) by (auto simp: take_defs stmt_eqs interrupt_disable_def)
  then have "sema_value (sema l) = 1" by simp
  with l show ?thesis
    by (auto simp: take_defs stmt_eqs interrupt_disable_def interrupt_enable_def)
qed

lemma down_Switch:
  assumes "sema_down k s = Switch t r"
  shows "same_locks s t"
proof -
  let ?s = "interrupt_disable s"
  obtain u where "sema_down_queue k ?s = Inr u" "task_block_switch TASK_BLOCKED u = Inr t"
    using down_loop_Switch [OF assms [unfolded sema_down_def]]
    unfolding sema_down_wait_def andthen_eq_Inr by (metis down_assert_Inr down_panic_Inr)
  moreover from this(1) obtain h where "u = ?s\<lparr>cells := h\<rparr>" by (rule down_queue_Inr)
  ultimately show ?thesis
    using block_locks [of TASK_BLOCKED u t] by (simp add: same_locks_def interrupt_disable_def)
qed

section \<open>The assertions\<close>

definition owns :: "lock_id \<Rightarrow> lock \<Rightarrow> nat \<Rightarrow> phase \<Rightarrow> bool" where
  "owns k l c x \<longleftrightarrow> at_lock k x \<or> holder l = Some c"

definition busy :: "lock_id \<Rightarrow> lock \<Rightarrow> nat \<Rightarrow> phase \<Rightarrow> bool" where
  "busy k l c x \<longleftrightarrow> owns k l c x \<or> x = Lowered k"

definition place_ok :: "lock_id \<Rightarrow> lock \<Rightarrow> nat \<Rightarrow> phase \<Rightarrow> nat \<Rightarrow> bool" where
  "place_ok k l c x n \<longleftrightarrow>
     n = (if holder l = Some c then unat (holder_repeat_nr l) else 0) \<and>
     (\<forall>v. x \<noteq> Loaded k v) \<and>
     (x = Nested k \<longrightarrow> holder l = Some c \<and> n < 2 ^ 32 - 1) \<and>
     (x = Acquire k \<and> holder l = Some c \<longrightarrow> n < 2 ^ 32 - 1) \<and>
     (x \<in> {Owned k, Fresh k} \<longrightarrow> holder l = Some c \<and> holder_repeat_nr l = 0) \<and>
     (x \<in> {Held k, Many k, Last k, Sole k} \<longrightarrow> holder l = Some c) \<and>
     (x = Many k \<longrightarrow> holder_repeat_nr l > 1) \<and>
     (x = Last k \<longrightarrow> holder_repeat_nr l = 1) \<and>
     (x \<in> {Down k, Waiting k, Zero k, Absent k, Sure k, Queued k, Passed k, Lowered k, Checked k,
        Got k, Cleared k, Gone k, Woke k, Raised k, Upped k} \<longrightarrow> holder l \<noteq> Some c) \<and>
     (holder l = Some c \<and> x \<notin> {Owned k, Fresh k} \<longrightarrow> holder_repeat_nr l \<noteq> 0)"

definition lock_inv :: "nat set \<Rightarrow> lock_id \<Rightarrow> lock \<Rightarrow> (nat \<Rightarrow> phase) \<Rightarrow> (nat \<Rightarrow> nat) \<Rightarrow> bool" where
  "lock_inv T k l p n \<longleftrightarrow>
     {c. busy k l c (p c)} \<subseteq> T \<and>
     sema_value (sema l) = 1 - of_nat (card {c. busy k l c (p c)}) \<and>
     (\<forall>b c. owns k l b (p b) \<longrightarrow> owns k l c (p c) \<longrightarrow> b = c) \<and>
     (\<forall>c. place_ok k l c (p c) (n c)) \<and>
     (holder l = None \<and> (\<forall>c. p c \<noteq> Cleared k) \<longrightarrow> holder_repeat_nr l = 0)"

text \<open>The lock a place is about.\<close>

fun lock_of :: "phase \<Rightarrow> lock_id option" where
  "lock_of Running = None"
| "lock_of (Acquire k) = Some k" | "lock_of (Nested k) = Some k" | "lock_of (Down k) = Some k"
| "lock_of (Waiting k) = Some k" | "lock_of (Zero k) = Some k" | "lock_of (Absent k) = Some k"
| "lock_of (Sure k) = Some k" | "lock_of (Queued k) = Some k" | "lock_of (Passed k) = Some k"
| "lock_of (Loaded k v) = Some k" | "lock_of (Lowered k) = Some k" | "lock_of (Checked k) = Some k"
| "lock_of (Got k) = Some k" | "lock_of (Owned k) = Some k" | "lock_of (Fresh k) = Some k"
| "lock_of (Release k) = Some k" | "lock_of (Held k) = Some k" | "lock_of (Many k) = Some k"
| "lock_of (Last k) = Some k" | "lock_of (Sole k) = Some k" | "lock_of (Cleared k) = Some k"
| "lock_of (Gone k) = Some k" | "lock_of (Woke k) = Some k" | "lock_of (Raised k) = Some k"
| "lock_of (Upped k) = Some k"

lemma elsewhere:
  assumes "lock_of x \<noteq> Some k"
  shows "\<not> at_lock k x" "x \<noteq> Lowered k" "x \<noteq> Cleared k"
    "place_ok k l c x n \<longleftrightarrow> n = (if holder l = Some c then unat (holder_repeat_nr l) else 0) \<and>
       (holder l = Some c \<longrightarrow> holder_repeat_nr l \<noteq> 0)"
  using assms by (cases x; auto simp: place_ok_def)+

text \<open>The assertions, place by place.\<close>

definition count_ok :: "lock \<Rightarrow> nat \<Rightarrow> nat \<Rightarrow> bool" where
  "count_ok l c n \<longleftrightarrow> n = (if holder l = Some c then unat (holder_repeat_nr l) else 0) \<and>
     (holder l = Some c \<longrightarrow> holder_repeat_nr l \<noteq> 0)"

lemma place_out:
  assumes "x \<in> {Down k, Waiting k, Zero k, Absent k, Sure k, Queued k, Passed k, Lowered k, Checked k,
    Got k, Cleared k, Gone k, Woke k, Raised k, Upped k}"
  shows "place_ok k l c x n \<longleftrightarrow> holder l \<noteq> Some c \<and> n = 0"
  using assms by (elim insertE emptyE; simp add: place_ok_def; blast)

lemma place_at [simp]:
  "place_ok k l c Running n \<longleftrightarrow> count_ok l c n"
  "place_ok k l c (Acquire k) n \<longleftrightarrow> count_ok l c n \<and> (holder l = Some c \<longrightarrow> n < 2 ^ 32 - 1)"
  "place_ok k l c (Nested k) n \<longleftrightarrow> count_ok l c n \<and> holder l = Some c \<and> n < 2 ^ 32 - 1"
  "place_ok k l c (Owned k) n \<longleftrightarrow> holder l = Some c \<and> holder_repeat_nr l = 0 \<and> n = 0"
  "place_ok k l c (Fresh k) n \<longleftrightarrow> holder l = Some c \<and> holder_repeat_nr l = 0 \<and> n = 0"
  "place_ok k l c (Release k) n \<longleftrightarrow> count_ok l c n"
  "place_ok k l c (Held k) n \<longleftrightarrow> count_ok l c n \<and> holder l = Some c"
  "place_ok k l c (Many k) n \<longleftrightarrow> count_ok l c n \<and> holder l = Some c \<and> holder_repeat_nr l > 1"
  "place_ok k l c (Last k) n \<longleftrightarrow> count_ok l c n \<and> holder l = Some c \<and> holder_repeat_nr l = 1"
  "place_ok k l c (Sole k) n \<longleftrightarrow> count_ok l c n \<and> holder l = Some c"
  by (auto simp: place_ok_def count_ok_def)

section \<open>One task moves\<close>

lemma place_ok_other:
  assumes "place_ok k l c x n" and "holder l' = Some c \<longleftrightarrow> holder l = Some c"
    and "holder l = Some c \<longrightarrow> holder_repeat_nr l' = holder_repeat_nr l"
  shows "place_ok k l' c x n"
  using assms unfolding place_ok_def by (cases "holder l = Some c") auto

lemma lock_inv_move:
  assumes i: "lock_inv T k l p n" and T: "finite T" "c \<in> T"
    and v: "sema_value (sema l') = sema_value (sema l) + of_bool (busy k l c (p c)) - of_bool (busy k l' c y)"
    and h: "\<And>b. b \<noteq> c \<Longrightarrow> holder l' = Some b \<longleftrightarrow> holder l = Some b"
    and r: "\<And>b. b \<noteq> c \<Longrightarrow> holder l = Some b \<Longrightarrow> holder_repeat_nr l' = holder_repeat_nr l"
    and o: "owns k l' c y \<Longrightarrow> \<not> owns k l c (p c) \<Longrightarrow> \<forall>b. b \<noteq> c \<longrightarrow> \<not> owns k l b (p b)"
    and y: "place_ok k l' c y m"
    and z: "holder l' = None \<Longrightarrow> y \<noteq> Cleared k \<Longrightarrow> (\<forall>b. b \<noteq> c \<longrightarrow> p b \<noteq> Cleared k) \<Longrightarrow>
      holder_repeat_nr l' = 0"
  shows "lock_inv T k l' (p(c := y)) (n(c := m))"
proof -
  let ?A = "{b. busy k l b (p b)}" and ?B = "{b. busy k l' b ((p(c := y)) b)}"
  have A: "?A \<subseteq> T" and va: "sema_value (sema l) = 1 - of_nat (card ?A)"
    and one: "\<And>a b. owns k l a (p a) \<Longrightarrow> owns k l b (p b) \<Longrightarrow> a = b"
    and pl: "\<And>b. place_ok k l b (p b) (n b)"
    using i unfolding lock_inv_def by blast+
  have fin: "finite ?A" using A T(1) by (rule finite_subset)
  have own: "owns k l' b x \<longleftrightarrow> owns k l b x" if "b \<noteq> c" for b x using h [OF that] by (simp add: owns_def)
  then have B: "?B = (if busy k l' c y then insert c (?A - {c}) else ?A - {c})"
    by (auto simp: busy_def)
  have "of_nat (card ?B) = of_nat (card (?A - {c})) + (of_bool (busy k l' c y) :: 8 word)"
    unfolding B using fin by (simp add: card.insert_remove)
  moreover have "card ?A = card (?A - {c}) + of_bool (c \<in> ?A)"
    using card_Suc_Diff1 [OF fin, of c] by (cases "c \<in> ?A") auto
  then have "of_nat (card ?A) = (of_nat (card (?A - {c}) + of_bool (c \<in> ?A)) :: 8 word)"
    by (rule arg_cong)
  then have "of_nat (card ?A) = of_nat (card (?A - {c})) + (of_bool (busy k l c (p c)) :: 8 word)"
    by (simp only: of_nat_add of_nat_of_bool mem_Collect_eq)
  ultimately have val: "sema_value (sema l') = 1 - of_nat (card ?B)" using v va by simp
  show ?thesis unfolding lock_inv_def
  proof (intro conjI allI impI)
    show "?B \<subseteq> T" using A T(2) unfolding B by auto
    show "sema_value (sema l') = 1 - of_nat (card ?B)" by (rule val)
    show "a = b" if "owns k l' a ((p(c := y)) a)" "owns k l' b ((p(c := y)) b)" for a b
    proof -
      have alone: "\<not> owns k l b (p b)" if "owns k l' c y" "b \<noteq> c" for b
        using one [of b c] o that by blast
      show ?thesis
      proof (cases "a = c \<or> b = c")
        case True
        then show ?thesis using that alone own by (metis fun_upd_other fun_upd_same)
      next
        case False
        then show ?thesis using that one [of a b] own by simp
      qed
    qed
    show "place_ok k l' b ((p(c := y)) b) ((n(c := m)) b)" for b
      using y place_ok_other [OF pl [of b], where l' = l'] h [of b] r [of b] by (cases "b = c") auto
    show "holder_repeat_nr l' = 0" if "holder l' = None \<and> (\<forall>b. (p(c := y)) b \<noteq> Cleared k)"
      using that z by (metis fun_upd_other fun_upd_same)
  qed
qed


section \<open>Every step keeps the invariant\<close>

definition steady :: "nat set \<Rightarrow> conf \<Rightarrow> bool" where
  "steady T x \<longleftrightarrow> dom (tasks (machine x)) = T \<and>
     (\<exists>c\<in>T. current_task (machine x) = Some c) \<and>
     (\<forall>k l. locks (machine x) k = Some l \<longrightarrow> lock_inv T k l (phase_of x) (\<lambda>c. depth x c k)) \<and>
     (\<forall>c k. lock_of (phase_of x c) = Some k \<longrightarrow> k \<in> dom (locks (machine x)))"

lemma steadyD:
  assumes "steady T \<lparr>machine = s, phase_of = p, depth = d\<rparr>"
  shows "dom (tasks s) = T" and "current_task s = Some c \<Longrightarrow> c \<in> T"
    and "locks s k = Some l \<Longrightarrow> lock_inv T k l p (\<lambda>c. d c k)"
    and "lock_of (p c) = Some k \<Longrightarrow> k \<in> dom (locks s)"
  using assms by (auto simp: steady_def)

lemma lock_invD:
  assumes "lock_inv T k l p n"
  shows "{c. busy k l c (p c)} \<subseteq> T" and "sema_value (sema l) = 1 - of_nat (card {c. busy k l c (p c)})"
    and "owns k l b (p b) \<Longrightarrow> owns k l c (p c) \<Longrightarrow> b = c" and "place_ok k l c (p c) (n c)"
    and "holder l = None \<Longrightarrow> (\<forall>c. p c \<noteq> Cleared k) \<Longrightarrow> holder_repeat_nr l = 0"
  using assms unfolding lock_inv_def by blast+

text \<open>The running task moves from one place of a lock to another and changes that lock.\<close>

lemma lock_inv_elsewhere:
  assumes i: "lock_inv T j l p n" and "lock_of (p c) \<noteq> Some j" and "lock_of y \<noteq> Some j"
  shows "lock_inv T j l (p(c := y)) n"
proof -
  note e = elsewhere [OF assms(2)] elsewhere [OF assms(3)]
  have o: "owns j l b ((p(c := y)) b) = owns j l b (p b)" for b using e by (simp add: owns_def)
  have b: "busy j l b ((p(c := y)) b) = busy j l b (p b)" for b using e by (simp add: busy_def owns_def)
  have c: "(p(c := y)) b = Cleared j \<longleftrightarrow> p b = Cleared j" for b using e by auto
  have p: "place_ok j l b ((p(c := y)) b) (n b) = place_ok j l b (p b) (n b)" for b using e by simp
  show ?thesis using i unfolding lock_inv_def o b c p .
qed

lemma steady_move:
  assumes i: "steady T \<lparr>machine = s, phase_of = p, depth = d\<rparr>" and T: "finite T"
    and c: "current_task s = Some c" and k: "locks s k = Some l"
    and pc: "lock_of (p c) \<in> {None, Some k}" "lock_of y \<in> {None, Some k}"
    and s': "locks s' = (locks s)(k \<mapsto> l')" "dom (tasks s') = dom (tasks s)"
      "\<exists>b\<in>dom (tasks s). current_task s' = Some b"
    and l: "lock_inv T k l' (p(c := y)) ((\<lambda>b. d b k)(c := m))"
  shows "steady T \<lparr>machine = s', phase_of = p(c := y), depth = set_depth c k m d\<rparr>"
proof -
  have at: "j \<in> dom (locks s')" if "lock_of ((p(c := y)) b) = Some j" for j b
  proof (cases "b = c")
    case True
    then show ?thesis using that pc(2) s'(1) by simp
  next
    case False
    then show ?thesis using that steadyD(4) [OF i, of b j] s'(1) by simp
  qed
  have "lock_inv T j lj (p(c := y)) (\<lambda>b. set_depth c k m d b j)" if j: "locks s' j = Some lj" for j lj
  proof (cases "j = k")
    case True
    moreover have "(\<lambda>b. set_depth c k m d b k) = (\<lambda>b. d b k)(c := m)" by (auto simp: set_depth_def)
    ultimately show ?thesis using l j s'(1) by simp
  next
    case False
    moreover from this have "(\<lambda>b. set_depth c k m d b j) = (\<lambda>b. d b j)" by (auto simp: set_depth_def)
    ultimately show ?thesis
      using lock_inv_elsewhere [OF steadyD(3) [OF i, of j lj], of c y] j s'(1) pc by auto
  qed
  with at s'(2,3) steadyD(1) [OF i] show ?thesis unfolding steady_def by auto
qed

text \<open>A step in which no lock changes.\<close>

lemma steady_stay:
  assumes i: "steady T \<lparr>machine = s, phase_of = p, depth = d\<rparr>" and T: "finite T"
    and c: "current_task s = Some c" and k: "locks s k = Some l"
    and pc: "lock_of (p c) \<in> {None, Some k}" "lock_of y \<in> {None, Some k}"
    and s': "locks s' = locks s" "dom (tasks s') = dom (tasks s)"
      "\<exists>b\<in>dom (tasks s). current_task s' = Some b"
    and b: "busy k l c y = busy k l c (p c)"
    and o: "owns k l c y \<Longrightarrow> \<not> owns k l c (p c) \<Longrightarrow> \<forall>b. b \<noteq> c \<longrightarrow> \<not> owns k l b (p b)"
    and y: "place_ok k l c y (d c k)" and z: "p c \<noteq> Cleared k"
  shows "steady T \<lparr>machine = s', phase_of = p(c := y), depth = d\<rparr>"
proof -
  note inv = steadyD(3) [OF i k]
  have "lock_inv T k l (p(c := y)) ((\<lambda>b. d b k)(c := d c k))"
  proof (rule lock_inv_move [OF inv T steadyD(2) [OF i c]])
    show "holder_repeat_nr l = 0" if "holder l = None" "\<forall>b. b \<noteq> c \<longrightarrow> p b \<noteq> Cleared k"
      using lock_invD(5) [OF inv that(1)] that(2) z by metis
  qed (use b o y in simp_all)
  from steady_move [OF i T c k pc _ s'(2,3) this] s'(1) k
  have "steady T \<lparr>machine = s', phase_of = p(c := y), depth = set_depth c k (d c k) d\<rparr>"
    by (simp add: fun_upd_idem)
  moreover have "set_depth c k (d c k) d = d" by (simp add: set_depth_def)
  ultimately show ?thesis by simp
qed

lemma of_nat_byte: "(of_nat n :: 8 word) = of_nat m \<Longrightarrow> n mod 256 = m mod 256"
  by (drule arg_cong [where f = unat]) (simp add: unat_of_nat)

text \<open>What a value of the semaphore says, when there are at most 256 tasks.\<close>

lemma value_zero:
  assumes i: "lock_inv T k l p n" and T: "finite T" "card T \<le> 256" and v: "sema_value (sema l) = 0"
    and c: "busy k l c (p c)" and b: "busy k l b (p b)"
  shows "b = c"
proof -
  let ?A = "{c. busy k l c (p c)}"
  have A: "?A \<subseteq> T" and "sema_value (sema l) = 1 - of_nat (card ?A)" using lock_invD(1,2) [OF i] .
  then have "(of_nat (card ?A) :: 8 word) = of_nat 1" using v by simp
  then have m: "card ?A mod 256 = 1" using of_nat_byte [of "card ?A" 1] by simp
  have "card ?A \<le> 256" using card_mono [OF T(1) A] T(2) by simp
  then have "card ?A = 1" using m by (cases "card ?A = 256") (auto simp: le_less)
  then obtain a where "?A = {a}" by (auto simp: card_1_singleton_iff)
  then show ?thesis using b c by (metis mem_Collect_eq singletonD)
qed

lemma value_one:
  assumes i: "lock_inv T k l p n" and T: "finite T" "card T \<le> 256" and v: "sema_value (sema l) = 1"
    and c: "c \<in> T" "\<not> busy k l c (p c)"
  shows "\<not> busy k l b (p b)"
proof -
  let ?A = "{c. busy k l c (p c)}"
  have A: "?A \<subseteq> T - {c}" and "sema_value (sema l) = 1 - of_nat (card ?A)"
    using lock_invD(1,2) [OF i] c(2) by auto
  then have "(of_nat (card ?A) :: 8 word) = of_nat 0" using v by simp
  then have m: "card ?A mod 256 = 0" using of_nat_byte [of "card ?A" 0] by simp
  have "card ?A \<le> card (T - {c})" using T(1) by (intro card_mono A) simp
  also have "\<dots> < card T" using T(1) c(1) by (rule card_Diff1_less)
  finally have "card ?A = 0" using m T(2) by (cases "card ?A = 0") auto
  moreover have "finite ?A" using finite_subset [OF A] T(1) by simp
  ultimately have "?A = {}" by simp
  then show ?thesis by blast
qed

lemma step_steady_wait:
  assumes i: "steady T \<lparr>machine = s, phase_of = p, depth = d\<rparr>" and T: "finite T" "card T \<le> 256"
    and c: "current_task s = Some c" and st: "stmt (p c) s = Inr (y, s')"
    and at: "p c \<in> {Waiting k, Zero k, Absent k, Sure k, Queued k}"
    and l: "locks s k = Some l"
  shows "steady T \<lparr>machine = s', phase_of = p(c := y), depth = counted c (p c) d\<rparr>"
proof -
  have cT: "c \<in> dom (tasks s)" using steadyD(1,2) [OF i] c by blast
  note place = lock_invD(4) [OF steadyD(3) [OF i l], of c]
  have y: "y \<in> {Waiting k, Zero k, Absent k, Sure k, Queued k, Passed k}" 
    using at st l by (auto simp: goto_eq andthen_eq_Inr split: if_splits)
  have ss: "same_locks s s'"
  proof -
    have "same_locks s s'" if "p c = Queued k"
      using that st block_locks by (auto simp: goto_eq)
    moreover have "\<exists>h. s' = s\<lparr>cells := h\<rparr>" if "p c \<noteq> Queued k"
      using that at st down_assert_Inr down_panic_Inr down_queue_Inr
      by (auto simp: goto_eq andthen_eq_Inr) (metis sys.surjective sys.update_convs(1))+
    moreover have "same_locks s (s\<lparr>cells := h\<rparr>)" for h using c cT by (auto simp: same_locks_def)
    ultimately show ?thesis by metis
  qed
  have "counted c (p c) d = d" using at by auto
  moreover have "steady T \<lparr>machine = s', phase_of = p(c := y), depth = d\<rparr>"
  proof (rule steady_stay [OF i T(1) c l _ _ same_locksD [OF ss]])
    have "place_ok k l c (p c) (d c k) \<longleftrightarrow> place_ok k l c y (d c k)"
      by (subst (1 2) place_out) (use at y in blast)+
    then show "place_ok k l c y (d c k)" using place by simp
    have "\<not> at_lock k (p c)" "\<not> at_lock k y" "p c \<noteq> Lowered k" "y \<noteq> Lowered k"
      using at y by auto
    then show "busy k l c y = busy k l c (p c)"
      and "owns k l c y \<Longrightarrow> \<not> owns k l c (p c) \<Longrightarrow> \<forall>b. b \<noteq> c \<longrightarrow> \<not> owns k l b (p b)"
      by (simp_all add: busy_def owns_def)
  qed (use at y in auto)
  ultimately show ?thesis by simp
qed

text \<open>A statement that changes the lock.\<close>

lemma steady_change:
  assumes i: "steady T \<lparr>machine = s, phase_of = p, depth = d\<rparr>" and T: "finite T"
    and c: "current_task s = Some c" and k: "locks s k = Some l"
    and pc: "lock_of (p c) \<in> {None, Some k}" "lock_of y \<in> {None, Some k}"
    and s': "locks s' = (locks s)(k \<mapsto> l')" "dom (tasks s') = dom (tasks s)" "current_task s' = Some c"
    and v: "sema_value (sema l') = sema_value (sema l) + of_bool (busy k l c (p c)) - of_bool (busy k l' c y)"
    and h: "\<And>b. b \<noteq> c \<Longrightarrow> holder l' = Some b \<longleftrightarrow> holder l = Some b"
    and r: "\<And>b. b \<noteq> c \<Longrightarrow> holder l = Some b \<Longrightarrow> holder_repeat_nr l' = holder_repeat_nr l"
    and o: "owns k l' c y \<Longrightarrow> \<not> owns k l c (p c) \<Longrightarrow> \<forall>b. b \<noteq> c \<longrightarrow> \<not> owns k l b (p b)"
    and y: "place_ok k l' c y m"
    and z: "holder l' = None \<Longrightarrow> y \<noteq> Cleared k \<Longrightarrow> (\<forall>b. b \<noteq> c \<longrightarrow> p b \<noteq> Cleared k) \<Longrightarrow>
      holder_repeat_nr l' = 0"
  shows "steady T \<lparr>machine = s', phase_of = p(c := y), depth = set_depth c k m d\<rparr>"
proof (rule steady_move [OF i T c k pc s'(1,2)])
  show "\<exists>b\<in>dom (tasks s). current_task s' = Some b"
    using s'(3) steadyD(1,2) [OF i] c by blast
  show "lock_inv T k l' (p(c := y)) ((\<lambda>b. d b k)(c := m))"
    by (rule lock_inv_move [OF steadyD(3) [OF i k] T steadyD(2) [OF i c] v h r o y z])
qed

lemma one_or_more: "\<not> 1 < w \<Longrightarrow> w \<noteq> 0 \<Longrightarrow> w = (1 :: 32 word)"
  by (metis linorder_neqE word_less_1)

text \<open>The statements of \<open>lock_acquire\<close> and of the end of \<open>sema_down\<close>.\<close>

lemma step_steady_acquire:
  assumes i: "steady T \<lparr>machine = s, phase_of = p, depth = d\<rparr>" and T: "finite T" "card T \<le> 256"
    and c: "current_task s = Some c" and st: "stmt (p c) s = Inr (y, s')" and l: "locks s k = Some l"
    and at: "p c \<in> {Acquire k, Nested k, Down k, Passed k, Lowered k, Checked k, Got k, Owned k, Fresh k}"
  shows "steady T \<lparr>machine = s', phase_of = p(c := y), depth = counted c (p c) d\<rparr>"
proof -
  have cT: "c \<in> dom (tasks s)" using steadyD(1,2) [OF i] c by blast
  note inv = steadyD(3) [OF i l]
  note place = lock_invD(4) [OF inv, of c]
  note stay = steady_stay [OF i T(1) c l]
  note change = steady_change [OF i T(1) c l, of y s']
  have same: "locks s = (locks s)(k \<mapsto> l)" using l by (simp add: fun_upd_idem)
  have d: "set_depth c k (d c k) d = d" by (simp add: set_depth_def)
  from at consider "p c = Acquire k" | "p c = Nested k" | "p c = Down k" | "p c = Passed k"
    | "p c = Lowered k" | "p c = Checked k" | "p c = Got k" | "p c = Owned k" | "p c = Fresh k"
    by blast
  then show ?thesis
  proof cases
    case 1
    then have y: "y = (if holder l \<noteq> Some c then Down k else Nested k)" "s' = s"
      using st l c by (auto simp: lock_at_def)
    have "steady T \<lparr>machine = s', phase_of = p(c := y), depth = d\<rparr>"
      using 1 y place c cT by (intro stay) (auto simp: busy_def owns_def place_out count_ok_def)
    then show ?thesis using 1 by simp
  next
    case 2
    then have y: "y = Running" "s' = s\<lparr>locks := (locks s)(k \<mapsto> l\<lparr>holder_repeat_nr := holder_repeat_nr l + 1\<rparr>)\<rparr>"
      using st l by (auto simp: lock_again_def stmt_eqs)
    have h: "holder l = Some c" "unat (holder_repeat_nr l) = d c k" "d c k < 2 ^ 32 - 1"
      using place 2 by (auto simp: count_ok_def)
    then have "steady T \<lparr>machine = s', phase_of = p(c := y), depth = set_depth c k (Suc (d c k)) d\<rparr>"
      using 2 y c unat_plus_one_less [of "holder_repeat_nr l"]
      by (intro change [of "l\<lparr>holder_repeat_nr := holder_repeat_nr l + 1\<rparr>"])
        (auto simp: busy_def owns_def count_ok_def)
    then show ?thesis using 2 by simp
  next
    case 3
    have h: "holder l \<noteq> Some c" "d c k = 0" using place 3 by (simp_all add: place_out)
    from st 3 consider "sema_down k s = Done () s'" "y = Got k"
      | r where "sema_down k s = Switch s' r" "y = Waiting k"
      by (auto split: run.splits)
    then show ?thesis
    proof cases
      case a: 1
      obtain t: "sema_value (sema l) = 1" "locks s' = (locks s)(k \<mapsto> l\<lparr>sema := \<lparr>sema_value = 0\<rparr>\<rparr>)"
          "dom (tasks s') = dom (tasks s)" "current_task s' = Some c"
        using down_Done [OF a(1)] l c by auto
      have "\<not> busy k l b (p b)" for b
        by (rule value_one [OF inv T t(1) steadyD(2) [OF i c]]) (use h 3 in \<open>simp add: busy_def owns_def\<close>)
      then have nb: "\<not> owns k l b (p b)" for b by (simp add: busy_def)
      moreover have "p b \<noteq> Cleared k" for b using nb [of b] by (auto simp: owns_def)
      ultimately have nb: "\<not> owns k l b (p b)" "p b \<noteq> Cleared k" for b by simp_all
      have "holder_repeat_nr l = 0" if "holder l = None" using lock_invD(5) [OF inv that] nb(2) by blast
      then have "steady T \<lparr>machine = s', phase_of = p(c := Got k), depth = set_depth c k 0 d\<rparr>"
        using h 3 nb t by (intro steady_change [OF i T(1) c l _ _ t(2)]) (auto simp: busy_def owns_def place_out)
      then show ?thesis using 3 a(2) h(2) d by simp
    next
      case b: 2
      show ?thesis
        using h 3 b(2) c same_locksD [OF down_Switch [OF b(1)]]
        by (auto intro!: stay simp: busy_def owns_def place_out)
    qed
  next
    case 4
    then have y: "y = Lowered k" "s' = s\<lparr>locks := (locks s)(k \<mapsto> l\<lparr>sema :=
        \<lparr>sema_value = sema_value (sema l) - 1\<rparr>\<rparr>)\<rparr>"
      using st l by (auto simp: sema_down_lower_def stmt_eqs)
    have h: "holder l \<noteq> Some c" "d c k = 0" using place 4 by (simp_all add: place_out)
    have "holder_repeat_nr l = 0" if "holder l = None" "\<forall>b. b \<noteq> c \<longrightarrow> p b \<noteq> Cleared k"
    proof -
      have "p b \<noteq> Cleared k" for b using that(2) 4 by (cases "b = c") auto
      then show ?thesis using lock_invD(5) [OF inv that(1)] by blast
    qed
    then have "steady T \<lparr>machine = s', phase_of = p(c := y), depth = set_depth c k 0 d\<rparr>"
      using h 4 y c
      by (intro change [of "l\<lparr>sema := \<lparr>sema_value = sema_value (sema l) - 1\<rparr>\<rparr>"]) (auto simp: busy_def owns_def place_out)
    then show ?thesis using 4 h(2) d by simp
  next
    case 5
    then have y: "y = Checked k" "s' = s" "sema_value (sema l) = 0"
      using st l by (auto simp: sema_down_check_def stmt_eqs)
    have "\<not> owns k l b (p b)" if "b \<noteq> c" for b
      using value_zero [OF inv T y(3), of c b] that 5 by (auto simp: busy_def)
    then show ?thesis
      using place 5 y c cT by (auto intro!: stay simp: busy_def owns_def place_out)
  next
    case 6
    then show ?thesis
      using place st c cT by (auto intro!: stay simp: busy_def owns_def place_out interrupt_enable_def)
  next
    case 7
    then have y: "y = Owned k" "s' = s\<lparr>locks := (locks s)(k \<mapsto> l\<lparr>holder := Some c\<rparr>)\<rparr>"
      using st l c by (auto simp: lock_own_def stmt_eqs)
    have h: "holder l \<noteq> Some c" "d c k = 0" using place 7 by (simp_all add: place_out)
    have one: "b = c" if "owns k l b (p b)" for b
      using lock_invD(3) [OF inv that, of c] 7 by (simp add: owns_def)
    have "holder l = None" using one h(1) by (cases "holder l") (auto simp: owns_def)
    moreover have "\<forall>b. p b \<noteq> Cleared k"
    proof
      fix b show "p b \<noteq> Cleared k" using one [of b] 7 by (auto simp: owns_def)
    qed
    ultimately have "holder l = None" "holder_repeat_nr l = 0" using lock_invD(5) [OF inv] by blast+
    then have "steady T \<lparr>machine = s', phase_of = p(c := y), depth = set_depth c k 0 d\<rparr>"
      using 7 y c by (intro change [of "l\<lparr>holder := Some c\<rparr>"]) (auto simp: busy_def owns_def)
    then show ?thesis using 7 h(2) d by simp
  next
    case 8
    then have y: "y = Fresh k" "s' = s" using st l by (auto simp: lock_unused_def stmt_eqs)
    then show ?thesis using place 8 c cT by (auto intro!: stay simp: busy_def owns_def)
  next
    case 9
    then have y: "y = Running" "s' = s\<lparr>locks := (locks s)(k \<mapsto> l\<lparr>holder_repeat_nr := 1\<rparr>)\<rparr>"
      using st l by (auto simp: lock_once_def stmt_eqs)
    have h: "holder l = Some c" using place 9 by simp
    then have "steady T \<lparr>machine = s', phase_of = p(c := y), depth = set_depth c k 1 d\<rparr>"
      using 9 y c by (intro change [of "l\<lparr>holder_repeat_nr := 1\<rparr>"])
        (auto simp: busy_def owns_def count_ok_def)
    then show ?thesis using 9 by simp
  qed
qed

text \<open>The statements of \<open>lock_release\<close> and \<open>sema_up\<close>.\<close>

lemma step_steady_release:
  assumes i: "steady T \<lparr>machine = s, phase_of = p, depth = d\<rparr>" and T: "finite T"
    and c: "current_task s = Some c" and st: "stmt (p c) s = Inr (y, s')" and l: "locks s k = Some l"
    and at: "p c \<in> {Release k, Held k, Many k, Last k, Sole k, Cleared k, Gone k, Woke k, Raised k, Upped k}"
  shows "steady T \<lparr>machine = s', phase_of = p(c := y), depth = counted c (p c) d\<rparr>"
proof -
  have cT: "c \<in> dom (tasks s)" using steadyD(1,2) [OF i] c by blast
  note inv = steadyD(3) [OF i l]
  note place = lock_invD(4) [OF inv, of c]
  note stay = steady_stay [OF i T c l]
  note change = steady_change [OF i T c l, of y s']
  have d: "set_depth c k (d c k) d = d" by (simp add: set_depth_def)
  from at consider "p c = Release k" | "p c = Held k" | "p c = Many k" | "p c = Last k"
    | "p c = Sole k" | "p c = Cleared k" | "p c = Gone k" | "p c = Woke k" | "p c = Raised k"
    | "p c = Upped k"
    by blast
  then show ?thesis
  proof cases
    case 1
    then have y: "y = Held k" "s' = s" "holder l = Some c" using st l c by (auto simp: stmt_eqs)
    then show ?thesis using place 1 c cT by (auto intro!: stay simp: busy_def owns_def)
  next
    case 2
    then have y: "y = (if holder_repeat_nr l > 1 then Many k else Last k)" "s' = s"
      using st l by (auto simp: lock_at_def)
    have "steady T \<lparr>machine = s', phase_of = p(c := y), depth = d\<rparr>"
      using 2 y place c cT one_or_more [of "holder_repeat_nr l"]
      by (intro stay) (auto simp: busy_def owns_def count_ok_def)
    then show ?thesis using 2 by simp
  next
    case 3
    then have y: "y = Running" "s' = s\<lparr>locks := (locks s)(k \<mapsto> l\<lparr>holder_repeat_nr := holder_repeat_nr l - 1\<rparr>)\<rparr>"
      using st l by (auto simp: lock_less_def stmt_eqs)
    have h: "holder l = Some c" "d c k = unat (holder_repeat_nr l)" "holder_repeat_nr l > 1"
        "holder_repeat_nr l \<noteq> 0" "holder_repeat_nr l - 1 \<noteq> 0"
      using place 3 by (auto simp: count_ok_def)
    then have "d c k - 1 = unat (holder_repeat_nr l - 1)" by (simp add: unat_minus_one)
    then have "steady T \<lparr>machine = s', phase_of = p(c := y), depth = set_depth c k (d c k - 1) d\<rparr>"
      using 3 y c h by (intro change [of "l\<lparr>holder_repeat_nr := holder_repeat_nr l - 1\<rparr>"])
        (auto simp: busy_def owns_def count_ok_def)
    then show ?thesis using 3 by simp
  next
    case 4
    then have y: "y = Sole k" "s' = s" using st l by (auto simp: stmt_eqs)
    then show ?thesis using place 4 c cT by (auto intro!: stay simp: busy_def owns_def)
  next
    case 5
    then have y: "y = Cleared k" "s' = s\<lparr>locks := (locks s)(k \<mapsto> l\<lparr>holder := None\<rparr>)\<rparr>"
      using st l by (auto simp: lock_clear_def stmt_eqs)
    have "holder l = Some c" using place 5 by simp
    then have "steady T \<lparr>machine = s', phase_of = p(c := y), depth = set_depth c k 0 d\<rparr>"
      using 5 y c by (intro change [of "l\<lparr>holder := None\<rparr>"]) (auto simp: busy_def owns_def place_out)
    then show ?thesis using 5 by simp
  next
    case 6
    then have y: "y = Gone k" "s' = s\<lparr>locks := (locks s)(k \<mapsto> l\<lparr>holder_repeat_nr := 0\<rparr>)\<rparr>"
      using st l by (auto simp: lock_zero_def stmt_eqs)
    have h: "holder l \<noteq> Some c" "d c k = 0" using place 6 by (simp_all add: place_out)
    have one: "b = c" if "owns k l b (p b)" for b
      using lock_invD(3) [OF inv that, of c] 6 by (simp add: owns_def)
    have "holder l = None" using one h(1) by (cases "holder l") (auto simp: owns_def)
    then have "steady T \<lparr>machine = s', phase_of = p(c := y), depth = set_depth c k 0 d\<rparr>"
      using 6 y c by (intro change [of "l\<lparr>holder_repeat_nr := 0\<rparr>"]) (auto simp: busy_def owns_def place_out)
    then show ?thesis using 6 h(2) d by simp
  next
    case 7
    then have y: "y = Woke k" "sema_up_wake k s = Inr s'" using st by (auto simp: goto_eq)
    have "locks s' = locks s" "dom (tasks s') = dom (tasks s)" "current_task s' = Some c"
      using up_wake_locks [OF y(2)] c by (auto simp: dom_def)
    then show ?thesis
      using place 7 y(1) c cT by (auto intro!: stay simp: busy_def owns_def place_out)
  next
    case 8
    then have y: "y = Raised k" "s' = s\<lparr>locks := (locks s)(k \<mapsto> l\<lparr>sema :=
        \<lparr>sema_value = sema_value (sema l) + 1\<rparr>\<rparr>)\<rparr>"
      using st l by (auto simp: sema_up_raise_def stmt_eqs)
    have h: "holder l \<noteq> Some c" "d c k = 0" using place 8 by (simp_all add: place_out)
    have z: "holder_repeat_nr l = 0" if "holder l = None" "\<forall>b. b \<noteq> c \<longrightarrow> p b \<noteq> Cleared k"
    proof -
      have "p b \<noteq> Cleared k" for b using that(2) 8 by (cases "b = c") auto
      then show ?thesis using lock_invD(5) [OF inv that(1)] by blast
    qed
    then have "steady T \<lparr>machine = s', phase_of = p(c := y), depth = set_depth c k 0 d\<rparr>"
      using 8 y c h by (intro change [of "l\<lparr>sema := \<lparr>sema_value = sema_value (sema l) + 1\<rparr>\<rparr>"])
        (auto simp: busy_def owns_def place_out)
    then show ?thesis using 8 h(2) d by simp
  next
    case 9
    then have y: "y = Upped k" "s' = s" using st l by (auto simp: sema_up_check_def stmt_eqs)
    then show ?thesis using place 9 c cT by (auto intro!: stay simp: busy_def owns_def place_out)
  next
    case 10
    then show ?thesis
      using place st c cT
      by (auto intro!: stay simp: busy_def owns_def place_out count_ok_def interrupt_enable_def)
  qed
qed

theorem step_steady:
  assumes "step x y" and "steady T x" and T: "finite T" "card T \<le> 256"
  shows "steady T y"
  using assms(1,2)
proof (induction rule: step.induct)
  case (acquire s c p k l d)
  have "c \<in> dom (tasks s)" using steadyD(1,2) [OF acquire(5)] acquire(1) by blast
  then show ?case
    using lock_invD(4) [OF steadyD(3) [OF acquire(5,3)], of c] acquire(1,2,4)
    by (intro steady_stay [OF acquire(5) T(1) acquire(1,3)])
      (auto simp: busy_def owns_def count_ok_def)
next
  case (release s c p k d)
  obtain l where l: "locks s k = Some l" using release(3) by blast
  have "c \<in> dom (tasks s)" using steadyD(1,2) [OF release(4)] release(1) by blast
  then show ?case
    using lock_invD(4) [OF steadyD(3) [OF release(4) l], of c] release(1,2)
    by (intro steady_stay [OF release(4) T(1) release(1) l]) (auto simp: busy_def owns_def)
next
  case (exec s c p y s' d)
  show ?case
  proof (cases "lock_of (p c)")
    case None
    then have "p c = Running" by (cases "p c") auto
    then show ?thesis using exec(2,3) by (auto simp: fun_upd_idem)
  next
    case (Some k)
    then obtain l where l: "locks s k = Some l" using steadyD(4) [OF exec(3)] by blast
    have "\<forall>v. p c \<noteq> Loaded k v"
      using lock_invD(4) [OF steadyD(3) [OF exec(3) l], of c] by (simp add: place_ok_def)
    then consider "p c \<in> {Waiting k, Zero k, Absent k, Sure k, Queued k}"
      | "p c \<in> {Acquire k, Nested k, Down k, Passed k, Lowered k, Checked k, Got k, Owned k, Fresh k}"
      | "p c \<in> {Release k, Held k, Many k, Last k, Sole k, Cleared k, Gone k, Woke k, Raised k, Upped k}"
      using Some by (cases "p c") auto
    then show ?thesis
    proof cases
      case 1
      then show ?thesis by (rule step_steady_wait [OF exec(3) T exec(1,2) _ l])
    next
      case 2
      then show ?thesis by (rule step_steady_acquire [OF exec(3) T exec(1,2) l])
    next
      case 3
      then show ?thesis by (rule step_steady_release [OF exec(3) T(1) exec(1,2) l])
    qed
  qed
next
  case (alarm s c frame frame' s' p d)
  from alarm(4) same_locksD [OF schedule_locks [OF alarm(3)]] show ?case
    unfolding steady_def by auto
qed

lemma reachable_steady:
  assumes "reachable x y" and "steady T x" and "finite T" and "card T \<le> 256"
  shows "steady T y"
  using assms by (induction rule: reachable.induct) (auto intro: step_steady)

lemma steady_quiet:
  assumes "quiet s q"
  shows "steady (dom (tasks s)) (begin_conf s)"
proof -
  have "lock_inv (dom (tasks s)) k free_lock (\<lambda>_. Running) (\<lambda>_. 0)" for k
    by (simp add: lock_inv_def busy_def owns_def count_ok_def)
  moreover have "\<exists>c\<in>dom (tasks s). current_task s = Some c"
    and "\<And>k l. locks s k = Some l \<Longrightarrow> l = free_lock"
    using assms by (auto simp: quiet_def sched_ok_def)
  ultimately show ?thesis by (auto simp: steady_def begin_conf_def)
qed

section \<open>Consequences\<close>

text \<open>The tasks that have decremented the semaphore of a lock and not given it back.\<close>

definition lowered :: "conf \<Rightarrow> lock_id \<Rightarrow> nat set" where
  "lowered x k = {c. inside x c k \<or> phase_of x c = Lowered k}"

lemma steady_inv:
  assumes "steady T x" and "locks (machine x) k = Some l"
  shows "lock_inv T k l (phase_of x) (\<lambda>c. depth x c k)"
    and "inside x c k \<longleftrightarrow> owns k l c (phase_of x c)"
    and "lowered x k = {c. busy k l c (phase_of x c)}"
  using assms by (auto simp: steady_def inside_def owns_def lowered_def busy_def)

lemma inside_lock:
  assumes "steady T x" and "inside x c k"
  obtains l where "locks (machine x) k = Some l"
proof -
  have "k \<in> dom (locks (machine x))" if "at_lock k (phase_of x c)"
    using that elsewhere(1) assms(1) unfolding steady_def by blast
  then show ?thesis using assms(2) that by (auto simp: inside_def)
qed

lemma inside_alone:
  assumes x: "steady T x" and b: "inside x b k" and c: "inside x c k"
  shows "b = c"
proof -
  obtain l where l: "locks (machine x) k = Some l" by (rule inside_lock [OF x b])
  show ?thesis using lock_invD(3) [OF steady_inv(1) [OF x l]] b c by (simp add: steady_inv(2) [OF x l])
qed

lemma steady_depth:
  assumes x: "steady T x" and l: "locks (machine x) k = Some l"
  shows "depth x c k = (if holder l = Some c then unat (holder_repeat_nr l) else 0)"
  using lock_invD(4) [OF steady_inv(1) [OF x l], of c] by (simp add: place_ok_def)

lemma steady_value:
  assumes x: "steady T x" and l: "locks (machine x) k = Some l"
  shows "sema_value (sema l) = 1 - of_nat (card (lowered x k))" and "lowered x k \<subseteq> T"
  using lock_invD(1,2) [OF steady_inv(1) [OF x l]] by (simp_all add: steady_inv(3) [OF x l])

text \<open>The assertions a task meets.\<close>

lemma place_lock:
  assumes x: "steady T x" and "lock_of (phase_of x c) = Some k"
  obtains l where "locks (machine x) k = Some l" "place_ok k l c (phase_of x c) (depth x c k)"
proof -
  obtain l where l: "locks (machine x) k = Some l"
    using assms unfolding steady_def by blast
  from that [OF this lock_invD(4) [OF steady_inv(1) [OF x this]]] show thesis .
qed

lemma counts_pass:
  assumes x: "steady T x" and c: "current_task (machine x) = Some c"
  shows "phase_of x c = Owned k \<Longrightarrow> lock_unused k (machine x) = Inr (machine x)"
    and "phase_of x c = Last k \<Longrightarrow> stmt (Last k) (machine x) = Inr (Sole k, machine x)"
proof -
  show "lock_unused k (machine x) = Inr (machine x)" if "phase_of x c = Owned k"
  proof -
    have "lock_of (phase_of x c) = Some k" using that by simp
    from place_lock [OF x this] obtain l where "locks (machine x) k = Some l"
      "place_ok k l c (phase_of x c) (depth x c k)" .
    then show ?thesis using that by (simp add: lock_unused_def lock_at_def)
  qed
  show "stmt (Last k) (machine x) = Inr (Sole k, machine x)" if "phase_of x c = Last k"
  proof -
    have "lock_of (phase_of x c) = Some k" using that by simp
    from place_lock [OF x this] obtain l where "locks (machine x) k = Some l"
      "place_ok k l c (phase_of x c) (depth x c k)" .
    then show ?thesis using that by (simp add: lock_at_def)
  qed
qed

lemma down_check_passes:
  assumes x: "steady T x" and T: "finite T" "card T \<le> 256" and p: "phase_of x c = Lowered k"
  shows "sema_down_check k (machine x) =
    (if lowered x k = {c} then Inr (machine x) else Inl Assert_Spin)"
proof -
  have "lock_of (phase_of x c) = Some k" using p by simp
  from place_lock [OF x this] obtain l where l: "locks (machine x) k = Some l" by blast
  have c: "c \<in> lowered x k" using p by (simp add: lowered_def)
  have "lowered x k = {c}" if v: "sema_value (sema l) = 0"
  proof -
    have "b = c" if "b \<in> lowered x k" for b
      using value_zero [OF steady_inv(1) [OF x l] T v, of c b] c that
      unfolding steady_inv(3) [OF x l] mem_Collect_eq by simp
    then show ?thesis using c by blast
  qed
  moreover have "sema_value (sema l) = 0" if "lowered x k = {c}"
    using steady_value(1) [OF x l] that by simp
  ultimately show ?thesis using l by (auto simp: sema_down_check_def lock_at_def assert_c_def)
qed

lemma up_check_passes:
  assumes x: "steady T x" and T: "finite T" "card T \<le> 256" and c: "current_task (machine x) = Some c"
    and p: "phase_of x c = Raised k"
  shows "sema_up_check k (machine x) =
    (if lowered x k = {} then Inr (machine x) else Inl Assert_Spin)"
proof -
  have "lock_of (phase_of x c) = Some k" using p by simp
  from place_lock [OF x this] obtain l where l: "locks (machine x) k = Some l"
    "place_ok k l c (Raised k) (depth x c k)"
    using p by auto
  have nc: "c \<in> T" "\<not> busy k l c (phase_of x c)"
    using x c p l(2) by (auto simp: steady_def busy_def owns_def place_out)
  have "lowered x k = {}" if v: "sema_value (sema l) = 1"
    using value_one [OF steady_inv(1) [OF x l(1)] T v nc] unfolding steady_inv(3) [OF x l(1)] by simp
  moreover have "sema_value (sema l) = 1" if "lowered x k = {}"
    using steady_value(1) [OF x l(1)] that by simp
  ultimately show ?thesis using l by (auto simp: sema_up_check_def lock_at_def assert_c_def)
qed

lemma up_wake_spins:
  assumes x: "steady T x" and T: "finite T" "card T \<le> 256" and p: "phase_of x c = Gone k"
    and other: "lowered x k \<noteq> {c}"
  shows "sema_up_wake k (machine x) = Inl Assert_Spin"
proof -
  have "lock_of (phase_of x c) = Some k" using p by simp
  from place_lock [OF x this] obtain l where l: "locks (machine x) k = Some l" by blast
  have c: "c \<in> lowered x k" using p by (simp add: lowered_def inside_def)
  obtain b where b: "b \<in> lowered x k" "b \<noteq> c" using c other by blast
  have "sema_value (sema l) \<noteq> 0"
  proof
    assume "sema_value (sema l) = 0"
    from value_zero [OF steady_inv(1) [OF x l] T this, of c b] b c show False
      unfolding steady_inv(3) [OF x l] mem_Collect_eq by simp
  qed
  then show ?thesis using l by (simp add: sema_up_wake_def interrupt_disable_def lock_at_def)
qed

end
