(* ===== verification/Overtake.thy ===== *)
theory Overtake
  imports Demo Exclusion
begin

text \<open>
  Runs in which the alarm comes into a resumed turn of the loop of \<open>sema_down\<close>: three tasks, two
  of which want the console lock.
\<close>

section \<open>Runs, statement by statement\<close>

definition closed :: "(conf \<Rightarrow> conf \<Rightarrow> bool) \<Rightarrow> bool" where
  "closed R \<longleftrightarrow> (\<forall>x y z. R x y \<longrightarrow> step y z \<longrightarrow> R x z)"

lemma closed_runs: "closed reachable" "closed access_reachable"
  by (auto simp: closed_def intro: onward access_onward whole)

definition fine_at :: "(conf \<Rightarrow> conf \<Rightarrow> bool) \<Rightarrow> conf \<Rightarrow> sys \<Rightarrow> (nat \<Rightarrow> phase) \<Rightarrow>
    (nat \<Rightarrow> lock_id \<Rightarrow> nat) \<Rightarrow> (list_id \<Rightarrow> nat list) \<Rightarrow> nat \<Rightarrow> bool" where
  "fine_at R x s p d q c \<longleftrightarrow> closed R \<and> R x \<lparr>machine = s, phase_of = p, depth = d\<rparr> \<and> sched_ok s q \<and>
     current_task s = Some c"

lemma fine_step:
  assumes "fine_at R x s p d q c"
    and "step \<lparr>machine = s, phase_of = p, depth = d\<rparr> \<lparr>machine = s', phase_of = p', depth = d'\<rparr>"
    and "sched_ok s' q'" and "current_task s' = Some c'"
  shows "fine_at R x s' p' d' q' c'"
  using assms unfolding fine_at_def closed_def by blast

lemma fine_alarm:
  assumes r: "fine_at R x s p d q c" and "q ReadyList = n # ns" and b: "\<not> blocked s"
  shows "\<exists>t. fine_at R x t p d (q(ReadyList := ns @ [c])) n \<and> locks t = locks s \<and> \<not> blocked t"
proof -
  have ok: "sched_ok s q" "current_task s = Some c" using r by (simp_all add: fine_at_def)
  obtain f t where t: "schedule zero_context s = Inr (f, t)" "locks t = locks s" "\<not> blocked t"
      "sched_ok t (q(ReadyList := ns @ [c]))" "current_task t = Some n"
    using schedule_ok [OF ok, of zero_context] assms(2,3) by auto
  from fine_step [OF r alarm [OF ok(2) b t(1)] t(4,5)] t(2,3) show ?thesis by blast
qed

lemma fine_exec:
  assumes r: "fine_at R x s p d q c" and "p c = a" and k: "locks s k = Some l0"
    and st: "stmt a s = Inr (b, s\<lparr>locks := (locks s)(k \<mapsto> l), blocked := v\<rparr>)"
  shows "\<exists>t. fine_at R x t (p(c := b)) (counted c a d) q c \<and> locks t = (locks s)(k \<mapsto> l) \<and> blocked t = v"
proof -
  let ?t = "s\<lparr>locks := (locks s)(k \<mapsto> l), blocked := v\<rparr>"
  have ok: "sched_ok s q" "current_task s = Some c" using r by (simp_all add: fine_at_def)
  have "sched_ok ?t q" using ok(1) k by (subst sched_ok_frame [of _ s]) (auto simp: insert_absorb)
  moreover have "stmt (p c) s = Inr (b, ?t)" using assms(2) st by simp
  ultimately have "fine_at R x ?t (p(c := b)) (counted c (p c) d) q c"
    using fine_step [OF r exec [where p = p, OF ok(2)]] ok(2) by simp
  then show ?thesis using assms(2) by (intro exI [of _ ?t]) simp
qed

lemma fine_still:
  assumes r: "fine_at R x s p d q c" and "p c = a" and st: "stmt a s = Inr (b, s)"
  shows "fine_at R x s (p(c := b)) (counted c a d) q c"
proof -
  have ok: "sched_ok s q" "current_task s = Some c" using r by (simp_all add: fine_at_def)
  have "stmt (p c) s = Inr (b, s)" using assms(2) st by simp
  from fine_step [OF r exec [where p = p, OF ok(2) this] ok] assms(2) show ?thesis by simp
qed

text \<open>A task that calls \<open>lock_acquire\<close> on a free lock, up to the end of \<open>sema_down\<close>.\<close>

lemma fine_down:
  assumes r: "fine_at R x s p d q c" and p: "p c = Running" and l: "locks s k = Some free_lock"
  shows "\<exists>t. fine_at R x t (p(c := Got k)) d q c \<and> locks t = (locks s)(k \<mapsto> taking_lock) \<and> \<not> blocked t"
proof -
  have ok: "sched_ok s q" "current_task s = Some c" using r by (simp_all add: fine_at_def)
  have "step \<lparr>machine = s, phase_of = p, depth = d\<rparr> \<lparr>machine = s, phase_of = p(c := Acquire k), depth = d\<rparr>"
    by (rule acquire [where c = c and p = p and d = d, OF ok(2) p l]) simp
  from fine_step [OF r this ok] have "fine_at R x s (p(c := Acquire k)) d q c" .
  from fine_still [OF this, of "Acquire k" "Down k"] l ok(2)
  have "fine_at R x s (p(c := Down k)) d q c" by (simp add: lock_at_def)
  from fine_exec [OF this, where a = "Down k" and k = k  and b = "Got k" and l = taking_lock and v = False]
    l down_free [OF l]
  show ?thesis by auto
qed

text \<open>The statements after \<open>sema_down\<close>.\<close>

lemma fine_fresh:
  assumes r: "fine_at R x s p d q c" and p: "p c = Got k" and l: "locks s k = Some l"
    and "holder_repeat_nr l = 0"
  shows "\<exists>t. fine_at R x t (p(c := Fresh k)) d q c \<and>
    locks t = (locks s)(k \<mapsto> l\<lparr>holder := Some c\<rparr>) \<and> blocked t = blocked s"
proof -
  have c: "current_task s = Some c" using r by (simp add: fine_at_def)
  have "stmt (Got k) s = Inr (Owned k, s\<lparr>locks := (locks s)(k \<mapsto> l\<lparr>holder := Some c\<rparr>), blocked := blocked s\<rparr>)"
    using l c by (simp add: lock_own_def step_simps)
  from fine_exec [OF r p l this] obtain t where
    t: "fine_at R x t (p(c := Owned k)) d q c" "locks t = (locks s)(k \<mapsto> l\<lparr>holder := Some c\<rparr>)"
      "blocked t = blocked s"
    by auto
  from fine_still [OF t(1), of "Owned k" "Fresh k"] t(2) assms(4)
  have "fine_at R x t (p(c := Fresh k)) d q c" by (simp add: lock_unused_def step_simps)
  with t(2,3) show ?thesis by blast
qed

lemma fine_once:
  assumes r: "fine_at R x s p d q c" and p: "p c = Fresh k" and l: "locks s k = Some l"
  shows "\<exists>t. fine_at R x t (p(c := Running)) (set_depth c k 1 d) q c \<and>
    locks t = (locks s)(k \<mapsto> l\<lparr>holder_repeat_nr := 1\<rparr>) \<and> blocked t = blocked s"
proof -
  have "stmt (Fresh k) s = Inr (Running, s\<lparr>locks := (locks s)(k \<mapsto> l\<lparr>holder_repeat_nr := 1\<rparr>), blocked := blocked s\<rparr>)"
    using l by (simp add: lock_once_def step_simps)
  from fine_exec [OF r p l this] show ?thesis by auto
qed

section \<open>A resumed task passes the test, and the alarm comes\<close>

lemma demo_passed:
  "\<exists>s d. fine_at reachable (begin_conf s2) s ((\<lambda>_. Running)(2 := Passed ConsoleLock)) d
     ((demo_q q2)(ReadyList := [3, 1])) 2 \<and> \<not> blocked s \<and> locks s ConsoleLock = Some free_lock"
proof -
  let ?x = "begin_conf s2" and ?k = ConsoleLock
  let ?p = "(\<lambda>_. Running)(2 := Waiting ?k, 1 := Woke ?k)" and ?q = "demo_q q2"
  obtain t0 where 0: "run_at ?x t0 ?p (?q(ReadyList := [2, 3])) 1" "\<not> blocked t0"
      "locks t0 ?k = Some taking_lock"
    using demo_woken by force
  from run_raise [OF 0(1) _ 0(3)] obtain t1 where
    1: "run_at ?x t1 (?p(1 := Raised ?k)) (?q(ReadyList := [2, 3])) 1" "\<not> blocked t1" "locks t1 ?k = Some free_lock"
    using 0(2) by auto
  from run_done [OF 1(1) _ 1(3)] obtain t2 where
    2: "run_at ?x t2 (?p(1 := Raised ?k, 1 := Running)) (?q(ReadyList := [2, 3])) 1" "\<not> blocked t2"
      "locks t2 ?k = Some free_lock"
    using 1(3) by auto
  from run_preempt [OF 2(1) _ 2(2), of 2 "[3]"] obtain t3 where
    3: "run_at ?x t3 (?p(1 := Raised ?k, 1 := Running)) (?q(ReadyList := [3, 1])) 2" "\<not> blocked t3"
      "locks t3 ?k = Some free_lock"
    using 2(3) by auto
  have p: "?p(1 := Raised ?k, 1 := Running) = (\<lambda>_. Running)(2 :: nat := Waiting ?k)" by auto
  obtain d where "reachable ?x \<lparr>machine = t3, phase_of = (\<lambda>_. Running)(2 := Waiting ?k), depth = d\<rparr>"
    using run_atD(3) [OF 3(1)] turn_reachable_reachable unfolding p by blast
  then have "fine_at reachable ?x t3 ((\<lambda>_. Running)(2 := Waiting ?k)) d (?q(ReadyList := [3, 1])) 2"
    using run_atD(1,2) [OF 3(1)] closed_runs(1) by (simp add: fine_at_def)
  from fine_still [OF this, of "Waiting ?k" "Passed ?k"] 3(3)
  have "fine_at reachable ?x t3 ((\<lambda>_. Running)(2 := Passed ?k)) d (?q(ReadyList := [3, 1])) 2"
    by (simp add: lock_at_def)
  then show ?thesis using 3(2,3) by blast
qed

lemma passed_queue: "((demo_q q2)(ReadyList := a))(ReadyList := b) = (demo_q q2)(ReadyList := b)"
  by simp

text \<open>Task \<open>3\<close> takes the lock, and task \<open>2\<close> goes on to decrement the semaphore.\<close>

lemma demo_overtaken:
  "\<exists>s d. fine_at reachable (begin_conf s2) s ((\<lambda>_. Running)(2 := Lowered ConsoleLock)) d
     ((demo_q q2)(ReadyList := [3, 1])) 2 \<and>
   locks s ConsoleLock = Some (held_lock 3 1\<lparr>sema := \<lparr>sema_value = - 1\<rparr>\<rparr>)"
proof -
  let ?x = "begin_conf s2" and ?k = ConsoleLock and ?q = "demo_q q2"
  let ?p = "(\<lambda>_. Running)(2 :: nat := Passed ?k)"
  obtain s0 d0 where 0: "fine_at reachable ?x s0 ?p d0 (?q(ReadyList := [3, 1])) 2" "\<not> blocked s0"
      "locks s0 ?k = Some free_lock"
    using demo_passed by blast
  from fine_alarm [OF 0(1) _ 0(2), of 3 "[1]"] 0(3) obtain s1 where
    1: "fine_at reachable ?x s1 ?p d0 (?q(ReadyList := [1, 2])) 3" "locks s1 ?k = Some free_lock"
    by auto
  from fine_down [OF 1(1) _ 1(2)] obtain s2 where
    2: "fine_at reachable ?x s2 (?p(3 := Got ?k)) d0 (?q(ReadyList := [1, 2])) 3" "\<not> blocked s2"
      "locks s2 ?k = Some taking_lock"
    using 1(2) by auto
  from fine_fresh [OF 2(1) _ 2(3)] obtain s3 where
    3: "fine_at reachable ?x s3 (?p(3 := Fresh ?k)) d0 (?q(ReadyList := [1, 2])) 3" "\<not> blocked s3"
      "locks s3 ?k = Some (taking_lock\<lparr>holder := Some 3\<rparr>)"
    using 2(2,3) by auto
  from fine_once [OF 3(1) _ 3(3)] obtain s4 where
    4: "fine_at reachable ?x s4 (?p(3 := Running)) (set_depth 3 ?k 1 d0) (?q(ReadyList := [1, 2])) 3"
      "\<not> blocked s4" "locks s4 ?k = Some (held_lock 3 1)"
    using 3(2,3) by (auto simp: held_lock_def taking_lock_def)
  have p: "?p(3 := Running) = ?p" by auto
  from fine_alarm [OF 4(1) _ 4(2), of 1 "[2]"] 4(3) obtain s5 where
    5: "fine_at reachable ?x s5 ?p (set_depth 3 ?k 1 d0) (?q(ReadyList := [2, 3])) 1"
      "\<not> blocked s5" "locks s5 ?k = Some (held_lock 3 1)"
    unfolding p by auto
  from fine_alarm [OF 5(1) _ 5(2), of 2 "[3]"] 5(3) obtain s6 where
    6: "fine_at reachable ?x s6 ?p (set_depth 3 ?k 1 d0) (?q(ReadyList := [3, 1])) 2"
      "locks s6 ?k = Some (held_lock 3 1)"
    by auto
  have "stmt (Passed ?k) s6 = Inr (Lowered ?k, s6\<lparr>locks := (locks s6)(?k \<mapsto>
      held_lock 3 1\<lparr>sema := \<lparr>sema_value = - 1\<rparr>\<rparr>), blocked := blocked s6\<rparr>)"
    using 6(2) by (simp add: sema_down_lower_def step_simps)
  from fine_exec [OF 6(1) _ 6(2) this] 6(2) show ?thesis by auto
qed

text \<open>
  The statement \<open>value--\<close> in two accesses: task \<open>2\<close> has loaded 1, task \<open>3\<close> takes the lock, is
  preempted before it sets the count, and task \<open>2\<close> stores 0.
\<close>

lemma access_load:
  assumes "access_reachable x \<lparr>machine = s, phase_of = p, depth = d\<rparr>" and "current_task s = Some c"
    and "p c = Passed k" and "locks s k = Some l"
  shows "access_reachable x \<lparr>machine = s, phase_of = p(c := Loaded k (sema_value (sema l))), depth = d\<rparr>"
  using access_onward [OF assms(1) load [where p = p, OF assms(2-4)]] .

lemma fine_access: "fine_at reachable x s p d q c \<Longrightarrow> fine_at access_reachable x s p d q c"
  using closed_runs(2) by (simp add: fine_at_def reachable_access)

lemma demo_both:
  "\<exists>s d q. fine_at access_reachable (begin_conf s2) s (\<lambda>_. Running) d q 3 \<and>
     d 2 ConsoleLock = 1 \<and> d 3 ConsoleLock = 1 \<and> locks s ConsoleLock = Some (held_lock 2 1)"
proof -
  let ?x = "begin_conf s2" and ?k = ConsoleLock and ?q = "demo_q q2" and ?R = access_reachable
  let ?p = "(\<lambda>_. Running)(2 :: nat := Loaded ?k 1)"
  obtain s0 d0 where "fine_at ?R ?x s0 ((\<lambda>_. Running)(2 := Passed ?k)) d0 (?q(ReadyList := [3, 1])) 2"
      and b0: "\<not> blocked s0" and l0: "locks s0 ?k = Some free_lock"
    using demo_passed fine_access by blast
  then have 0: "fine_at ?R ?x s0 ?p d0 (?q(ReadyList := [3, 1])) 2"
    using access_load [of ?x s0 "(\<lambda>_. Running)(2 := Passed ?k)" d0 2 ?k free_lock] by (simp add: fine_at_def)
  from fine_alarm [OF 0 _ b0, of 3 "[1]"] l0 obtain s1 where
    1: "fine_at ?R ?x s1 ?p d0 (?q(ReadyList := [1, 2])) 3" "locks s1 ?k = Some free_lock"
    by auto
  from fine_down [OF 1(1) _ 1(2)] obtain s2 where
    2: "fine_at ?R ?x s2 (?p(3 := Got ?k)) d0 (?q(ReadyList := [1, 2])) 3" "\<not> blocked s2"
      "locks s2 ?k = Some taking_lock"
    using 1(2) by auto
  from fine_fresh [OF 2(1) _ 2(3)] obtain s3 where
    3: "fine_at ?R ?x s3 (?p(3 := Fresh ?k)) d0 (?q(ReadyList := [1, 2])) 3" "\<not> blocked s3"
      "locks s3 ?k = Some (taking_lock\<lparr>holder := Some 3\<rparr>)"
    using 2(2,3) by auto
  from fine_alarm [OF 3(1) _ 3(2), of 1 "[2]"] 3(3) obtain s4 where
    4: "fine_at ?R ?x s4 (?p(3 := Fresh ?k)) d0 (?q(ReadyList := [2, 3])) 1" "\<not> blocked s4"
      "locks s4 ?k = Some (taking_lock\<lparr>holder := Some 3\<rparr>)"
    by auto
  from fine_alarm [OF 4(1) _ 4(2), of 2 "[3]"] 4(3) obtain s5 where
    5: "fine_at ?R ?x s5 (?p(3 := Fresh ?k)) d0 (?q(ReadyList := [3, 1])) 2" "\<not> blocked s5"
      "locks s5 ?k = Some (taking_lock\<lparr>holder := Some 3\<rparr>)"
    by auto
  let ?l = "taking_lock\<lparr>holder := Some 3\<rparr>"
  have "stmt (Loaded ?k 1) s5 = Inr (Lowered ?k, s5\<lparr>locks := (locks s5)(?k \<mapsto> ?l), blocked := blocked s5\<rparr>)"
    using 5(3) by (simp add: step_simps taking_lock_def)
  from fine_exec [OF 5(1) _ 5(3) this] 5(2,3) obtain s6 where
    6: "fine_at ?R ?x s6 (?p(3 := Fresh ?k, 2 := Lowered ?k)) d0 (?q(ReadyList := [3, 1])) 2"
      "\<not> blocked s6" "locks s6 ?k = Some ?l"
    by auto
  from fine_still [OF 6(1), of "Lowered ?k" "Checked ?k"] 6(3)
  have 7: "fine_at ?R ?x s6 (?p(3 := Fresh ?k, 2 := Lowered ?k, 2 := Checked ?k)) d0 (?q(ReadyList := [3, 1])) 2"
    by (simp add: sema_down_check_def lock_at_def)
  have "stmt (Checked ?k) s6 = Inr (Got ?k, s6\<lparr>locks := (locks s6)(?k \<mapsto> ?l), blocked := False\<rparr>)"
    using 6(3) by (simp add: interrupt_enable_def fun_upd_idem)
  from fine_exec [OF 7 _ 6(3) this] 6(3) obtain s8 where
    8: "fine_at ?R ?x s8 (?p(3 := Fresh ?k, 2 := Got ?k)) d0 (?q(ReadyList := [3, 1])) 2"
      "\<not> blocked s8" "locks s8 ?k = Some ?l"
    by auto
  from fine_fresh [OF 8(1) _ 8(3)] 8(2,3) obtain s9 where
    9: "fine_at ?R ?x s9 (?p(3 := Fresh ?k, 2 := Fresh ?k)) d0 (?q(ReadyList := [3, 1])) 2"
      "\<not> blocked s9" "locks s9 ?k = Some (taking_lock\<lparr>holder := Some 2\<rparr>)"
    by auto
  from fine_once [OF 9(1) _ 9(3)] 9(2,3) obtain t0 where
    10: "fine_at ?R ?x t0 (?p(3 := Fresh ?k, 2 := Running)) (set_depth 2 ?k 1 d0) (?q(ReadyList := [3, 1])) 2"
      "\<not> blocked t0" "locks t0 ?k = Some (held_lock 2 1)"
    by (auto simp: held_lock_def taking_lock_def)
  from fine_alarm [OF 10(1) _ 10(2), of 3 "[1]"] 10(3) obtain t1 where
    11: "fine_at ?R ?x t1 (?p(3 := Fresh ?k, 2 := Running)) (set_depth 2 ?k 1 d0) (?q(ReadyList := [1, 2])) 3"
      "locks t1 ?k = Some (held_lock 2 1)"
    by auto
  from fine_once [OF 11(1) _ 11(2)] 11(2) obtain t2 where
    12: "fine_at ?R ?x t2 (?p(3 := Fresh ?k, 2 := Running, 3 := Running))
        (set_depth 3 ?k 1 (set_depth 2 ?k 1 d0)) (?q(ReadyList := [1, 2])) 3"
      "locks t2 ?k = Some (held_lock 2 1)"
    by (auto simp: held_lock_def)
  have p: "?p(3 := Fresh ?k, 2 := Running, 3 := Running) = (\<lambda>_. Running)" by auto
  have "set_depth 3 ?k 1 (set_depth 2 ?k 1 d0) 2 ?k = 1" "set_depth 3 ?k 1 (set_depth 2 ?k 1 d0) 3 ?k = 1"
    by (simp_all add: set_depth_def)
  with 12 show ?thesis unfolding p by blast
qed

section \<open>The alarm between \<open>list_append\<close> and \<open>task_block\<close>\<close>

lemma head_kept:
  assumes "only_changes (insert (GeneralTag c) (list_cells (list_at ReadyList) (map GeneralTag ts))) h h'"
  shows "h' (HeadOf (Waiters k)) = h (HeadOf (Waiters k))"
  using assms by (auto simp: only_changes_def list_cells_def)

lemma queued_alarm:
  assumes ok: "sched_ok s q" and c: "current_task s = Some c" and k: "locks s k = Some l"
    and q: "q (Waiters k) = []" "q ReadyList = n # ns" and v: "sema_value (sema l) = 0"
  shows "\<exists>u f t. sema_down_queue k s = Inr u \<and> current_task u = Some c \<and> blocked u = blocked s \<and>
    schedule frame u = Inr (f, t) \<and>
    in_list ReadyList (GeneralTag c) t = Inr True \<and> in_list (Waiters k) (GeneralTag c) t = Inr True \<and>
    sema_up_wake k t = Inl Assert_Spin \<and> k \<in> dom (locks t)"
proof -
  let ?R = "list_at ReadyList" and ?W = "list_at (Waiters k)" and ?c = "GeneralTag c"
  obtain tc where tc: "tasks s c = Some tc" "linked_cells (valid_lists s) (dom (tasks s)) (cells s) q"
      "off_lists (valid_lists s) q ReadyList c"
    by (rule sched_okE [OF ok]) (use c in auto)
  have w: "Waiters k \<in> valid_lists s" using k by auto
  have cT: "c \<in> dom (tasks s)" using tc(1) by blast
  have "off_lists (valid_lists s) q (Waiters k) c" using tc(3) by (simp add: off_lists_def)
  from linked_append [OF tc(2) w cT this] q(1) obtain h1 where
    h1: "list_append ?W ?c (cells s) = Inr h1"
      "linked_cells (valid_lists s) (dom (tasks s)) h1 (q(Waiters k := [c]))"
    by auto
  have tags: "cell_of ReadyList = GeneralTag" by (auto simp: fun_eq_iff)
  have dll: "dll h1 ?W [?c]" "dll h1 ?R (map GeneralTag (n # ns))"
    using heap_lists_dll [OF linked_heap [OF h1(2)] w]
      heap_lists_dll [OF linked_heap [OF h1(2)], of ReadyList] q
    by (auto simp: lview_def tags)
  have nR: "n \<noteq> c" "c \<notin> set ns" and nT: "n \<in> dom (tasks s)"
    using tc(3) q(2) linked_subset [OF tc(2), of ReadyList] by (auto simp: off_lists_ready)
  then obtain tn where tn: "tasks s n = Some tn" by blast
  have off: "?c \<notin> list_cells ?R (map GeneralTag (n # ns))" using nR by (auto simp: list_cells_def)
  have "h1 ?c \<noteq> None" using tag_node [OF h1(2) cT, of ReadyList] by (auto simp: node_cells_def)
  from list_append_spec [OF dll(2) off this] obtain h2 where
    h2: "list_append ?R ?c h1 = Inr h2" "dll h2 ?R (map GeneralTag (n # ns @ [c]))"
      "only_changes (insert ?c (list_cells ?R (map GeneralTag (n # ns)))) h1 h2"
    by auto
  have "dll h2 ?R (GeneralTag n # map GeneralTag (ns @ [c]))" using h2(2) by simp
  from list_pop_spec [OF this] obtain h3 where
    h3: "list_pop ?R h2 = Inr (Some (GeneralTag n), h3)" "dll h3 ?R (map GeneralTag (ns @ [c]))"
      "only_changes (list_cells ?R (map GeneralTag (ns @ [c]))) h2 h3"
    by auto
  obtain ch where hd: "h1 (HeadOf (Waiters k)) = Some ch" "nxt ch = Some ?c"
    using list_first [OF dll(1)] by auto
  have "only_changes (insert ?c (list_cells ?R (map GeneralTag (ns @ [c])))) h2 h3"
    using h3(3) by (simp add: only_changes_def)
  then have hd3: "h3 (HeadOf (Waiters k)) = Some ch"
    using head_kept [OF h2(3), of k] head_kept [of c "ns @ [c]" h2 h3 k] hd(1) by simp
  have find: "elem_find ?R ?c h1 = Inr False" "elem_find ?R ?c h3 = Inr True"
    using elem_find_spec [OF dll(2), of ?c] elem_find_spec [OF h3(2), of ?c] nR by auto
  have findW: "elem_find ?W ?c h3 = Inr True"
    using hd3 hd(2) by (simp add: elem_find_def elem_find_loop.simps)
  have empty: "list_empty ?R h2 = Inr False" using list_empty_spec [OF h2(2)] by simp
  let ?u = "s\<lparr>cells := h1\<rparr>"
  let ?t = "s\<lparr>cells := h3, task_tag := Some (GeneralTag n), current_task := Some n,
    tasks := (tasks s)(c \<mapsto> tc\<lparr>ticks := priority tc, status := TASK_READY, tcontext := frame\<rparr>,
      n \<mapsto> tn\<lparr>status := TASK_RUNNING\<rparr>)\<rparr>"
  have u: "sema_down_queue k s = Inr ?u" using h1(1) c by (simp add: sema_down_queue_def step_simps)
  have run: "schedule frame ?u = Inr (tcontext tn, ?t)"
    using c tc(1) tn nR(1) find(1) h2(1) empty h3(1)
    by (simp add: schedule_def get_next_task_def step_simps fun_upd_twist)
  obtain h4 where h4: "list_remove (Some ?c) h3 = Inr h4"
    using list_remove_spec [of h3 ?R "map GeneralTag ns" ?c "[]"] h3(2) by auto
  have "list_empty ?W h3 = Inr False" using hd3 hd(2) by (simp add: list_empty_def)
  moreover have "list_pop ?W h3 = Inr (Some ?c, h4)" using hd3 hd(2) h4 by (simp add: list_pop_def)
  ultimately have up: "sema_up_wake k ?t = Inl Assert_Spin"
    using k v nR(1) by (simp add: sema_up_wake_def task_unblock_def step_simps)
  show ?thesis
    using u run up find(2) findW c k
    by (intro exI [of _ ?u] exI [of _ "tcontext tn"] exI [of _ ?t]) (auto simp: in_list_def)
qed

text \<open>
  Task \<open>1\<close> has woken task \<open>2\<close> and not yet raised the semaphore; task \<open>2\<close> runs, finds 0 and
  queues itself, and the alarm comes.
\<close>

lemma demo_queued:
  "\<exists>s d. reachable (begin_conf s2) \<lparr>machine = s,
       phase_of = (\<lambda>_. Running)(2 := Queued ConsoleLock, 1 := Woke ConsoleLock), depth = d\<rparr> \<and>
     in_list ReadyList (GeneralTag 2) s = Inr True \<and>
     in_list (Waiters ConsoleLock) (GeneralTag 2) s = Inr True \<and>
     sema_up_wake ConsoleLock s = Inl Assert_Spin \<and> ConsoleLock \<in> dom (locks s)"
proof -
  let ?x = "begin_conf s2" and ?k = ConsoleLock and ?q = "demo_q q2"
  let ?p = "(\<lambda>_. Running)(2 :: nat := Waiting ?k, 1 := Woke ?k)"
  obtain t0 where 0: "run_at ?x t0 ?p (?q(ReadyList := [2, 3])) 1" "\<not> blocked t0"
      "locks t0 ?k = Some taking_lock"
    using demo_woken by force
  from run_preempt [OF 0(1) _ 0(2), of 2 "[3]"] obtain s where
    1: "run_at ?x s ?p (?q(ReadyList := [3, 1])) 2" "\<not> blocked s" "locks s ?k = Some taking_lock"
    using 0(3) by auto
  obtain d where "reachable ?x \<lparr>machine = s, phase_of = ?p, depth = d\<rparr>"
    using run_atD(3) [OF 1(1)] turn_reachable_reachable by blast
  then have 2: "fine_at reachable ?x s ?p d (?q(ReadyList := [3, 1])) 2"
    using run_atD(1,2) [OF 1(1)] closed_runs(1) by (simp add: fine_at_def)
  have ok: "sched_ok s (?q(ReadyList := [3, 1]))" "current_task s = Some 2" using run_atD(1,2) [OF 1(1)] .
  have "Waiters ?k \<in> valid_lists s" using 1(3) by auto
  moreover have "linked_cells (valid_lists s) (dom (tasks s)) (cells s) (?q(ReadyList := [3, 1]))"
    using ok(1) by (simp add: sched_ok_def linked_def)
  ultimately have no: "in_list (Waiters ?k) (GeneralTag 2) s = Inr False"
    using linked_find [of "valid_lists s" "dom (tasks s)" "cells s" _ "Waiters ?k" 2]
    by (auto simp: in_list_def demo_q_def q2_def)
  from fine_still [OF 2, of "Waiting ?k" "Zero ?k"] 1(3)
  have "fine_at reachable ?x s (?p(2 := Zero ?k)) d (?q(ReadyList := [3, 1])) 2"
    by (simp add: lock_at_def)
  from fine_still [OF this, of "Zero ?k" "Absent ?k"] no ok(2)
  have "fine_at reachable ?x s (?p(2 := Absent ?k)) d (?q(ReadyList := [3, 1])) 2"
    by (simp add: sema_down_assert_def current_def)
  from fine_still [OF this, of "Absent ?k" "Sure ?k"] no ok(2)
  have "fine_at reachable ?x s (?p(2 := Sure ?k)) d (?q(ReadyList := [3, 1])) 2"
    by (simp add: sema_down_panic_def current_def)
  then have 3: "reachable ?x \<lparr>machine = s, phase_of = ?p(2 := Sure ?k), depth = d\<rparr>"
    by (simp add: fine_at_def)
  obtain u f t where u: "sema_down_queue ?k s = Inr u" "current_task u = Some 2" "blocked u = blocked s"
      and t: "schedule zero_context u = Inr (f, t)" "in_list ReadyList (GeneralTag 2) t = Inr True"
        "in_list (Waiters ?k) (GeneralTag 2) t = Inr True" "sema_up_wake ?k t = Inl Assert_Spin"
        "?k \<in> dom (locks t)"
    using queued_alarm [OF ok 1(3), of 3 "[1]" zero_context] by (auto simp: demo_q_def q2_def)
  from go [OF 3 ok(2), of "Sure ?k" "Queued ?k" u] u(1)
  have "reachable ?x \<lparr>machine = u, phase_of = ?p(2 := Queued ?k), depth = d\<rparr>" by simp
  from onward [OF this alarm [OF u(2) _ t(1)]] u(3) 1(2)
  have "reachable ?x \<lparr>machine = t, phase_of = ?p(2 := Queued ?k), depth = d\<rparr>" by simp
  moreover have "?p(2 := Queued ?k) = (\<lambda>_. Running)(2 := Queued ?k, 1 := Woke ?k)" by auto
  ultimately show ?thesis using t(2-5) by metis
qed

text \<open>A tag that is on the ready list and on a wait list fits no queues.\<close>

lemma on_two_lists:
  assumes "sched_ok s q" and k: "k \<in> dom (locks s)"
    and "in_list ReadyList (GeneralTag c) s = Inr True" and "in_list (Waiters k) (GeneralTag c) s = Inr True"
  shows False
proof -
  have l: "linked_cells (valid_lists s) (dom (tasks s)) (cells s) q"
    using assms(1) by (auto simp: sched_ok_def linked_def)
  have w: "Waiters k \<in> valid_lists s" using k by simp
  have "c \<in> set (q ReadyList)" "c \<in> set (q (Waiters k))"
    using linked_find [OF l, of ReadyList c] linked_find [OF l w, of c] assms(3,4) by (simp_all add: in_list_def)
  then show False using linked_off [OF l w, of c ReadyList] by simp
qed

lemma s2_few: "finite (dom (tasks s2))" "card (dom (tasks s2)) \<le> 256"
proof -
  have "dom (tasks s2) = {1, 2, 3}" by (auto simp: s2_def demo_def split: if_splits)
  then show "finite (dom (tasks s2))" "card (dom (tasks s2)) \<le> 256" by simp_all
qed

end
