(* ===== verification/Wheel.thy ===== *)
theory Wheel
  imports State "HOL-Library.Signed_Division"
begin

text \<open>
  The timer wheel of \<open>interrupt/timer.c\<close>: five arrays of rings, in which a timer is put at a
  place computed from its expiry and the time the wheel has reached. The second half relates
  the rings to the lists of the nodes in them.
\<close>

section \<open>The functions\<close>

definition TVR_BITS :: nat where "TVR_BITS = 8"

definition TVN_BITS :: nat where "TVN_BITS = 6"

definition TVR_SIZE :: "32 word" where "TVR_SIZE = push_bit TVR_BITS 1"

definition TVN_SIZE :: "32 word" where "TVN_SIZE = push_bit TVN_BITS 1"

definition TVR_MASK :: "32 word" where "TVR_MASK = TVR_SIZE - 1"

definition TVN_MASK :: "32 word" where "TVN_MASK = TVN_SIZE - 1"

definition clock_granularity :: "32 word" where "clock_granularity = 10"

text \<open>
  \<open>TIME_AFTER_EQ\<close> casts the two \<open>uint32_t\<close> to the 64-bit \<open>long\<close>, and \<open>get_jiffies\<close> cuts
  the milliseconds of the monotonic clock to 32 bits.
\<close>

definition time_after_eq :: "32 word \<Rightarrow> 32 word \<Rightarrow> bool" where
  "time_after_eq a b \<longleftrightarrow> sint ((ucast a :: 64 word) - ucast b) \<ge> 0"

text \<open>The other comparisons, and the largest distance the arrays can hold, are not used.\<close>

definition time_after :: "uint32_t \<Rightarrow> uint32_t \<Rightarrow> bool" where
  "time_after a b \<longleftrightarrow> sint ((ucast b :: 64 word) - ucast a) < 0"

definition time_before :: "uint32_t \<Rightarrow> uint32_t \<Rightarrow> bool" where
  "time_before a b = time_after b a"

definition time_before_eq :: "uint32_t \<Rightarrow> uint32_t \<Rightarrow> bool" where
  "time_before_eq a b = time_after_eq b a"

definition MAX_TVAL :: "64 word" where
  "MAX_TVAL = push_bit (TVR_BITS + 4 * TVN_BITS) 1 - 1"

record timespec =
  tv_sec :: "64 word"
  tv_nsec :: "64 word"

definition get_jiffies :: "timespec \<Rightarrow> 32 word" where
  "get_jiffies ts = ucast (tv_sec ts * 1000 + word_of_int (sint (tv_nsec ts) sdiv 1000000))"

subsection \<open>Access\<close>

definition manager_at :: "timer_state \<Rightarrow> manager result" where
  "manager_at ts =
     (if \<not> timer_manager ts then Inl Null_Deref
      else case manager_mem ts of None \<Rightarrow> Inl Bad_Access | Some m \<Rightarrow> Inr m)"

definition upd_manager :: "(manager \<Rightarrow> manager) \<Rightarrow> timer_state \<Rightarrow> timer_state result" where
  "upd_manager f ts = andthen (manager_at ts) (\<lambda>m. Inr (ts\<lparr>manager_mem := Some (f m)\<rparr>))"

definition node_at :: "nat \<Rightarrow> timer_state \<Rightarrow> timer_node result" where
  "node_at n ts = (case tnodes ts n of None \<Rightarrow> Inl Bad_Access | Some c \<Rightarrow> Inr c)"

definition upd_node :: "nat \<Rightarrow> (timer_node \<Rightarrow> timer_node) \<Rightarrow> timer_state \<Rightarrow> timer_state result" where
  "upd_node n f ts = andthen (node_at n ts) (\<lambda>c. Inr (ts\<lparr>tnodes := (tnodes ts)(n \<mapsto> f c)\<rparr>))"

definition on_links ::
  "(timer_ref links \<Rightarrow> timer_ref links result) \<Rightarrow> timer_state \<Rightarrow> timer_state result" where
  "on_links f ts = andthen (f (tlinks ts)) (\<lambda>h. Inr (ts\<lparr>tlinks := h\<rparr>))"

text \<open>
  A list head that is a local variable, with contents that nobody reads; the node around an
  element; \<open>free\<close> of a node.
\<close>

definition new_local :: "timer_state \<Rightarrow> timer_state" where
  "new_local ts = ts\<lparr>tlinks := (tlinks ts)(Local \<mapsto> \<lparr>pPrev = Local, pNext = Local\<rparr>)\<rparr>"

fun node_of :: "timer_ref \<Rightarrow> nat result" where
  "node_of (Node n) = Inr n"
| "node_of _ = Inl Bad_Access"

definition free_node :: "nat \<Rightarrow> timer_state \<Rightarrow> timer_state result" where
  "free_node n ts = andthen (node_at n ts) (\<lambda>_.
     Inr (ts\<lparr>tnodes := (tnodes ts)(n := None), tlinks := (tlinks ts)(Node n := None)\<rparr>))"

subsection \<open>The arrays\<close>

definition init_array_list_timer :: "nat \<Rightarrow> nat \<Rightarrow> timer_state \<Rightarrow> timer_state" where
  "init_array_list_timer l nSize ts =
     fold (\<lambda>i ts. ts\<lparr>tlinks := (tlinks ts)(Slot l i \<mapsto> \<lparr>pPrev = Slot l i, pNext = Slot l i\<rparr>)\<rparr>)
       [0..<nSize] ts"

partial_function (option) delete_loop ::
  "timer_ref \<Rightarrow> timer_state \<Rightarrow> timer_state result option" where
  "delete_loop pListTimer ts =
     (if pListTimer = Local then Some (Inr ts)
      else case andthen (node_of pListTimer) (\<lambda>pTmr.
                andthen (link_at (tlinks ts) pListTimer) (\<lambda>c.
                andthen (free_node pTmr ts) (\<lambda>ts. Inr (pNext c, ts)))) of
             Inl e \<Rightarrow> Some (Inl e)
           | Inr (p, ts) \<Rightarrow> delete_loop p ts)"

primrec delete_slots :: "nat \<Rightarrow> nat list \<Rightarrow> timer_state \<Rightarrow> timer_state result" where
  "delete_slots l [] ts = Inr ts"
| "delete_slots l (i # is') ts =
     andthen (on_links (list_timer_replace_init (Slot l i) Local) (new_local ts)) (\<lambda>ts.
     andthen (link_at (tlinks ts) Local) (\<lambda>c.
     andthen (returns (delete_loop (pNext c) ts)) (\<lambda>ts.
     delete_slots l is' ts)))"

definition delete_array_list_timer :: "nat \<Rightarrow> nat \<Rightarrow> timer_state \<Rightarrow> timer_state result" where
  "delete_array_list_timer l uSize ts = delete_slots l [0..<uSize] ts"

subsection \<open>The place of a timer\<close>

text \<open>
  The choice of the array and the index of \<open>add_timer\<close>, with its two branches that are never
  taken: \<open>signed long\<close> has 64 bits, so the distance is neither negative nor above \<open>0xffffffff\<close>.
\<close>

definition timer_slot :: "32 word \<Rightarrow> 32 word \<Rightarrow> timer_ref" where
  "timer_slot expires jiffies =
     (let uDueTime = (expires - jiffies) div clock_granularity in
      if uDueTime < TVR_SIZE then Slot 1 (unat (expires AND TVR_MASK))
      else if uDueTime < push_bit (TVR_BITS + TVN_BITS) 1
        then Slot 2 (unat (drop_bit TVR_BITS expires AND TVN_MASK))
      else if uDueTime < push_bit (TVR_BITS + 2 * TVN_BITS) 1
        then Slot 3 (unat (drop_bit (TVR_BITS + TVN_BITS) expires AND TVN_MASK))
      else if uDueTime < push_bit (TVR_BITS + 3 * TVN_BITS) 1
        then Slot 4 (unat (drop_bit (TVR_BITS + 2 * TVN_BITS) expires AND TVN_MASK))
      else if sint (ucast uDueTime :: 64 word) < 0 then Slot 1 (unat (jiffies AND TVR_MASK))
      else
        let expires = (if (ucast uDueTime :: 64 word) > 0xffffffff
                        then 0xffffffff + jiffies else expires) in
        Slot 5 (unat (drop_bit (TVR_BITS + 3 * TVN_BITS) expires AND TVN_MASK)))"

definition add_timer :: "nat \<Rightarrow> timer_state \<Rightarrow> timer_state result" where
  "add_timer pTmr ts =
     andthen (node_at pTmr ts) (\<lambda>c.
     andthen (manager_at ts) (\<lambda>m.
     on_links (list_timer_insert_tail (Node pTmr) (timer_slot (uExpires c) (uJiffies m))) ts))"

partial_function (option) cascade_loop ::
  "timer_ref \<Rightarrow> timer_state \<Rightarrow> timer_state result option" where
  "cascade_loop pListTimer ts =
     (if pListTimer = Local then Some (Inr ts)
      else case andthen (node_of pListTimer) (\<lambda>pTmr.
                andthen (link_at (tlinks ts) pListTimer) (\<lambda>c.
                andthen (add_timer pTmr ts) (\<lambda>ts. Inr (pNext c, ts)))) of
             Inl e \<Rightarrow> Some (Inl e)
           | Inr (p, ts) \<Rightarrow> cascade_loop p ts)"

definition cascade_timer :: "nat \<Rightarrow> 32 word \<Rightarrow> timer_state \<Rightarrow> (32 word \<times> timer_state) result" where
  "cascade_timer l idx ts =
     andthen (on_links (list_timer_replace_init (Slot l (unat idx)) Local) (new_local ts)) (\<lambda>ts.
     andthen (link_at (tlinks ts) Local) (\<lambda>c.
     andthen (returns (cascade_loop (pNext c) ts)) (\<lambda>ts.
     Inr (idx, ts))))"

text \<open>The \<open>if\<close> of \<open>run_timer\<close>, whose condition is a chain of calls joined by \<open>&&\<close>.\<close>

definition INDEX :: "nat \<Rightarrow> 32 word \<Rightarrow> 32 word" where
  "INDEX n jiffies = drop_bit (TVR_BITS + n * TVN_BITS) jiffies AND TVN_MASK"

definition cascade_all :: "timer_state \<Rightarrow> timer_state result" where
  "cascade_all ts =
     andthen (manager_at ts) (\<lambda>m.
     let j = uJiffies m in
     if j AND TVR_MASK \<noteq> 0 then Inr ts
     else andthen (cascade_timer 2 (INDEX 0 j) ts) (\<lambda>(r, ts).
     if r \<noteq> 0 then Inr ts
     else andthen (cascade_timer 3 (INDEX 1 j) ts) (\<lambda>(r, ts).
     if r \<noteq> 0 then Inr ts
     else andthen (cascade_timer 4 (INDEX 2 j) ts) (\<lambda>(r, ts).
     if r \<noteq> 0 then Inr ts
     else andthen (cascade_timer 5 (INDEX 3 j) ts) (\<lambda>(_, ts). Inr ts)))))"


section \<open>Words\<close>

lemmas tv_defs = TVR_BITS_def TVN_BITS_def TVR_SIZE_def TVN_SIZE_def TVR_MASK_def TVN_MASK_def

lemma and_tvr: "unat (x AND TVR_MASK) = unat x mod 256"
proof -
  have "x AND TVR_MASK = take_bit 8 x"
    by (simp add: tv_defs take_bit_eq_mask mask_eq_exp_minus_1)
  then have "unat (x AND TVR_MASK) = take_bit 8 (unat x)" by (simp only: unsigned_take_bit_eq)
  then show ?thesis by (simp add: take_bit_eq_mod)
qed

lemma and_tvn: "unat (x AND TVN_MASK) = unat x mod 64"
proof -
  have "x AND TVN_MASK = take_bit 6 x"
    by (simp add: tv_defs take_bit_eq_mask mask_eq_exp_minus_1)
  then have "unat (x AND TVN_MASK) = take_bit 6 (unat x)" by (simp only: unsigned_take_bit_eq)
  then show ?thesis by (simp add: take_bit_eq_mod)
qed

lemma unat_drop: "unat (drop_bit n (x :: 32 word)) = unat x div 2 ^ n"
proof -
  have "unat (drop_bit n x) = drop_bit n (unat x)"
    by (simp only: unsigned_drop_bit_eq take_bit_length_eq unsigned_take_bit_eq [symmetric])
  then show ?thesis by (simp add: drop_bit_eq_div)
qed

lemma index_nat: "unat (INDEX n j) = unat j div 2 ^ (8 + n * 6) mod 64"
  by (simp add: INDEX_def and_tvn unat_drop TVR_BITS_def TVN_BITS_def)

lemma uint_long: "uint (ucast (x :: 32 word) :: 64 word) = uint x"
  by (simp add: unsigned_ucast_eq take_bit_int_eq_self_iff order_less_trans [OF uint_bounded])

lemma ucast_less_max: "\<not> (ucast (x :: 32 word) :: 64 word) > 0xffffffff"
  using uint_bounded [of x] by (simp add: word_less_def uint_long)

lemma sint_long: "sint (ucast (x :: 32 word) :: 64 word) = uint x"
proof -
  have "uint x < 2 ^ 32" using uint_bounded [of x] by simp
  then have "uint x < 2 ^ 63" "- (2 ^ 63) \<le> uint x" using uint_ge_0 [of x]
    by (simp_all, linarith)
  then have "signed_take_bit 63 (uint x) = uint x" by (rule signed_take_bit_int_eq_self [rotated])
  then show ?thesis by (simp add: sint_uint uint_long)
qed

lemma ucast_not_neg: "\<not> sint (ucast (x :: 32 word) :: 64 word) < 0"
  by (simp add: sint_long)

lemma timer_slot_nat:
  "timer_slot e j = (let d = unat ((e - j) div 10); E = unat e in
     if d < 256 then Slot 1 (E mod 256)
     else if d < 16384 then Slot 2 (E div 256 mod 64)
     else if d < 1048576 then Slot 3 (E div 16384 mod 64)
     else if d < 67108864 then Slot 4 (E div 1048576 mod 64)
     else Slot 5 (E div 67108864 mod 64))"
proof -
  have c: "push_bit 8 1 = (256 :: 32 word)" "push_bit 14 1 = (16384 :: 32 word)"
      "push_bit 20 1 = (1048576 :: 32 word)" "push_bit 26 1 = (67108864 :: 32 word)"
    by (simp_all add: push_bit_eq_mult)
  have u: "unat (256 :: 32 word) = 256" "unat (16384 :: 32 word) = 16384"
      "unat (1048576 :: 32 word) = 1048576" "unat (67108864 :: 32 word) = 67108864"
    by simp_all
  have m: "\<not> 0xffffffff < unat (ucast x :: 64 word)" for x :: "32 word"
    using ucast_less_max [of x] by (simp add: word_less_nat_alt)
  show ?thesis
    unfolding timer_slot_def Let_def TVR_SIZE_def clock_granularity_def and_tvr and_tvn
      unat_drop word_less_nat_alt if_not_P [OF ucast_not_neg]
      TVR_BITS_def TVN_BITS_def
    by (simp add: c u m)
qed

lemma sint_diff: "sint ((ucast (a :: 32 word) :: 64 word) - ucast (b :: 32 word)) = uint a - uint b"
proof -
  have "uint a < 4294967296" "uint b < 4294967296" using uint_bounded [of a] uint_bounded [of b] by simp_all
  then have bounds: "- 9223372036854775808 \<le> uint a - uint b" "uint a - uint b < 9223372036854775808"
    using uint_ge_0 [of a] uint_ge_0 [of b] by linarith+
  have "(ucast a :: 64 word) - ucast b = word_of_int (uint a - uint b)"
    by (simp only: uint_long [symmetric] word_sub_wi)
  then have "sint ((ucast a :: 64 word) - ucast b) = signed_take_bit 63 (uint a - uint b)"
    by (simp only: signed_of_int) simp
  also have "\<dots> = uint a - uint b"
    using bounds by (intro signed_take_bit_int_eq_self) simp_all
  finally show ?thesis .
qed

text \<open>The casts to the 64-bit \<open>long\<close> make the comparisons those of natural numbers.\<close>

lemma time_after_eq_le: "time_after_eq a b \<longleftrightarrow> b \<le> a"
  by (simp add: time_after_eq_def sint_diff word_le_def)

lemma time_comparisons:
  "time_after a b \<longleftrightarrow> b < a" "time_before a b \<longleftrightarrow> a < b" "time_before_eq a b \<longleftrightarrow> a \<le> b"
  by (simp_all add: time_after_def time_before_def time_before_eq_def sint_diff time_after_eq_le word_less_def)

lemma MAX_TVAL_value: "MAX_TVAL = 0xffffffff"
  by (simp add: MAX_TVAL_def TVR_BITS_def TVN_BITS_def push_bit_eq_mult)

section \<open>The wheel and the lists of its nodes\<close>

definition slots :: "timer_ref set" where
  "slots = {Slot 1 i | i. i < 256} \<union> {Slot l i | l i. 2 \<le> l \<and> l \<le> 5 \<and> i < 64}"

lemma slots_simps [simp]:
  "Slot l i \<in> slots \<longleftrightarrow> l = 1 \<and> i < 256 \<or> 2 \<le> l \<and> l \<le> 5 \<and> i < 64"
  "Local \<notin> slots" "Node n \<notin> slots"
  by (auto simp: slots_def)

lemma timer_slot_in [simp, intro]: "timer_slot e j \<in> slots"
  by (simp add: timer_slot_nat Let_def)

text \<open>
  \<open>w\<close> are the nodes in each slot. Every node in the wheel is allocated, and every allocated
  node has its \<open>ltTimer\<close>.
\<close>

definition wrefs :: "(timer_ref \<Rightarrow> nat list) \<Rightarrow> timer_ref \<Rightarrow> timer_ref list" where
  "wrefs w a = map Node (w a)"

definition members :: "(timer_ref \<Rightarrow> nat list) \<Rightarrow> nat set" where
  "members w = (\<Union>a\<in>slots. set (w a))"

definition wheel_ok :: "timer_state \<Rightarrow> (timer_ref \<Rightarrow> nat list) \<Rightarrow> bool" where
  "wheel_ok ts w \<longleftrightarrow> rings slots (tlinks ts) (wrefs w) \<and> members w \<subseteq> dom (tnodes ts) \<and>
     (\<forall>n. n \<in> dom (tnodes ts) \<longleftrightarrow> Node n \<in> dom (tlinks ts)) \<and>
     timer_manager ts \<and> manager_mem ts \<noteq> None"

lemma wrefs_upd: "wrefs (w(a := xs)) = (wrefs w)(a := map Node xs)"
  by (auto simp: wrefs_def)

lemma off_rings_node: "off_rings slots (wrefs w) (Node n) \<longleftrightarrow> n \<notin> members w"
  by (auto simp: off_rings_def wrefs_def members_def)

lemma off_rings_local: "off_rings slots (wrefs w) Local"
  by (auto simp: off_rings_def wrefs_def)

lemma wheel_okD:
  assumes "wheel_ok ts w"
  shows "rings slots (tlinks ts) (wrefs w)" "members w \<subseteq> dom (tnodes ts)"
    "n \<in> dom (tnodes ts) \<longleftrightarrow> Node n \<in> dom (tlinks ts)" "\<exists>m. manager_at ts = Inr m \<and> manager_mem ts = Some m"
  using assms by (auto simp: wheel_ok_def manager_at_def)

lemma wheel_distinct: "wheel_ok ts w \<Longrightarrow> a \<in> slots \<Longrightarrow> distinct (w a)"
  using ringsD(3) [of slots "tlinks ts" "wrefs w" a] by (auto simp: wheel_ok_def wrefs_def distinct_map)

lemma wheel_apart:
  assumes "wheel_ok ts w" and "a \<in> slots" and "b \<in> slots" and "n \<in> set (w a)" and "n \<in> set (w b)"
  shows "a = b"
proof -
  have "Node n \<in> set (a # wrefs w a)" "Node n \<in> set (b # wrefs w b)"
    using assms(4,5) by (simp_all add: wrefs_def)
  then show ?thesis using rings_apart [OF wheel_okD(1) [OF assms(1)] assms(2,3)] by blast
qed

text \<open>A node is put at the end of its slot; the members of a slot that is emptied.\<close>

definition put :: "(nat \<Rightarrow> 32 word) \<Rightarrow> 32 word \<Rightarrow> nat \<Rightarrow> (timer_ref \<Rightarrow> nat list) \<Rightarrow> timer_ref \<Rightarrow> nat list" where
  "put ex j n w = (let a = timer_slot (ex n) j in w(a := w a @ [n]))"

definition expiry :: "timer_state \<Rightarrow> nat \<Rightarrow> 32 word" where
  "expiry ts n = (case tnodes ts n of None \<Rightarrow> 0 | Some c \<Rightarrow> uExpires c)"

lemma members_upd: "a \<in> slots \<Longrightarrow> members (w(a := xs)) = (\<Union>b\<in>slots - {a}. set (w b)) \<union> set xs"
proof -
  assume a: "a \<in> slots"
  have "(\<Union>b\<in>slots - {a}. set ((w(a := xs)) b)) = (\<Union>b\<in>slots - {a}. set (w b))"
    by (rule SUP_cong) simp_all
  then have "(\<Union>b\<in>insert a (slots - {a}). set ((w(a := xs)) b)) = set xs \<union> (\<Union>b\<in>slots - {a}. set (w b))"
    by (simp only: UN_insert fun_upd_same)
  then show ?thesis using a by (simp only: members_def insert_Diff Un_commute)
qed

lemma slot_members: "a \<in> slots \<Longrightarrow> set (w a) \<subseteq> members w"
  unfolding members_def by blast

lemma members_put: "members (put ex j n w) = insert n (members w)"
  by (auto simp: put_def Let_def members_def split: if_splits)

lemma members_puts: "members (fold (put ex j) ns w) = set ns \<union> members w"
  by (induction ns arbitrary: w) (auto simp: members_put)

lemma members_take:
  assumes "wheel_ok ts w" and "a \<in> slots"
  shows "members (w(a := [])) = members w - set (w a)"
proof -
  have "set (w a) \<inter> set (w b) = {}" if "b \<in> slots" "b \<noteq> a" for b
    using wheel_apart [OF assms that(1)] that(2) by blast
  then have "(\<Union>b\<in>slots - {a}. set (w b)) \<inter> set (w a) = {}" by blast
  moreover have "members w = (\<Union>b\<in>slots - {a}. set (w b)) \<union> set (w a)"
    using members_upd [OF assms(2), of w "w a"] by simp
  ultimately show ?thesis unfolding members_upd [OF assms(2)] by (simp add: Un_Diff Diff_triv)
qed

lemma add_timer_run:
  assumes ok: "wheel_ok ts w" and n: "tnodes ts n = Some c" "n \<notin> members w"
    and m: "manager_mem ts = Some m"
  shows "\<exists>h. add_timer n ts = Inr (ts\<lparr>tlinks := h\<rparr>) \<and>
    wheel_ok (ts\<lparr>tlinks := h\<rparr>) (put (expiry ts) (uJiffies m) n w) \<and>
    (\<forall>x. x \<noteq> Node n \<and> off_rings slots (wrefs w) x \<longrightarrow> h x = tlinks ts x)"
proof -
  let ?a = "timer_slot (uExpires c) (uJiffies m)"
  have e: "expiry ts n = uExpires c" using n(1) by (simp add: expiry_def)
  have "Node n \<in> dom (tlinks ts)" using wheel_okD(3) [OF ok] n(1) by blast
  from rings_append [OF wheel_okD(1) [OF ok] timer_slot_in this, of "uExpires c" "uJiffies m"] n(2)
  obtain h where h: "list_timer_insert_tail (Node n) ?a (tlinks ts) = Inr h"
      "rings slots h ((wrefs w)(?a := wrefs w ?a @ [Node n]))" "dom h = dom (tlinks ts)"
      "\<forall>x. x \<noteq> Node n \<and> off_rings slots (wrefs w) x \<longrightarrow> h x = tlinks ts x"
    by (auto simp: off_rings_node)
  have "wrefs (put (expiry ts) (uJiffies m) n w) = (wrefs w)(?a := wrefs w ?a @ [Node n])"
    by (auto simp: put_def wrefs_def e Let_def)
  then have "wheel_ok (ts\<lparr>tlinks := h\<rparr>) (put (expiry ts) (uJiffies m) n w)"
    using ok h(2,3) n(1) by (auto simp: wheel_ok_def members_put)
  moreover have "add_timer n ts = Inr (ts\<lparr>tlinks := h\<rparr>)"
    using h(1) n(1) m wheel_okD(4) [OF ok]
    by (auto simp: add_timer_def node_at_def on_links_def)
  ultimately show ?thesis using h(4) by blast
qed

text \<open>Emptying a slot into a local variable.\<close>

lemma take_slot_run:
  assumes ok: "wheel_ok ts w" and a: "a \<in> slots"
  shows "\<exists>h c. on_links (list_timer_replace_init a Local) (new_local ts) = Inr (ts\<lparr>tlinks := h\<rparr>) \<and>
    link_at h Local = Inr c \<and> follow h (pNext c) (map Node (w a)) Local \<and>
    wheel_ok (ts\<lparr>tlinks := h\<rparr>) (w(a := []))"
proof -
  let ?h = "(tlinks ts)(Local \<mapsto> \<lparr>pPrev = Local, pNext = Local\<rparr>)"
  have "rings slots ?h (wrefs w)"
    by (rule rings_cong [OF wheel_okD(1) [OF ok]]) (use off_rings_local in auto)
  from rings_take [OF this a _ off_rings_local] obtain h where h:
      "list_timer_replace_init a Local ?h = Inr h" "ring h Local (wrefs w a)"
      "rings slots h ((wrefs w)(a := []))" "dom h = dom ?h"
    by auto
  obtain p where p: "nextf h Local = Some p" "follow h p (map Node (w a)) Local"
    using ring_follow [OF h(2)] by (auto simp: wrefs_def)
  obtain c where c: "link_at h Local = Inr c" "pNext c = p"
    using p(1) by (auto simp: nextf_def link_at_def)
  have "wheel_ok (ts\<lparr>tlinks := h\<rparr>) (w(a := []))"
    using ok h(3,4) members_take [OF ok a] by (auto simp: wheel_ok_def wrefs_upd)
  moreover have "on_links (list_timer_replace_init a Local) (new_local ts) = Inr (ts\<lparr>tlinks := h\<rparr>)"
    using h(1) by (simp add: on_links_def new_local_def)
  ultimately show ?thesis using c p(2) by blast
qed

lemma cascade_loop_run:
  assumes "wheel_ok ts w" and "follow (tlinks ts) p (map Node ns) Local" and "distinct ns"
    and "set ns \<subseteq> dom (tnodes ts)" and "set ns \<inter> members w = {}" and "manager_mem ts = Some m"
  shows "\<exists>h. cascade_loop p ts = Some (Inr (ts\<lparr>tlinks := h\<rparr>)) \<and>
    wheel_ok (ts\<lparr>tlinks := h\<rparr>) (fold (put (expiry ts) (uJiffies m)) ns w)"
  using assms
proof (induction ns arbitrary: p ts w)
  case Nil
  then show ?case
    by (subst cascade_loop.simps) (auto intro: exI [of _ "tlinks ts"])
next
  case (Cons n ns)
  obtain c where c: "tnodes ts n = Some c" using Cons.prems(4) by auto
  obtain q where p: "p = Node n" "nextf (tlinks ts) (Node n) = Some q"
      "follow (tlinks ts) q (map Node ns) Local"
    using Cons.prems(2) by auto
  obtain d where d: "link_at (tlinks ts) (Node n) = Inr d" "pNext d = q"
    using p(2) by (auto simp: nextf_def link_at_def)
  from add_timer_run [OF Cons.prems(1) c _ Cons.prems(6)] Cons.prems(5) obtain h where h:
      "add_timer n ts = Inr (ts\<lparr>tlinks := h\<rparr>)"
      "wheel_ok (ts\<lparr>tlinks := h\<rparr>) (put (expiry ts) (uJiffies m) n w)"
      "\<forall>x. x \<noteq> Node n \<and> off_rings slots (wrefs w) x \<longrightarrow> h x = tlinks ts x"
    by auto
  have "h (Node y) = tlinks ts (Node y)" if "y \<in> set ns" for y
    using h(3) Cons.prems(3,5) that by (auto simp: off_rings_node disjoint_iff)
  then have "h x = tlinks ts x" if "x \<in> set (map Node ns)" for x
    using that by auto
  then have f: "follow h q (map Node ns) Local" using p(3) follow_cong [of "map Node ns" h] by blast
  have ex: "expiry (ts\<lparr>tlinks := h\<rparr>) = expiry ts" by (auto simp: expiry_def)
  obtain h2 where "cascade_loop q (ts\<lparr>tlinks := h\<rparr>) = Some (Inr (ts\<lparr>tlinks := h2\<rparr>))"
      "wheel_ok (ts\<lparr>tlinks := h2\<rparr>) (fold (put (expiry ts) (uJiffies m)) ns (put (expiry ts) (uJiffies m) n w))"
    using Cons.IH [OF h(2), of q] f Cons.prems(3-6) by (auto simp: members_put ex)
  then show ?case
    using p(1) d h(1) by (subst cascade_loop.simps) auto
qed

text \<open>\<open>cascade_timer\<close> takes the nodes of a slot and puts them, in their order, where they belong now.\<close>

definition cascade :: "(nat \<Rightarrow> 32 word) \<Rightarrow> 32 word \<Rightarrow> timer_ref \<Rightarrow> (timer_ref \<Rightarrow> nat list) \<Rightarrow> timer_ref \<Rightarrow> nat list" where
  "cascade ex j a w = fold (put ex j) (w a) (w(a := []))"

lemma members_cascade [simp]:
  assumes "a \<in> slots"
  shows "members (cascade ex j a w) = members w"
proof -
  have "members (w(a := [])) \<union> set (w a) = members w"
    using members_upd [OF assms, of w "[]"] members_upd [OF assms, of w "w a"] by simp
  then show ?thesis by (simp add: cascade_def members_puts Un_commute)
qed

lemma cascade_timer_run:
  assumes ok: "wheel_ok ts w" and a: "Slot l (unat idx) \<in> slots" and m: "manager_mem ts = Some m"
  shows "\<exists>h. cascade_timer l idx ts = Inr (idx, ts\<lparr>tlinks := h\<rparr>) \<and>
    wheel_ok (ts\<lparr>tlinks := h\<rparr>) (cascade (expiry ts) (uJiffies m) (Slot l (unat idx)) w)"
proof -
  let ?a = "Slot l (unat idx)"
  obtain h c where h: "on_links (list_timer_replace_init ?a Local) (new_local ts) = Inr (ts\<lparr>tlinks := h\<rparr>)"
      "link_at h Local = Inr c" "follow h (pNext c) (map Node (w ?a)) Local"
      "wheel_ok (ts\<lparr>tlinks := h\<rparr>) (w(?a := []))"
    using take_slot_run [OF ok a] by blast
  have sub: "set (w ?a) \<subseteq> dom (tnodes ts)" "set (w ?a) \<inter> members (w(?a := [])) = {}"
    using wheel_okD(2) [OF ok] members_take [OF ok a] slot_members [OF a, of w] by auto
  have ex: "expiry (ts\<lparr>tlinks := h\<rparr>) = expiry ts" by (auto simp: expiry_def)
  obtain h2 where "cascade_loop (pNext c) (ts\<lparr>tlinks := h\<rparr>) = Some (Inr (ts\<lparr>tlinks := h2\<rparr>))"
      "wheel_ok (ts\<lparr>tlinks := h2\<rparr>) (cascade (expiry ts) (uJiffies m) ?a w)"
    using cascade_loop_run [OF h(4), of "pNext c" "w ?a" m] h(3) wheel_distinct [OF ok a] sub m
    by (auto simp: cascade_def ex)
  then show ?thesis using h(1,2) by (intro exI [of _ h2]) (simp add: cascade_timer_def returns_def)
qed


definition cascades :: "(nat \<Rightarrow> 32 word) \<Rightarrow> 32 word \<Rightarrow> (timer_ref \<Rightarrow> nat list) \<Rightarrow> timer_ref \<Rightarrow> nat list" where
  "cascades ex j w =
     (if j AND TVR_MASK \<noteq> 0 then w
      else let w = cascade ex j (Slot 2 (unat (INDEX 0 j))) w in
        if INDEX 0 j \<noteq> 0 then w
        else let w = cascade ex j (Slot 3 (unat (INDEX 1 j))) w in
          if INDEX 1 j \<noteq> 0 then w
          else let w = cascade ex j (Slot 4 (unat (INDEX 2 j))) w in
            if INDEX 2 j \<noteq> 0 then w
            else cascade ex j (Slot 5 (unat (INDEX 3 j))) w)"

lemma index_less [simp]: "unat (INDEX n j) < 64"
  by (simp add: index_nat)

lemma index_slot: "2 \<le> l \<Longrightarrow> l \<le> 5 \<Longrightarrow> Slot l (unat (INDEX n j)) \<in> slots"
  by simp

lemma cascade_step:
  assumes "wheel_ok (ts\<lparr>tlinks := h0\<rparr>) w" and "2 \<le> l" "l \<le> 5" and "manager_mem ts = Some m"
  obtains h where "cascade_timer l (INDEX n (uJiffies m)) (ts\<lparr>tlinks := h0\<rparr>) =
      Inr (INDEX n (uJiffies m), ts\<lparr>tlinks := h\<rparr>)"
    and "wheel_ok (ts\<lparr>tlinks := h\<rparr>)
      (cascade (expiry ts) (uJiffies m) (Slot l (unat (INDEX n (uJiffies m)))) w)"
proof -
  have "expiry (ts\<lparr>tlinks := h0\<rparr>) = expiry ts" by (auto simp: expiry_def)
  then show ?thesis
    using cascade_timer_run [OF assms(1) index_slot [OF assms(2,3)], of m n "uJiffies m"] assms(4) that
    by auto
qed

lemma cascade_all_run:
  assumes ok: "wheel_ok ts w" and m: "manager_mem ts = Some m"
  shows "\<exists>h. cascade_all ts = Inr (ts\<lparr>tlinks := h\<rparr>) \<and>
    wheel_ok (ts\<lparr>tlinks := h\<rparr>) (cascades (expiry ts) (uJiffies m) w)"
proof -
  let ?j = "uJiffies m" and ?ex = "expiry ts"
  have mm: "manager_at ts = Inr m" using wheel_okD(4) [OF ok] m by auto
  have ok0: "wheel_ok (ts\<lparr>tlinks := tlinks ts\<rparr>) w" using ok by simp
  obtain h1 where h1: "cascade_timer 2 (INDEX 0 ?j) ts = Inr (INDEX 0 ?j, ts\<lparr>tlinks := h1\<rparr>)"
      "wheel_ok (ts\<lparr>tlinks := h1\<rparr>) (cascade ?ex ?j (Slot 2 (unat (INDEX 0 ?j))) w)"
    using cascade_step [OF ok0, of 2 m 0] m by auto
  obtain h2 where h2: "cascade_timer 3 (INDEX 1 ?j) (ts\<lparr>tlinks := h1\<rparr>) = Inr (INDEX 1 ?j, ts\<lparr>tlinks := h2\<rparr>)"
      "wheel_ok (ts\<lparr>tlinks := h2\<rparr>) (cascade ?ex ?j (Slot 3 (unat (INDEX 1 ?j)))
        (cascade ?ex ?j (Slot 2 (unat (INDEX 0 ?j))) w))" (is "wheel_ok _ ?w2")
    using cascade_step [OF h1(2), of 3 m 1] m by auto
  obtain h3 where h3: "cascade_timer 4 (INDEX 2 ?j) (ts\<lparr>tlinks := h2\<rparr>) = Inr (INDEX 2 ?j, ts\<lparr>tlinks := h3\<rparr>)"
      "wheel_ok (ts\<lparr>tlinks := h3\<rparr>) (cascade ?ex ?j (Slot 4 (unat (INDEX 2 ?j)))
        (cascade ?ex ?j (Slot 3 (unat (INDEX 1 ?j)))
          (cascade ?ex ?j (Slot 2 (unat (INDEX 0 ?j))) w)))" (is "wheel_ok _ ?w3")
    using cascade_step [OF h2(2), of 4 m 2] m by auto
  obtain h4 where h4: "cascade_timer 5 (INDEX 3 ?j) (ts\<lparr>tlinks := h3\<rparr>) = Inr (INDEX 3 ?j, ts\<lparr>tlinks := h4\<rparr>)"
      "wheel_ok (ts\<lparr>tlinks := h4\<rparr>) (cascade ?ex ?j (Slot 5 (unat (INDEX 3 ?j)))
        (cascade ?ex ?j (Slot 4 (unat (INDEX 2 ?j))) (cascade ?ex ?j (Slot 3 (unat (INDEX 1 ?j)))
          (cascade ?ex ?j (Slot 2 (unat (INDEX 0 ?j))) w))))"
    using cascade_step [OF h3(2), of 5 m 3] m by auto
  define h where "h = (if ?j AND TVR_MASK \<noteq> 0 then tlinks ts else if INDEX 0 ?j \<noteq> 0 then h1
    else if INDEX 1 ?j \<noteq> 0 then h2 else if INDEX 2 ?j \<noteq> 0 then h3 else h4)"
  have "cascade_all ts = Inr (ts\<lparr>tlinks := h\<rparr>)"
    using h1(1) h2(1) h3(1) h4(1)
    by (simp add: cascade_all_def mm h_def Let_def)
  moreover have "wheel_ok (ts\<lparr>tlinks := h\<rparr>) (cascades ?ex ?j w)"
    using ok0 h1(2) h2(2) h3(2) h4(2) unfolding cascades_def h_def Let_def
    by (cases "?j AND TVR_MASK = 0"; cases "INDEX 0 ?j = 0"; cases "INDEX 1 ?j = 0"; cases "INDEX 2 ?j = 0";
        simp)
  ultimately show ?thesis by blast
qed

lemma members_cascades [simp]: "members (cascades ex j w) = members w"
  by (simp add: cascades_def Let_def)


section \<open>Making and destroying the wheel\<close>

lemma init_array_at:
  "tlinks (init_array_list_timer l n ts) = (\<lambda>a. case a of
     Slot k i \<Rightarrow> if k = l \<and> i < n then Some \<lparr>pPrev = a, pNext = a\<rparr> else tlinks ts a
   | _ \<Rightarrow> tlinks ts a)"
  "tnodes (init_array_list_timer l n ts) = tnodes ts"
  "timer_manager (init_array_list_timer l n ts) = timer_manager ts"
  "manager_mem (init_array_list_timer l n ts) = manager_mem ts"
  by (induction n) (auto simp: init_array_list_timer_def fun_eq_iff split: timer_ref.split)

definition init_arrays :: "timer_state \<Rightarrow> timer_state" where
  "init_arrays ts =
     (let ts = init_array_list_timer 1 256 ts;
          ts = init_array_list_timer 2 64 ts;
          ts = init_array_list_timer 3 64 ts;
          ts = init_array_list_timer 4 64 ts
      in init_array_list_timer 5 64 ts)"

definition delete_arrays :: "timer_state \<Rightarrow> timer_state result" where
  "delete_arrays ts =
     andthen (delete_array_list_timer 1 256 ts) (\<lambda>ts.
     andthen (delete_array_list_timer 2 64 ts) (\<lambda>ts.
     andthen (delete_array_list_timer 3 64 ts) (\<lambda>ts.
     andthen (delete_array_list_timer 4 64 ts) (\<lambda>ts.
     delete_array_list_timer 5 64 ts))))"

lemma init_arrays_ok:
  assumes "tnodes ts = Map.empty" and "timer_manager ts" and "manager_mem ts \<noteq> None"
    and "\<forall>n. tlinks ts (Node n) = None"
  shows "wheel_ok (init_arrays ts) (\<lambda>_. [])" "tnodes (init_arrays ts) = tnodes ts"
    "manager_mem (init_arrays ts) = manager_mem ts"
proof -
  have "ring (tlinks (init_arrays ts)) a []" if "a \<in> slots" for a
    using that by (auto simp: slots_def ring_def lk_def nextf_def prevf_def init_arrays_def
        init_array_at Let_def)
  then have "rings slots (tlinks (init_arrays ts)) (wrefs (\<lambda>_. []))"
    by (simp add: rings_def wrefs_def)
  moreover have "Node n \<notin> dom (tlinks (init_arrays ts))" for n
    using assms(4) by (simp add: init_arrays_def init_array_at Let_def domIff)
  ultimately show "wheel_ok (init_arrays ts) (\<lambda>_. [])"
    using assms(1-3) unfolding wheel_ok_def members_def
    by (auto simp: init_arrays_def init_array_at Let_def)
qed (simp_all add: init_arrays_def init_array_at Let_def)

definition free_all :: "nat set \<Rightarrow> timer_state \<Rightarrow> timer_state" where
  "free_all N ts = ts\<lparr>tnodes := tnodes ts |` (- N), tlinks := tlinks ts |` (- Node ` N)\<rparr>"

lemma free_all_empty [simp]: "free_all {} ts = ts"
  by (simp add: free_all_def restrict_map_def)

lemma free_all_free: "free_all A (free_all B ts) = free_all (A \<union> B) ts"
  by (simp add: free_all_def image_Un Int_commute)

lemma free_node_all: "tnodes ts n = Some c \<Longrightarrow> free_node n ts = Inr (free_all {n} ts)"
  by (simp add: free_node_def node_at_def free_all_def restrict_map_def fun_eq_iff)

lemma free_all_links: "a \<notin> Node ` N \<Longrightarrow> tlinks (free_all N ts) a = tlinks ts a"
  by (simp add: free_all_def)

lemma delete_loop_run:
  assumes "follow (tlinks ts) p (map Node ns) Local" and "distinct ns" and "set ns \<subseteq> dom (tnodes ts)"
  shows "delete_loop p ts = Some (Inr (free_all (set ns) ts))"
  using assms
proof (induction ns arbitrary: p ts)
  case Nil
  then show ?case by (subst delete_loop.simps) simp
next
  case (Cons n ns)
  obtain c where c: "tnodes ts n = Some c" using Cons.prems(3) by auto
  obtain q d where p: "p = Node n" "link_at (tlinks ts) (Node n) = Inr d" "pNext d = q"
      "follow (tlinks ts) q (map Node ns) Local"
    using Cons.prems(1) by (auto simp: nextf_def link_at_def)
  have "follow (tlinks (free_all {n} ts)) q (map Node ns) Local =
      follow (tlinks ts) q (map Node ns) Local"
    by (rule follow_cong, rule free_all_links) (use Cons.prems(2) in auto)
  then have "follow (tlinks (free_all {n} ts)) q (map Node ns) Local" using p(4) by simp
  moreover have "set ns \<subseteq> dom (tnodes (free_all {n} ts))"
    using Cons.prems(2,3) by (auto simp: free_all_def)
  ultimately have "delete_loop q (free_all {n} ts) = Some (Inr (free_all (set ns) (free_all {n} ts)))"
    using Cons.IH Cons.prems(2) by simp
  then show ?case
    using p(1-3) free_node_all [OF c] by (subst delete_loop.simps) (simp add: free_all_free)
qed

lemma wheel_free:
  assumes ok: "wheel_ok ts w" and N: "N \<inter> members w = {}"
  shows "wheel_ok (free_all N ts) w"
proof -
  have "rings slots (tlinks (free_all N ts)) (wrefs w)"
    by (rule rings_cong [OF wheel_okD(1) [OF ok] free_all_links]) (use N off_rings_node in blast)
  then show ?thesis
    using ok N by (auto simp: wheel_ok_def free_all_def)
qed


definition emptied :: "timer_ref set \<Rightarrow> (timer_ref \<Rightarrow> nat list) \<Rightarrow> timer_ref \<Rightarrow> nat list" where
  "emptied A w = (\<lambda>a. if a \<in> A then [] else w a)"

lemma emptied_emptied: "emptied A (emptied B w) = emptied (A \<union> B) w"
  by (auto simp: emptied_def)

lemma emptied_upd: "w(a := []) = emptied {a} w"
  by (auto simp: emptied_def)

text \<open>The nodes in \<open>A\<close> were freed.\<close>

definition deleted :: "timer_ref set \<Rightarrow> (timer_ref \<Rightarrow> nat list) \<Rightarrow> timer_state \<Rightarrow> timer_state \<Rightarrow> bool" where
  "deleted A w ts ts' \<longleftrightarrow> wheel_ok ts' (emptied A w) \<and>
     tnodes ts' = tnodes ts |` (- (\<Union>a\<in>A. set (w a))) \<and> manager_mem ts' = manager_mem ts"

lemma deleted_trans:
  assumes "deleted A w ts ts1" and "deleted B (emptied A w) ts1 ts2"
  shows "deleted (A \<union> B) w ts ts2"
proof -
  have un: "(\<Union>a\<in>A. set (w a)) \<union> (\<Union>a\<in>B. set (emptied A w a)) = (\<Union>a\<in>A \<union> B. set (w a))"
    by (auto simp: emptied_def split: if_splits) blast
  have "tnodes ts1 = tnodes ts |` (- (\<Union>a\<in>A. set (w a)))"
      "tnodes ts2 = tnodes ts1 |` (- (\<Union>a\<in>B. set (emptied A w a)))"
    using assms unfolding deleted_def by blast+
  then have "tnodes ts2 = tnodes ts |` (- (\<Union>a\<in>A \<union> B. set (w a)))"
    by (simp only: restrict_restrict un [symmetric] Compl_Un)
  then show ?thesis
    using assms by (simp add: deleted_def emptied_emptied Un_commute)
qed

lemma delete_slots_run:
  assumes "wheel_ok ts w" and "Slot l ` set is' \<subseteq> slots" and "distinct is'"
  shows "\<exists>ts'. delete_slots l is' ts = Inr ts' \<and> deleted (Slot l ` set is') w ts ts'"
  using assms
proof (induction is' arbitrary: ts w)
  case Nil
  then show ?case by (simp add: deleted_def emptied_def restrict_map_def)
next
  case (Cons i is')
  let ?a = "Slot l i" and ?w = "emptied {Slot l i} w"
  have a: "?a \<in> slots" using Cons.prems(2) by simp
  obtain h c where h: "on_links (list_timer_replace_init ?a Local) (new_local ts) = Inr (ts\<lparr>tlinks := h\<rparr>)"
      "link_at h Local = Inr c" "follow h (pNext c) (map Node (w ?a)) Local" "wheel_ok (ts\<lparr>tlinks := h\<rparr>) ?w"
    using take_slot_run [OF Cons.prems(1) a] by (auto simp: emptied_upd)
  have m: "members ?w = members w - set (w ?a)"
    using members_take [OF Cons.prems(1) a] by (simp add: emptied_upd)
  let ?ts = "free_all (set (w ?a)) (ts\<lparr>tlinks := h\<rparr>)"
  have "set (w ?a) \<subseteq> dom (tnodes ts)"
    using slot_members [OF a, of w] wheel_okD(2) [OF Cons.prems(1)] by blast
  then have loop: "delete_loop (pNext c) (ts\<lparr>tlinks := h\<rparr>) = Some (Inr ?ts)"
    using delete_loop_run [of "ts\<lparr>tlinks := h\<rparr>"] h(3) wheel_distinct [OF Cons.prems(1) a] by simp
  have "wheel_ok ?ts ?w" using wheel_free [OF h(4)] m by blast
  then have d: "deleted {?a} w ts ?ts" by (simp add: deleted_def free_all_def)
  obtain ts' where ts': "delete_slots l is' ?ts = Inr ts'" "deleted (Slot l ` set is') ?w ?ts ts'"
    using Cons.IH [OF \<open>wheel_ok ?ts ?w\<close>] Cons.prems(2,3) by auto
  have "deleted (Slot l ` set (i # is')) w ts ts'" using deleted_trans [OF d ts'(2)] by simp
  moreover have "delete_slots l (i # is') ts = Inr ts'"
    using h(1,2) loop ts'(1) by (simp add: returns_def)
  ultimately show ?case by blast
qed

lemma delete_array_run:
  assumes "wheel_ok ts w" and "Slot l ` {..<n} \<subseteq> slots"
  shows "\<exists>ts'. delete_array_list_timer l n ts = Inr ts' \<and> deleted (Slot l ` {..<n}) w ts ts'"
  using delete_slots_run [OF assms(1), of l "[0..<n]"] assms(2)
  by (simp add: delete_array_list_timer_def atLeast0LessThan)

text \<open>All nodes in the wheel are freed, and no others.\<close>

lemma delete_arrays_run:
  assumes ok: "wheel_ok ts w"
  shows "\<exists>ts'. delete_arrays ts = Inr ts' \<and> wheel_ok ts' (emptied slots w) \<and>
    tnodes ts' = tnodes ts |` (- members w) \<and> manager_mem ts' = manager_mem ts"
proof -
  let ?A = "\<lambda>l. Slot l ` {..<64}"
  obtain t1 where t1: "delete_array_list_timer 1 256 ts = Inr t1" "deleted (Slot 1 ` {..<256}) w ts t1"
    using delete_array_run [OF ok, of 1 256] by (auto simp: slots_def)
  have step: "\<exists>t'. delete_array_list_timer l 64 t = Inr t' \<and> deleted (A \<union> ?A l) w ts t'"
    if "deleted A w ts t" "2 \<le> l" "l \<le> 5" for A l t
  proof -
    have "wheel_ok t (emptied A w)" using that(1) by (simp add: deleted_def)
    moreover have "?A l \<subseteq> slots" using that(2,3) by (auto simp: slots_def)
    ultimately obtain t' where
        "delete_array_list_timer l 64 t = Inr t'" "deleted (?A l) (emptied A w) t t'"
      using delete_array_run [of t "emptied A w" l 64] by blast
    then show ?thesis using deleted_trans [OF that(1)] by blast
  qed
  obtain t2 where t2: "delete_array_list_timer 2 64 t1 = Inr t2" "deleted (Slot 1 ` {..<256} \<union> ?A 2) w ts t2"
    using step [OF t1(2), of 2] by auto
  obtain t3 where t3: "delete_array_list_timer 3 64 t2 = Inr t3"
      "deleted (Slot 1 ` {..<256} \<union> ?A 2 \<union> ?A 3) w ts t3"
    using step [OF t2(2), of 3] by auto
  obtain t4 where t4: "delete_array_list_timer 4 64 t3 = Inr t4"
      "deleted (Slot 1 ` {..<256} \<union> ?A 2 \<union> ?A 3 \<union> ?A 4) w ts t4"
    using step [OF t3(2), of 4] by auto
  obtain t5 where t5: "delete_array_list_timer 5 64 t4 = Inr t5"
      "deleted (Slot 1 ` {..<256} \<union> ?A 2 \<union> ?A 3 \<union> ?A 4 \<union> ?A 5) w ts t5"
    using step [OF t4(2), of 5] by auto
  have "{l. 2 \<le> l \<and> l \<le> 5} = {2, 3, 4, 5 :: nat}" by auto
  then have "Slot 1 ` {..<256} \<union> ?A 2 \<union> ?A 3 \<union> ?A 4 \<union> ?A 5 = slots"
    unfolding slots_def by (auto simp: set_eq_iff)
  then have "deleted slots w ts t5" using t5(2) by simp
  then show ?thesis
    using t1(1) t2(1) t3(1) t4(1) t5(1) by (simp add: delete_arrays_def deleted_def members_def)
qed

section \<open>Taking a node out\<close>

lemma map_Node_remove1: "map Node (remove1 n xs) = remove1 (Node n) (map Node xs)"
  by (induction xs) auto

lemma unlink_run:
  assumes ok: "wheel_ok ts w" and a: "a \<in> slots" and n: "n \<in> set (w a)"
  shows "\<exists>h. list_timer_unlink (Node n) (tlinks ts) = Inr h \<and>
    wheel_ok (free_all {n} (ts\<lparr>tlinks := h\<rparr>)) (w(a := remove1 n (w a))) \<and>
    members (w(a := remove1 n (w a))) = members w - {n}"
proof -
  have "Node n \<in> set (wrefs w a)" using n by (simp add: wrefs_def)
  from rings_remove [OF wheel_okD(1) [OF ok] a this] obtain h where h:
      "list_timer_unlink (Node n) (tlinks ts) = Inr h"
      "rings slots h ((wrefs w)(a := remove1 (Node n) (wrefs w a)))" "dom h = dom (tlinks ts)"
    by blast
  let ?w = "w(a := remove1 n (w a))"
  have wr: "wrefs ?w = (wrefs w)(a := remove1 (Node n) (wrefs w a))"
    by (simp add: wrefs_upd) (simp add: wrefs_def map_Node_remove1)
  have d: "distinct (w a)" by (rule wheel_distinct [OF ok a])
  have "n \<notin> set (w b)" if "b \<in> slots - {a}" for b
    using wheel_apart [OF ok a _ n, of b] that by blast
  then have m: "members ?w = members w - {n}"
    unfolding members_upd [OF a] using members_upd [OF a, of w "w a"] d by auto
  have "wheel_ok (ts\<lparr>tlinks := h\<rparr>) ?w"
    using ok h(2,3) m by (auto simp: wheel_ok_def wr)
  then have "wheel_ok (free_all {n} (ts\<lparr>tlinks := h\<rparr>)) ?w"
    by (rule wheel_free) (use m in simp)
  then show ?thesis using h(1) m by blast
qed

end
