(* ===== verification/Timer.thy ===== *)
theory Timer
  imports Task Wheel
begin

text \<open>
  The timers of \<open>interrupt/timer.c\<close>: creating, deleting and running them, and the handler of
  the timer interrupt. What \<open>malloc\<close> returns, what the monotonic clock shows and the callbacks
  of the program that uses the library are arguments.
\<close>

section \<open>The functions\<close>

definition on_timers :: "(timer_state \<Rightarrow> timer_state result) \<Rightarrow> sys \<Rightarrow> sys result" where
  "on_timers f s = andthen (f (timers s)) (\<lambda>ts. Inr (s\<lparr>timers := ts\<rparr>))"

subsection \<open>The callbacks\<close>

definition collaborative_schedule_helper :: "nat \<Rightarrow> sys \<Rightarrow> sys result" where
  "collaborative_schedule_helper task s =
     andthen (in_list ReadyList (GeneralTag task) s) (\<lambda>b.
     assert_c (\<not> b) (
     andthen (append_cell ReadyList (GeneralTag task) s) (\<lambda>s.
     andthen (upd_task task (\<lambda>ts. ts\<lparr>ticks := priority ts\<rparr>) s) (\<lambda>s.
     andthen (set_status TASK_READY task s) (\<lambda>s.
     andthen (upd_task task (\<lambda>ts. ts\<lparr>is_collaborative_schedule := False\<rparr>) s) (\<lambda>s.
     upd_task task (\<lambda>ts. ts\<lparr>sleep_millisecond := 0\<rparr>) s))))))"

type_synonym clients = "nat \<Rightarrow> param \<Rightarrow> sys \<Rightarrow> sys result"

fun run_callback :: "clients \<Rightarrow> callback \<Rightarrow> param \<Rightarrow> sys \<Rightarrow> sys result" where
  "run_callback client Clean_Dead_Task p s = clean_dead_task s"
| "run_callback client Collaborative_Schedule_Helper (Task_Param t) s = collaborative_schedule_helper t s"
| "run_callback client Collaborative_Schedule_Helper _ s = Inl Bad_Access"
| "run_callback client (Client k) p s = client k p s"

subsection \<open>Running the timers that have expired\<close>

text \<open>
  The body of the loop over the expired timers. The node is read again after the callback,
  which can have changed it.
\<close>

definition expire_step :: "clients \<Rightarrow> timer_ref \<Rightarrow> sys \<Rightarrow> (timer_ref \<times> sys) result" where
  "expire_step client p s =
     andthen (node_of p) (\<lambda>pTmr.
     andthen (link_at (tlinks (timers s)) p) (\<lambda>l.
     andthen (node_at pTmr (timers s)) (\<lambda>c.
     andthen (run_callback client (timerFn c) (pParam c) s) (\<lambda>s.
     andthen (node_at pTmr (timers s)) (\<lambda>c.
     andthen
       (if uPeriod c \<noteq> 0 then
          on_timers (\<lambda>ts.
            andthen (manager_at ts) (\<lambda>m.
            andthen (upd_node pTmr (\<lambda>c. c\<lparr>uExpires := uJiffies m + uPeriod c\<rparr>) ts) (\<lambda>ts.
            add_timer pTmr ts))) s
        else on_timers (free_node pTmr) s) (\<lambda>s.
     Inr (pNext l, s)))))))"

partial_function (option) expire_loop :: "clients \<Rightarrow> timer_ref \<Rightarrow> sys \<Rightarrow> sys result option" where
  "expire_loop client p s =
     (if p = Local then Some (Inr s)
      else case expire_step client p s of
             Inl e \<Rightarrow> Some (Inl e)
           | Inr (p, s) \<Rightarrow> expire_loop client p s)"

text \<open>One turn of the loop of \<open>run_timer\<close>, for one millisecond, and the loop.\<close>

definition timer_turn :: "clients \<Rightarrow> sys \<Rightarrow> sys result" where
  "timer_turn client s =
     andthen (manager_at (timers s)) (\<lambda>m.
     let idx = uJiffies m AND TVR_MASK in
     andthen (on_timers cascade_all s) (\<lambda>s.
     andthen (on_timers (\<lambda>ts.
       on_links (list_timer_replace_init (Slot 1 (unat idx)) Local) (new_local ts)) s) (\<lambda>s.
     andthen (link_at (tlinks (timers s)) Local) (\<lambda>l.
     andthen (returns (expire_loop client (pNext l) s)) (\<lambda>s.
     on_timers (upd_manager (\<lambda>m. m\<lparr>uJiffies := uJiffies m + 1\<rparr>)) s)))))"

partial_function (option) run_loop :: "clients \<Rightarrow> 32 word \<Rightarrow> sys \<Rightarrow> sys result option" where
  "run_loop client now s =
     (case manager_at (timers s) of
        Inl e \<Rightarrow> Some (Inl e)
      | Inr m \<Rightarrow>
          (if time_after_eq now (uJiffies m)
           then case timer_turn client s of
                  Inl e \<Rightarrow> Some (Inl e)
                | Inr s \<Rightarrow> run_loop client now s
           else Some (Inr s)))"

definition run_timer :: "clients \<Rightarrow> timespec \<Rightarrow> sys \<Rightarrow> (sys, unit) run" where
  "run_timer client clock s =
     (if \<not> timer_manager (timers s) then Done () s
      else
        let now = get_jiffies clock in
        bind_run (lock_acquire TimerLock s) (\<lambda>_ s.
        bind_run (lift_run (returns (run_loop client now s))) (\<lambda>_ s.
        lift_run (lock_release TimerLock s))))"

subsection \<open>Creating and deleting timers\<close>

text \<open>
  \<open>alloc_node\<close>: the node \<open>malloc\<close> gave, with the fields that are written before the lock is
  taken; \<open>uExpires\<close> and \<open>ltTimer\<close> have contents that nobody reads.
\<close>

definition alloc_node :: "nat \<Rightarrow> callback \<Rightarrow> param \<Rightarrow> 32 word \<Rightarrow> timer_state \<Rightarrow> timer_state" where
  "alloc_node n f p per ts =
     ts\<lparr>tnodes := (tnodes ts)(n \<mapsto> \<lparr>uExpires = 0, uPeriod = per, timerFn = f, pParam = p\<rparr>),
       tlinks := (tlinks ts)(Node n \<mapsto> \<lparr>pPrev = Node n, pNext = Node n\<rparr>)\<rparr>"

definition set_expiry :: "nat \<Rightarrow> 32 word \<Rightarrow> timer_state \<Rightarrow> timer_state result" where
  "set_expiry n due ts =
     andthen (manager_at ts) (\<lambda>m. upd_node n (\<lambda>c. c\<lparr>uExpires := uJiffies m + due\<rparr>) ts)"

definition insert_timer :: "nat \<Rightarrow> 32 word \<Rightarrow> timer_state \<Rightarrow> timer_state result" where
  "insert_timer n due ts = andthen (set_expiry n due ts) (\<lambda>ts. add_timer n ts)"

definition create_timer ::
  "callback option \<Rightarrow> param \<Rightarrow> 32 word \<Rightarrow> 32 word \<Rightarrow> nat option \<Rightarrow> sys \<Rightarrow> (sys, nat option) run" where
  "create_timer fn p due per new s =
     (case fn of
        None \<Rightarrow> Done None s
      | Some f \<Rightarrow>
          (if \<not> timer_manager (timers s) then Done None s
           else case new of
               None \<Rightarrow> Done None s
             | Some n \<Rightarrow>
                 bind_run (lock_acquire TimerLock (s\<lparr>timers := alloc_node n f p per (timers s)\<rparr>)) (\<lambda>_ s.
                 bind_run (lift_run (on_timers (insert_timer n due) s)) (\<lambda>_ s.
                 bind_run (lift_run (lock_release TimerLock s)) (\<lambda>_ s. Done (Some n) s)))))"

definition delete_timer :: "nat option \<Rightarrow> sys \<Rightarrow> (sys, int) run" where
  "delete_timer lpTimer s =
     (case lpTimer of
        None \<Rightarrow> Done (- 1) s
      | Some n \<Rightarrow>
          (if \<not> timer_manager (timers s) then Done (- 1) s
           else
             bind_run (lock_acquire TimerLock s) (\<lambda>_ s.
             bind_run (lift_run (on_timers (\<lambda>ts.
               andthen (on_links (list_timer_unlink (Node n)) ts) (free_node n)) s)) (\<lambda>_ s.
             bind_run (lift_run (lock_release TimerLock s)) (\<lambda>_ s. Done 0 s)))))"

subsection \<open>The manager\<close>

text \<open>
  The memory \<open>malloc\<close> gives, with the sentinels of the lock in it, has contents nobody reads.
  \<open>timer_init\<close> is called once, by
  \<open>init\<close>; the elements of the arrays are named without the address of the manager.
\<close>

definition make_manager :: "timespec \<Rightarrow> sys \<Rightarrow> sys result" where
  "make_manager clock s =
     (let s = s\<lparr>timers := (timers s)\<lparr>timer_manager := True,
                manager_mem := Some \<lparr>uExitFlag = 0, uJiffies = 0\<rparr>\<rparr>,
              cells := (cells s)(HeadOf (Waiters TimerLock) \<mapsto> \<lparr>prev = None, nxt = None\<rparr>,
                TailOf (Waiters TimerLock) \<mapsto> \<lparr>prev = None, nxt = None\<rparr>)\<rparr> in
      andthen (lock_init TimerLock s) (\<lambda>s.
      on_timers (\<lambda>ts.
        andthen (upd_manager (\<lambda>m. m\<lparr>uJiffies := get_jiffies clock\<rparr>) ts) (\<lambda>ts.
        Inr (init_arrays ts))) s))"

definition timer_init :: "bool \<Rightarrow> timespec \<Rightarrow> nat option \<Rightarrow> sys \<Rightarrow> (sys, unit) run" where
  "timer_init malloc_ok clock new s =
     bind_run
       (if malloc_ok then lift_run (make_manager clock s)
        else Done () (s\<lparr>timers := (timers s)\<lparr>timer_manager := False\<rparr>\<rparr>)) (\<lambda>_ s.
     bind_run (create_timer (Some Clean_Dead_Task) Manager_Param 150000 150000 new s) (\<lambda>_ s.
     Done () s))"

text \<open>\<open>free\<close> of the manager: its arrays and its lock are part of it, the pointer stays.\<close>

definition free_manager :: "sys \<Rightarrow> sys" where
  "free_manager s = s\<lparr>timers := (timers s)\<lparr>manager_mem := None, tlinks := tlinks (timers s) |` (- slots)\<rparr>,
     locks := (locks s)(TimerLock := None),
     cells := cells s |` (- {HeadOf (Waiters TimerLock), TailOf (Waiters TimerLock)})\<rparr>"

definition destroy_timer_manager :: "sys \<Rightarrow> sys result" where
  "destroy_timer_manager s =
     (if \<not> timer_manager (timers s) then Inr s
      else
        andthen (on_timers (upd_manager (\<lambda>m. m\<lparr>uExitFlag := 1\<rparr>)) s) (\<lambda>s.
        andthen (on_timers delete_arrays s) (\<lambda>s.
        Inr (free_manager s))))"

subsection \<open>The interrupt handler\<close>

definition handler_count :: "sys \<Rightarrow> sys result" where
  "handler_count s =
     andthen (current s) (\<lambda>c.
     andthen (task_at s c) (\<lambda>ts.
     assert_c (stack_magic ts = 0x19991120) (
     andthen (upd_task c (\<lambda>ts. ts\<lparr>elapsed_ticks := elapsed_ticks ts + 1\<rparr>) s) (\<lambda>s.
     Inr (s\<lparr>total_ticks := total_ticks s + 1\<rparr>)))))"

definition handler_timers :: "clients \<Rightarrow> timespec \<Rightarrow> sys \<Rightarrow> (sys, unit) run" where
  "handler_timers client clock s =
     (if timer_manager (timers s) then
        (case manager_at (timers s) of
           Inl e \<Rightarrow> Fail e
         | Inr m \<Rightarrow>
             (if uExitFlag m = 0 then run_timer client clock s
              else lift_run (destroy_timer_manager s)))
      else Done () s)"

definition handler_schedule :: "nat option \<Rightarrow> sigcontext \<Rightarrow> sys \<Rightarrow> (sys, sigcontext) run" where
  "handler_schedule new frame s =
     (case andthen (current s) (\<lambda>c. andthen (task_at s c) (\<lambda>ts. Inr (c, ts))) of
        Inl e \<Rightarrow> Fail e
      | Inr (c, ts) \<Rightarrow>
          (if \<not> is_collaborative_schedule ts \<and> ticks ts = 0 then lift_val (schedule frame s)
           else if \<not> is_collaborative_schedule ts then
             bind_run (lift_run (upd_task c (\<lambda>ts. ts\<lparr>ticks := ticks ts - 1\<rparr>) s)) (\<lambda>_ s. Done frame s)
           else
             bind_run (create_timer (Some Collaborative_Schedule_Helper) (Task_Param c)
                 (sleep_millisecond ts) 0 new s) (\<lambda>_ s.
             lift_val (collaborative_schedule frame s))))"

definition interrupt_timer_handler ::
  "clients \<Rightarrow> timespec \<Rightarrow> nat option \<Rightarrow> sigcontext \<Rightarrow> sys \<Rightarrow> (sys, sigcontext) run" where
  "interrupt_timer_handler client clock new frame s =
     bind_run (lift_run (handler_count s)) (\<lambda>_ s.
     bind_run (handler_timers client clock s) (\<lambda>_ s.
     handler_schedule new frame s))"


text \<open>
  The kernel masks the alarm while the handler runs, and restores the mask of the interrupted
  code, in which the alarm was not masked, when the handler returns.
\<close>

definition signal_headler ::
  "clients \<Rightarrow> timespec \<Rightarrow> nat option \<Rightarrow> sigcontext \<Rightarrow> sys \<Rightarrow> (sys, sigcontext) run" where
  "signal_headler client clock new frame s =
     bind_run (interrupt_timer_handler client clock new frame (s\<lparr>blocked := True\<rparr>)) (\<lambda>frame s.
     Done frame (s\<lparr>blocked := False\<rparr>))"

section \<open>The timers in the abstract\<close>

text \<open>
  The state of the timers is the map of the nodes and the nodes in each slot. \<open>expire1\<close>: what
  happens to an expired node. \<open>turn\<close>: one millisecond.
\<close>

type_synonym timer_abs = "(nat \<rightharpoonup> timer_node) \<times> (timer_ref \<Rightarrow> nat list)"

definition expire1 :: "32 word \<Rightarrow> nat \<Rightarrow> timer_abs \<Rightarrow> timer_abs" where
  "expire1 j n = (\<lambda>(nd, w). case nd n of
       None \<Rightarrow> (nd, w)
     | Some c \<Rightarrow>
         (if uPeriod c = 0 then (nd(n := None), w)
          else let e = j + uPeriod c; a = timer_slot e j in
            (nd(n \<mapsto> c\<lparr>uExpires := e\<rparr>), w(a := w a @ [n]))))"

definition expiry_in :: "(nat \<rightharpoonup> timer_node) \<Rightarrow> nat \<Rightarrow> 32 word" where
  "expiry_in nd n = (case nd n of None \<Rightarrow> 0 | Some c \<Rightarrow> uExpires c)"

definition expired :: "32 word \<Rightarrow> timer_abs \<Rightarrow> nat list" where
  "expired j = (\<lambda>(nd, w). cascades (expiry_in nd) j w (Slot 1 (unat j mod 256)))"

definition turn :: "32 word \<Rightarrow> timer_abs \<Rightarrow> timer_abs" where
  "turn j = (\<lambda>(nd, w).
     fold (expire1 j) (expired j (nd, w))
       (nd, (cascades (expiry_in nd) j w)(Slot 1 (unat j mod 256) := [])))"

primrec turns :: "nat \<Rightarrow> 32 word \<Rightarrow> timer_abs \<Rightarrow> timer_abs" where
  "turns 0 j x = x"
| "turns (Suc k) j x = turns k (j + 1) (turn j x)"

text \<open>The nodes still to be called, and what their callbacks and parameters are.\<close>

definition matches :: "(nat \<Rightarrow> callback \<times> param \<times> bool) \<Rightarrow> nat set \<Rightarrow> (nat \<rightharpoonup> timer_node) \<Rightarrow> bool" where
  "matches cb P nd \<longleftrightarrow>
     (\<forall>n\<in>P. \<exists>c. nd n = Some c \<and> cb n = (timerFn c, pParam c, uPeriod c \<noteq> 0))"

lemma expiry_in_nodes: "expiry ts = expiry_in (tnodes ts)"
  by (auto simp: expiry_def expiry_in_def)

lemma expire1_once: "nd n = Some c \<Longrightarrow> uPeriod c = 0 \<Longrightarrow> expire1 j n (nd, w) = (nd(n := None), w)"
  by (simp add: expire1_def)

lemma expire1_again:
  "nd n = Some c \<Longrightarrow> uPeriod c \<noteq> 0 \<Longrightarrow>
   expire1 j n (nd, w) = (nd(n \<mapsto> c\<lparr>uExpires := j + uPeriod c\<rparr>), put (\<lambda>_. j + uPeriod c) j n w)"
  by (simp add: expire1_def put_def Let_def)

lemma matches_mono: "matches cb P nd \<Longrightarrow> Q \<subseteq> P \<Longrightarrow> matches cb Q nd"
  unfolding matches_def by blast

lemma matches_expire1:
  assumes "matches cb P nd" and "nd n = Some c" and "cb n = (timerFn c, pParam c, uPeriod c \<noteq> 0)"
    and "(nd', w') = expire1 j n (nd, w)"
  shows "matches cb (if uPeriod c \<noteq> 0 then P else P - {n}) nd'"
proof (cases "uPeriod c = 0")
  case True
  then have "nd' = nd(n := None)" using assms(2,4) expire1_once [of nd n c j w] by simp
  then show ?thesis using assms(1) True by (simp add: matches_def)
next
  case False
  then have "nd' = nd(n \<mapsto> c\<lparr>uExpires := j + uPeriod c\<rparr>)"
    using assms(2,4) expire1_again [of nd n c j w] by simp
  then show ?thesis using assms(1,3) False by (simp add: matches_def)
qed

lemma members_expire1:
  assumes "nd n = Some c" and "(nd', w') = expire1 j n (nd, w)"
  shows "members w' = members w \<union> (if uPeriod c \<noteq> 0 then {n} else {})"
proof (cases "uPeriod c = 0")
  case True
  then show ?thesis using assms expire1_once [of nd n c j w] by simp
next
  case False
  then show ?thesis using assms expire1_again [of nd n c j w] members_put by auto
qed

lemma expire1_other:
  assumes "nd n = Some c" and "(nd', w') = expire1 j n (nd, w)" and "k \<noteq> n"
  shows "nd' k = nd k"
  using assms expire1_once [of nd n c j w] expire1_again [of nd n c j w]
  by (cases "uPeriod c = 0") auto

lemma members_fold_expire1:
  assumes "matches cb (set ns) nd" and "distinct ns"
  shows "members (snd (fold (expire1 j) ns (nd, w))) = members w \<union> {n \<in> set ns. snd (snd (cb n))}"
  using assms
proof (induction ns arbitrary: nd w)
  case (Cons n ns)
  obtain c where c: "nd n = Some c" "cb n = (timerFn c, pParam c, uPeriod c \<noteq> 0)"
    using Cons.prems(1) by (auto simp: matches_def)
  obtain nd' w' where e: "expire1 j n (nd, w) = (nd', w')" by fastforce
  note m = members_expire1 [OF c(1) e [symmetric]] and other = expire1_other [OF c(1) e [symmetric]]
  have "nd' k = nd k" if "k \<in> set ns" for k
    using other [of k] Cons.prems(2) that by (metis distinct.simps(2))
  then have "matches cb (set ns) nd'" using Cons.prems(1) by (auto simp: matches_def)
  with Cons.IH [of nd' w'] Cons.prems(2) have
    "members (snd (fold (expire1 j) ns (nd', w'))) = members w' \<union> {n \<in> set ns. snd (snd (cb n))}"
    by simp
  then show ?case using e c(2) m by auto
qed simp


section \<open>The contract of the callbacks\<close>

text \<open>The timers leave the task ids and the main task alone.\<close>

definition same_ids :: "sys \<Rightarrow> sys \<Rightarrow> bool" where
  "same_ids s' s \<longleftrightarrow> main_task s' = main_task s \<and> tid_start s' = tid_start s \<and>
     tid_bitmap s' = tid_bitmap s \<and> task_all_nums s' = task_all_nums s"

lemma same_ids_refl [simp]: "same_ids s s"
  by (simp add: same_ids_def)

lemma same_idsD:
  "same_ids s' s \<Longrightarrow> main_task s' = main_task s" "same_ids s' s \<Longrightarrow> tid_start s' = tid_start s"
  "same_ids s' s \<Longrightarrow> tid_bitmap s' = tid_bitmap s" "same_ids s' s \<Longrightarrow> task_all_nums s' = task_all_nums s"
  by (simp_all add: same_ids_def)

lemma same_ids_trans [trans]: "same_ids u t \<Longrightarrow> same_ids t s \<Longrightarrow> same_ids u s"
  by (simp add: same_ids_def)

text \<open>
  What \<open>run_timer\<close> relies on. \<open>cb n\<close> are the callback of node \<open>n\<close>, its parameter and whether
  it is periodic; \<open>I P s\<close>: in \<open>s\<close> the callbacks of the nodes in \<open>P\<close> can still be called. A
  callback returns, does not touch the timers or the locks, and keeps \<open>I\<close>.
\<close>

locale timer_calls =
  fixes client :: clients
    and cb :: "nat \<Rightarrow> callback \<times> param \<times> bool"
    and I :: "nat set \<Rightarrow> sys \<Rightarrow> bool"
  assumes call: "I P s \<Longrightarrow> n \<in> P \<Longrightarrow>
      \<exists>s'. run_callback client (fst (cb n)) (fst (snd (cb n))) s = Inr s' \<and> timers s' = timers s \<and>
        locks s' = locks s \<and> current_task s' = current_task s \<and>
        I (if snd (snd (cb n)) then P else P - {n}) s'"
    and frame: "I P s \<Longrightarrow> cells s' = cells s \<Longrightarrow> tasks s' = tasks s \<Longrightarrow>
      current_task s' = current_task s \<Longrightarrow> same_ids s' s \<Longrightarrow>
      dom (locks s') = dom (locks s) \<Longrightarrow> I P s'"
    and quiet_lock: "I P s \<Longrightarrow> \<exists>q. sched_ok s q \<and> q (Waiters TimerLock) = []"
begin

lemma frame_timers: "I P s \<Longrightarrow> I P (s\<lparr>timers := t\<rparr>)"
  by (rule frame) (simp_all add: same_ids_def)

lemma expire_step_run:
  assumes ok: "wheel_ok (timers s) w" and m: "manager_mem (timers s) = Some m"
    and l: "link_at (tlinks (timers s)) (Node n) = Inr l"
    and n: "tnodes (timers s) n = Some c" "n \<notin> members w" "n \<in> P"
    and cbn: "cb n = (timerFn c, pParam c, uPeriod c \<noteq> 0)" and inv: "I P s"
  shows "\<exists>s' w'. expire_step client (Node n) s = Inr (pNext l, s') \<and> wheel_ok (timers s') w' \<and>
    (tnodes (timers s'), w') = expire1 (uJiffies m) n (tnodes (timers s), w) \<and>
    manager_mem (timers s') = Some m \<and> I (if uPeriod c \<noteq> 0 then P else P - {n}) s' \<and>
    locks s' = locks s \<and> current_task s' = current_task s \<and>
    (\<forall>k. k \<noteq> n \<and> k \<notin> members w \<longrightarrow> tlinks (timers s') (Node k) = tlinks (timers s) (Node k))"
proof -
  obtain s1 where s1: "run_callback client (timerFn c) (pParam c) s = Inr s1" "timers s1 = timers s"
      "locks s1 = locks s" "current_task s1 = current_task s" "I (if uPeriod c \<noteq> 0 then P else P - {n}) s1"
    using call [OF inv n(3)] cbn by auto
  have mm: "manager_at (timers s) = Inr m" using wheel_okD(4) [OF ok] m by auto
  show ?thesis
  proof (cases "uPeriod c = 0")
    case True
    let ?ts = "free_all {n} (timers s)"
    have "wheel_ok ?ts w" using wheel_free [OF ok] n(2) by simp
    moreover have "expire_step client (Node n) s = Inr (pNext l, s1\<lparr>timers := ?ts\<rparr>)"
      using l n(1) s1(1,2) True free_node_all [OF n(1)]
      by (simp add: expire_step_def node_at_def on_timers_def)
    moreover have "tnodes ?ts = (tnodes (timers s))(n := None)"
      by (auto simp: free_all_def restrict_map_def)
    ultimately show ?thesis
      using s1(3-5) True expire1_once [of "tnodes (timers s)" n c "uJiffies m" w] n(1) m
      by (intro exI [of _ "s1\<lparr>timers := ?ts\<rparr>"] exI [of _ w])
        (auto simp: free_all_links frame_timers, simp add: free_all_def)
  next
    case False
    let ?e = "uJiffies m + uPeriod c"
    let ?ts = "(timers s)\<lparr>tnodes := (tnodes (timers s))(n \<mapsto> c\<lparr>uExpires := ?e\<rparr>)\<rparr>"
    have "wheel_ok ?ts w"
      using ok n(1) by (auto simp: wheel_ok_def)
    from add_timer_run [OF this, of n "c\<lparr>uExpires := ?e\<rparr>" m] n(2) m obtain h where h:
        "add_timer n ?ts = Inr (?ts\<lparr>tlinks := h\<rparr>)"
        "wheel_ok (?ts\<lparr>tlinks := h\<rparr>) (put (expiry ?ts) (uJiffies m) n w)"
        "\<forall>x. x \<noteq> Node n \<and> off_rings slots (wrefs w) x \<longrightarrow> h x = tlinks (timers s) x"
      by auto
    have pe: "put (expiry ?ts) (uJiffies m) n w = put (\<lambda>_. ?e) (uJiffies m) n w"
      by (simp add: put_def expiry_def)
    have "expire_step client (Node n) s = Inr (pNext l, s1\<lparr>timers := ?ts\<lparr>tlinks := h\<rparr>\<rparr>)"
      using l n(1) s1(1,2) False mm h(1)
      by (simp add: expire_step_def node_at_def on_timers_def upd_node_def)
    then show ?thesis
      using s1(3-5) False expire1_again [of "tnodes (timers s)" n c "uJiffies m" w] n(1) m h(2,3) pe
      by (intro exI [of _ "s1\<lparr>timers := ?ts\<lparr>tlinks := h\<rparr>\<rparr>"] exI [of _ "put (\<lambda>_. ?e) (uJiffies m) n w"])
        (auto simp: frame_timers off_rings_node)
  qed
qed

lemma expire_loop_run:
  assumes "wheel_ok (timers s) w" and "manager_mem (timers s) = Some m"
    and "follow (tlinks (timers s)) p (map Node ns) Local" and "distinct ns"
    and "set ns \<inter> members w = {}" and "matches cb (set ns \<union> members w) (tnodes (timers s))"
    and "I (set ns \<union> members w) s"
  shows "\<exists>s' w'. expire_loop client p s = Some (Inr s') \<and> wheel_ok (timers s') w' \<and>
    (tnodes (timers s'), w') = fold (expire1 (uJiffies m)) ns (tnodes (timers s), w) \<and>
    manager_mem (timers s') = Some m \<and> I (members w') s' \<and>
    matches cb (members w') (tnodes (timers s')) \<and>
    locks s' = locks s \<and> current_task s' = current_task s"
  using assms
proof (induction ns arbitrary: p s w)
  case Nil
  then show ?case by (subst expire_loop.simps) auto
next
  case (Cons n ns)
  obtain q l where p: "p = Node n" "link_at (tlinks (timers s)) (Node n) = Inr l" "pNext l = q"
      "follow (tlinks (timers s)) q (map Node ns) Local"
    using Cons.prems(3) by (auto simp: nextf_def link_at_def)
  obtain c where c: "tnodes (timers s) n = Some c" "cb n = (timerFn c, pParam c, uPeriod c \<noteq> 0)"
    using Cons.prems(6) by (auto simp: matches_def)
  have nw: "n \<notin> members w" "n \<notin> set ns" using Cons.prems(4,5) by auto
  let ?P = "set (n # ns) \<union> members w"
  obtain s1 w1 where s1: "expire_step client (Node n) s = Inr (q, s1)" "wheel_ok (timers s1) w1"
      "(tnodes (timers s1), w1) = expire1 (uJiffies m) n (tnodes (timers s), w)"
      "manager_mem (timers s1) = Some m" "I (if uPeriod c \<noteq> 0 then ?P else ?P - {n}) s1"
      "locks s1 = locks s" "current_task s1 = current_task s"
      "\<forall>k. k \<noteq> n \<and> k \<notin> members w \<longrightarrow> tlinks (timers s1) (Node k) = tlinks (timers s) (Node k)"
    using expire_step_run [OF Cons.prems(1,2) p(2) c(1) nw(1) _ c(2) Cons.prems(7)] p(3) by auto
  have mem: "members w1 = members w \<union> (if uPeriod c \<noteq> 0 then {n} else {})"
    by (rule members_expire1 [OF c(1) s1(3)])
  have P: "set ns \<union> members w1 = (if uPeriod c \<noteq> 0 then ?P else ?P - {n})" using mem nw by auto
  have "follow (tlinks (timers s1)) q (map Node ns) Local = follow (tlinks (timers s)) q (map Node ns) Local"
  proof (rule follow_cong)
    fix x assume "x \<in> set (map Node ns)"
    then obtain k where "x = Node k" "k \<in> set ns" by auto
    then show "tlinks (timers s1) x = tlinks (timers s) x" using s1(8) nw Cons.prems(5) by auto
  qed
  then have f: "follow (tlinks (timers s1)) q (map Node ns) Local" using p(4) by simp
  have "matches cb (set ns \<union> members w1) (tnodes (timers s1))"
    unfolding P by (rule matches_expire1 [OF Cons.prems(6) c s1(3)])
  moreover have "I (set ns \<union> members w1) s1" unfolding P by (rule s1(5))
  moreover have "set ns \<inter> members w1 = {}" using mem nw Cons.prems(5) by auto
  ultimately obtain s2 w2 where s2: "expire_loop client q s1 = Some (Inr s2)" "wheel_ok (timers s2) w2"
      "(tnodes (timers s2), w2) = fold (expire1 (uJiffies m)) ns (tnodes (timers s1), w1)"
      "manager_mem (timers s2) = Some m" "I (members w2) s2" "matches cb (members w2) (tnodes (timers s2))"
      "locks s2 = locks s1" "current_task s2 = current_task s1"
    using Cons.IH [OF s1(2,4) f] Cons.prems(4) by auto
  moreover have "expire_loop client p s = expire_loop client q s1"
    using p(1) s1(1) by (subst expire_loop.simps) simp
  ultimately show ?case
    using s1(3,6,7) by (intro exI [of _ s2] exI [of _ w2]) simp
qed

text \<open>One millisecond, and all of them up to the time of the clock.\<close>

lemma timer_turn_run:
  assumes ok: "wheel_ok (timers s) w" and m: "manager_mem (timers s) = Some m"
    and mt: "matches cb (members w) (tnodes (timers s))" and inv: "I (members w) s"
  shows "\<exists>s' w'. timer_turn client s = Inr s' \<and> wheel_ok (timers s') w' \<and>
    (tnodes (timers s'), w') = turn (uJiffies m) (tnodes (timers s), w) \<and>
    manager_mem (timers s') = Some (m\<lparr>uJiffies := uJiffies m + 1\<rparr>) \<and> I (members w') s' \<and>
    matches cb (members w') (tnodes (timers s')) \<and>
    locks s' = locks s \<and> current_task s' = current_task s"
proof -
  let ?j = "uJiffies m" and ?a = "Slot 1 (unat (uJiffies m) mod 256)"
  let ?w = "cascades (expiry_in (tnodes (timers s))) ?j w"
  have mm: "manager_at (timers s) = Inr m" using wheel_okD(4) [OF ok] m by auto
  obtain h1 where h1: "cascade_all (timers s) = Inr ((timers s)\<lparr>tlinks := h1\<rparr>)"
      "wheel_ok ((timers s)\<lparr>tlinks := h1\<rparr>) ?w"
    using cascade_all_run [OF ok m] by (auto simp: expiry_in_nodes)
  have a: "?a \<in> slots" by simp
  obtain h2 l where h2: "on_links (list_timer_replace_init ?a Local) (new_local ((timers s)\<lparr>tlinks := h1\<rparr>)) =
        Inr ((timers s)\<lparr>tlinks := h2\<rparr>)" "link_at h2 Local = Inr l"
      "follow h2 (pNext l) (map Node (?w ?a)) Local" "wheel_ok ((timers s)\<lparr>tlinks := h2\<rparr>) (?w(?a := []))"
    using take_slot_run [OF h1(2) a] by auto
  let ?s = "s\<lparr>timers := (timers s)\<lparr>tlinks := h2\<rparr>\<rparr>"
  have mem: "members (?w(?a := [])) = members w - set (?w ?a)"
    using members_take [OF h1(2) a] by simp
  have sub: "set (?w ?a) \<subseteq> members w" using slot_members [OF a, of ?w] by simp
  have P: "set (?w ?a) \<union> members (?w(?a := [])) = members w" using mem sub by blast
  have "I (members w) ?s" by (rule frame_timers [OF inv])
  then obtain s' w' where s': "expire_loop client (pNext l) ?s = Some (Inr s')" "wheel_ok (timers s') w'"
      "(tnodes (timers s'), w') = fold (expire1 ?j) (?w ?a) (tnodes (timers s), ?w(?a := []))"
      "manager_mem (timers s') = Some m" "I (members w') s'" "matches cb (members w') (tnodes (timers s'))"
      "locks s' = locks s" "current_task s' = current_task s"
    using expire_loop_run [of ?s "?w(?a := [])" m "pNext l" "?w ?a"] h2(3,4) m mt P mem
      wheel_distinct [OF h1(2) a] by auto
  let ?t = "s'\<lparr>timers := (timers s')\<lparr>manager_mem := Some (m\<lparr>uJiffies := uJiffies m + 1\<rparr>)\<rparr>\<rparr>"
  have mm': "manager_at (timers s') = Inr m" using wheel_okD(4) [OF s'(2)] s'(4) by auto
  have "timer_turn client s = Inr ?t"
    using mm h1(1) h2(1,2) s'(1) mm'
    by (simp add: timer_turn_def on_timers_def and_tvr upd_manager_def returns_def Let_def)
  moreover have "wheel_ok (timers ?t) w'" using s'(2) by (auto simp: wheel_ok_def)
  moreover have "(tnodes (timers s'), w') = turn ?j (tnodes (timers s), w)"
    using s'(3) by (simp add: turn_def expired_def)
  moreover have "I (members w') ?t" using frame_timers [OF s'(5)] .
  ultimately show ?thesis using s'(6-8) by (intro exI [of _ ?t] exI [of _ w']) simp
qed

lemma run_loop_run:
  assumes "wheel_ok (timers s) w" and "manager_mem (timers s) = Some m"
    and "matches cb (members w) (tnodes (timers s))" and "I (members w) s"
    and "unat (uJiffies m) + k = Suc (unat now)" and "Suc (unat now) < 2 ^ 32"
  shows "\<exists>s' w'. run_loop client now s = Some (Inr s') \<and> wheel_ok (timers s') w' \<and>
    (tnodes (timers s'), w') = turns k (uJiffies m) (tnodes (timers s), w) \<and>
    manager_mem (timers s') = Some (m\<lparr>uJiffies := now + 1\<rparr>) \<and> I (members w') s' \<and>
    matches cb (members w') (tnodes (timers s')) \<and>
    locks s' = locks s \<and> current_task s' = current_task s"
  using assms
proof (induction k arbitrary: s w m)
  case 0
  have "unat (now + 1) = Suc (unat now)" using 0(6) by (simp add: unat_word_ariths(1))
  then have j: "uJiffies m = now + 1" using 0(5) by (simp add: word_eq_iff_unsigned [where ?'a = nat])
  then have "\<not> time_after_eq now (uJiffies m)"
    using 0(5) by (simp add: time_after_eq_le word_le_nat_alt)
  moreover have "manager_at (timers s) = Inr m" using wheel_okD(4) [OF 0(1)] 0(2) by auto
  ultimately have "run_loop client now s = Some (Inr s)" by (subst run_loop.simps) simp
  moreover have "m\<lparr>uJiffies := now + 1\<rparr> = m" using j by simp
  ultimately show ?case using 0 by (intro exI [of _ s] exI [of _ w]) simp
next
  case (Suc k)
  obtain s1 w1 where s1: "timer_turn client s = Inr s1" "wheel_ok (timers s1) w1"
      "(tnodes (timers s1), w1) = turn (uJiffies m) (tnodes (timers s), w)"
      "manager_mem (timers s1) = Some (m\<lparr>uJiffies := uJiffies m + 1\<rparr>)" "I (members w1) s1"
      "matches cb (members w1) (tnodes (timers s1))" "locks s1 = locks s" "current_task s1 = current_task s"
    using timer_turn_run [OF Suc.prems(1-4)] by blast
  have le: "uJiffies m \<le> now" using Suc.prems(5) by (simp add: word_le_nat_alt)
  have "unat (uJiffies m + 1) = Suc (unat (uJiffies m))"
    using Suc.prems(5,6) by (simp add: unat_word_ariths(1))
  then have "unat (uJiffies (m\<lparr>uJiffies := uJiffies m + 1\<rparr>)) + k = Suc (unat now)"
    using Suc.prems(5) by simp
  from Suc.IH [OF s1(2,4,6,5) this Suc.prems(6)] obtain s2 w2 where s2:
      "run_loop client now s1 = Some (Inr s2)" "wheel_ok (timers s2) w2"
      "(tnodes (timers s2), w2) = turns k (uJiffies m + 1) (tnodes (timers s1), w1)"
      "manager_mem (timers s2) = Some (m\<lparr>uJiffies := now + 1\<rparr>)" "I (members w2) s2"
      "matches cb (members w2) (tnodes (timers s2))" "locks s2 = locks s1"
      "current_task s2 = current_task s1"
    by auto
  have "manager_at (timers s) = Inr m" using wheel_okD(4) [OF Suc.prems(1)] Suc.prems(2) by auto
  then have "run_loop client now s = run_loop client now s1"
    using le s1(1) by (subst run_loop.simps) (simp add: time_after_eq_le)
  then show ?case using s1(3,7,8) s2 by (intro exI [of _ s2] exI [of _ w2]) simp
qed

end

text \<open>When the clock is behind the wheel nothing runs.\<close>

lemma run_loop_behind:
  assumes "wheel_ok (timers s) w" and "manager_mem (timers s) = Some m" and "now < uJiffies m"
  shows "run_loop client now s = Some (Inr s)"
proof -
  have "manager_at (timers s) = Inr m" using wheel_okD(4) [OF assms(1)] assms(2) by auto
  moreover have "\<not> uJiffies m \<le> now" using assms(3) by simp
  ultimately show ?thesis by (subst run_loop.simps) (simp add: time_after_eq_le)
qed

text \<open>A release that wakes nobody changes the lock and the mask only.\<close>

lemma release_quiet:
  assumes ok: "sched_ok s q" and l: "locks s k = Some (held_lock c 1)"
    and c: "current_task s = Some c" and w: "q (Waiters k) = []"
  shows "lock_release k s = Inr (s\<lparr>locks := (locks s)(k \<mapsto> free_lock), blocked := False\<rparr>)"
proof -
  let ?s = "s\<lparr>locks := (locks s)(k \<mapsto> taking_lock)\<rparr>"
  have "sched_ok ?s q" using ok l by (subst sched_ok_frame [of _ s]) (auto simp: insert_absorb)
  from sema_up_wake_none [OF this _ _ w, of taking_lock]
  have "sema_up k ?s = Inr (s\<lparr>locks := (locks s)(k \<mapsto> free_lock), blocked := False\<rparr>)"
    by (simp add: sema_up_def sema_up_raise_run sema_up_done_run)
  then show ?thesis by (simp add: release_last_drop [OF l c] lock_drop_run [OF l])
qed

context timer_calls
begin

lemma run_timer_run:
  assumes ok: "wheel_ok (timers s) w" and m: "manager_mem (timers s) = Some m"
    and mt: "matches cb (members w) (tnodes (timers s))" and inv: "I (members w) s"
    and k: "unat (uJiffies m) + k = Suc (unat (get_jiffies clock))" "Suc (unat (get_jiffies clock)) < 2 ^ 32"
    and l: "locks s TimerLock = Some free_lock" and c: "current_task s = Some c"
  shows "\<exists>s' w'. run_timer client clock s = Done () s' \<and> wheel_ok (timers s') w' \<and>
    (tnodes (timers s'), w') = turns k (uJiffies m) (tnodes (timers s), w) \<and>
    manager_mem (timers s') = Some (m\<lparr>uJiffies := get_jiffies clock + 1\<rparr>) \<and> I (members w') s' \<and>
    matches cb (members w') (tnodes (timers s')) \<and>
    locks s' = locks s \<and> current_task s' = Some c \<and> \<not> blocked s'"
proof -
  let ?s = "s\<lparr>locks := (locks s)(TimerLock \<mapsto> held_lock c 1), blocked := False\<rparr>"
  have "I (members w) ?s" by (rule frame [OF inv]) (use l in \<open>simp_all add: insert_absorb domI same_ids_def\<close>)
  then obtain u w' where u: "run_loop client (get_jiffies clock) ?s = Some (Inr u)" "wheel_ok (timers u) w'"
      "(tnodes (timers u), w') = turns k (uJiffies m) (tnodes (timers s), w)"
      "manager_mem (timers u) = Some (m\<lparr>uJiffies := get_jiffies clock + 1\<rparr>)" "I (members w') u"
      "matches cb (members w') (tnodes (timers u))" "locks u = locks ?s" "current_task u = Some c"
    using run_loop_run [of ?s w m k "get_jiffies clock"] ok m mt k c by auto
  obtain q where q: "sched_ok u q" "q (Waiters TimerLock) = []" using quiet_lock [OF u(5)] by blast
  have lu: "locks u TimerLock = Some (held_lock c 1)" using u(7) by simp
  let ?u = "u\<lparr>locks := (locks u)(TimerLock \<mapsto> free_lock), blocked := False\<rparr>"
  have rel: "lock_release TimerLock u = Inr ?u" by (rule release_quiet [OF q(1) lu u(8) q(2)])
  have locks: "(locks u)(TimerLock \<mapsto> free_lock) = locks s" using u(7) l by (auto simp: fun_eq_iff)
  have t: "timer_manager (timers s)" using ok by (simp add: wheel_ok_def)
  have "run_timer client clock s = Done () ?u"
    using t acquire_free_lock(1) [OF l c] u(1) rel by (simp add: run_timer_def returns_def Let_def)
  moreover have "I (members w') ?u"
    by (rule frame [OF u(5)]) (use lu in \<open>simp_all add: insert_absorb domI same_ids_def\<close>)
  ultimately show ?thesis
    using u(2-4,6,8) locks by (intro exI [of _ ?u] exI [of _ w']) simp
qed

text \<open>At the largest time the loop has no end: the time of the wheel wraps, and is never past it.\<close>

lemma run_loop_stalls:
  assumes "wheel_ok (timers s) w" and "manager_mem (timers s) = Some m"
    and "matches cb (members w) (tnodes (timers s))" and "I (members w) s"
  shows "run_loop client (- 1) s = None"
proof -
  define J where "J s \<longleftrightarrow> (\<exists>w m. wheel_ok (timers s) w \<and> manager_mem (timers s) = Some m \<and>
      matches cb (members w) (tnodes (timers s)) \<and> I (members w) s)" for s
  have "c = client \<longrightarrow> now = - 1 \<longrightarrow> \<not> J s" if "run_loop c now s = Some r" for c now s r
  proof (rule run_loop.raw_induct [where P = "\<lambda>c now s r. c = client \<longrightarrow> now = - 1 \<longrightarrow> \<not> J s", OF _ that])
    fix f :: "clients \<Rightarrow> 32 word \<Rightarrow> sys \<Rightarrow> sys result option" and c now s r
    assume 1: "\<And>c now s r. f c now s = Some r \<Longrightarrow> c = client \<longrightarrow> now = - 1 \<longrightarrow> \<not> J s"
      "(case manager_at (timers s) of Inl e \<Rightarrow> Some (Inl e)
        | Inr m \<Rightarrow> if time_after_eq now (uJiffies m)
            then case timer_turn c s of Inl e \<Rightarrow> Some (Inl e) | Inr s \<Rightarrow> f c now s
            else Some (Inr s)) = Some r"
    show "c = client \<longrightarrow> now = - 1 \<longrightarrow> \<not> J s"
    proof (intro impI notI)
      assume a: "c = client" "now = - 1" "J s"
      obtain w m where j: "wheel_ok (timers s) w" "manager_mem (timers s) = Some m"
          "matches cb (members w) (tnodes (timers s))" "I (members w) s"
        using a(3) by (auto simp: J_def)
      obtain s' where s': "timer_turn client s = Inr s'" "J s'"
        using timer_turn_run [OF j] unfolding J_def by blast
      have "manager_at (timers s) = Inr m" using wheel_okD(4) [OF j(1)] j(2) by auto
      then have "f client (- 1) s' = Some r"
        using 1(2) a(1,2) s'(1) by (simp add: time_after_eq_le)
      then show False using 1(1) s'(2) by blast
    qed
  qed
  moreover have "J s" using assms unfolding J_def by blast
  ultimately show ?thesis by (cases "run_loop client (- 1) s") auto
qed

lemma run_timer_stalls:
  assumes ok: "wheel_ok (timers s) w" and m: "manager_mem (timers s) = Some m"
    and mt: "matches cb (members w) (tnodes (timers s))" and inv: "I (members w) s"
    and now: "get_jiffies clock = - 1"
    and l: "locks s TimerLock = Some free_lock" and c: "current_task s = Some c"
  shows "run_timer client clock s = Fail Diverges"
proof -
  let ?s = "s\<lparr>locks := (locks s)(TimerLock \<mapsto> held_lock c 1), blocked := False\<rparr>"
  have "I (members w) ?s" by (rule frame [OF inv]) (use l in \<open>simp_all add: insert_absorb domI same_ids_def\<close>)
  then have "run_loop client (- 1) ?s = None" using run_loop_stalls [of ?s w m] ok m mt by simp
  moreover have "timer_manager (timers s)" using ok by (simp add: wheel_ok_def)
  ultimately show ?thesis
    using acquire_free_lock(1) [OF l c] now by (simp add: run_timer_def returns_def Let_def)
qed

end

end
