(* ===== verification/Firing.thy ===== *)
theory Firing
  imports Timer
begin

text \<open>
  When a timer runs: how the place of one node moves through the turns of the wheel, whatever
  the other nodes do.
\<close>

section \<open>Nodes are in one place\<close>

definition apart :: "(timer_ref \<Rightarrow> nat list) \<Rightarrow> bool" where
  "apart w \<longleftrightarrow> (\<forall>a\<in>slots. distinct (w a) \<and> (\<forall>b\<in>slots. a \<noteq> b \<longrightarrow> set (w a) \<inter> set (w b) = {}))"

lemma wheel_ok_apart: "wheel_ok ts w \<Longrightarrow> apart w"
  unfolding apart_def using wheel_distinct wheel_apart by (metis disjoint_iff)

lemma apart_unique:
  "apart w \<Longrightarrow> a \<in> slots \<Longrightarrow> b \<in> slots \<Longrightarrow> n \<in> set (w a) \<Longrightarrow> n \<in> set (w b) \<Longrightarrow> a = b"
  unfolding apart_def by blast

lemma apart_sub:
  assumes "apart w" and "\<And>a. a \<in> slots \<Longrightarrow> distinct (w' a) \<and> set (w' a) \<subseteq> set (w a)"
  shows "apart w'"
  using assms unfolding apart_def by blast

lemma apart_take: "apart w \<Longrightarrow> apart (w(a := []))"
  by (rule apart_sub) (auto simp: apart_def)

lemma members_take_apart:
  assumes "apart w" and "a \<in> slots"
  shows "members (w(a := [])) = members w - set (w a)"
proof -
  have "(\<Union>b\<in>slots - {a}. set (w b)) \<inter> set (w a) = {}"
    using apart_unique [OF assms(1) _ assms(2)] by blast
  moreover have "members w = (\<Union>b\<in>slots - {a}. set (w b)) \<union> set (w a)"
    using members_upd [OF assms(2), of w "w a"] by simp
  ultimately show ?thesis unfolding members_upd [OF assms(2)] by (simp add: Un_Diff Diff_triv)
qed

lemma apart_put:
  assumes "apart w" and "n \<notin> members w"
  shows "apart (put ex j n w)"
proof -
  have "n \<notin> set (w a)" if "a \<in> slots" for a using slot_members [OF that, of w] assms(2) by blast
  then show ?thesis
    using assms(1) by (auto simp: apart_def put_def Let_def)
qed

lemma apart_puts:
  "apart w \<Longrightarrow> distinct ns \<Longrightarrow> set ns \<inter> members w = {} \<Longrightarrow> apart (fold (put ex j) ns w)"
  by (induction ns arbitrary: w) (auto simp: apart_put members_put)

lemma apart_cascade:
  assumes "apart w" and "a \<in> slots"
  shows "apart (cascade ex j a w)"
  unfolding cascade_def
  by (rule apart_puts [OF apart_take [OF assms(1)]])
    (use assms members_take_apart [OF assms] in \<open>auto simp: apart_def\<close>)

lemma apart_cascades: "apart w \<Longrightarrow> apart (cascades ex j w)"
  by (simp add: cascades_def Let_def apart_cascade)

lemma apart_expire1:
  assumes "apart w" and "n \<notin> members w" and "(nd', w') = expire1 j n (nd, w)"
  shows "apart w'" "members w' \<subseteq> insert n (members w)" "\<And>k. k \<noteq> n \<Longrightarrow> nd' k = nd k"
    "\<And>a. set (w a) \<subseteq> set (w' a)"
proof -
  have "w' = w \<or> (\<exists>e. w' = put (\<lambda>_. e) j n w)" and k: "\<And>k. k \<noteq> n \<Longrightarrow> nd' k = nd k"
    using assms(3) by (auto simp: expire1_def put_def Let_def split: option.splits if_splits)
  moreover have "set (w a) \<subseteq> set (put (\<lambda>_. e) j n w a)" for a e by (auto simp: put_def Let_def)
  ultimately show "apart w'" "members w' \<subseteq> insert n (members w)" "\<And>a. set (w a) \<subseteq> set (w' a)"
    using assms(1,2) apart_put by (auto simp: members_put)
  show "\<And>k. k \<noteq> n \<Longrightarrow> nd' k = nd k" by (rule k)
qed

lemma fold_expire1:
  assumes "apart w" and "distinct ns" and "set ns \<inter> members w = {}"
    and "(nd', w') = fold (expire1 j) ns (nd, w)"
  shows "apart w' \<and> members w' \<subseteq> set ns \<union> members w \<and> (\<forall>k. k \<notin> set ns \<longrightarrow> nd' k = nd k) \<and>
    (\<forall>a. set (w a) \<subseteq> set (w' a))"
  using assms
proof (induction ns arbitrary: nd w)
  case (Cons n ns)
  obtain nd1 w1 where e: "(nd1, w1) = expire1 j n (nd, w)" by (metis surj_pair)
  note E = apart_expire1 [OF Cons.prems(1) _ e]
  have n: "n \<notin> members w" "n \<notin> set ns" using Cons.prems(2,3) by auto
  have "set ns \<inter> members w1 = {}" using E(2) [OF n(1)] n(2) Cons.prems(3) by auto
  with Cons.IH [OF E(1) [OF n(1)], of nd1] Cons.prems(2,4) e
  have "apart w' \<and> members w' \<subseteq> set ns \<union> members w1 \<and> (\<forall>k. k \<notin> set ns \<longrightarrow> nd' k = nd1 k) \<and>
      (\<forall>a. set (w1 a) \<subseteq> set (w' a))"
    by auto
  then show ?case using E(2-4) [OF n(1)] by (auto; blast)
qed auto

section \<open>One turn\<close>

lemma turn_apart:
  assumes "apart w" and "(nd', w') = turn j (nd, w)"
  defines "v \<equiv> cascades (expiry_in nd) j w" and "a \<equiv> Slot 1 (unat j mod 256)"
  shows "apart w' \<and> members w' \<subseteq> members w \<and> (\<forall>k. k \<notin> set (v a) \<longrightarrow> nd' k = nd k) \<and>
    (\<forall>b. b \<noteq> a \<longrightarrow> set (v b) \<subseteq> set (w' b))"
proof -
  have a: "a \<in> slots" by (simp add: a_def)
  have v: "apart v" "members v = members w" using assms(1) by (simp_all add: v_def apart_cascades)
  have m: "members (v(a := [])) = members w - set (v a)" using members_take_apart [OF v(1) a] v(2) by simp
  have "(nd', w') = fold (expire1 j) (v a) (nd, v(a := []))"
    using assms(2) by (simp add: turn_def expired_def v_def a_def)
  from fold_expire1 [OF apart_take [OF v(1)] _ _ this] have
    "apart w' \<and> members w' \<subseteq> set (v a) \<union> members (v(a := [])) \<and>
     (\<forall>k. k \<notin> set (v a) \<longrightarrow> nd' k = nd k) \<and> (\<forall>b. set ((v(a := [])) b) \<subseteq> set (w' b))"
    using v(1) a m by (auto simp: apart_def)
  then show ?thesis using m v(2) slot_members [OF a, of v] by (auto split: if_splits)
qed

text \<open>A node stays in its slot, unless the slot is cascaded or expires.\<close>

lemma puts_keep: "set (w b) \<subseteq> set (fold (put ex j) ns w b)"
proof (induction ns arbitrary: w)
  case (Cons n ns)
  have "set (w b) \<subseteq> set (put ex j n w b)" by (auto simp: put_def Let_def)
  then show ?case using Cons [of "put ex j n w"] by auto
qed simp

lemma cascade_keep: "b \<noteq> a \<Longrightarrow> set (w b) \<subseteq> set (cascade ex j a w b)"
  using puts_keep [of "w(a := [])" b ex j "w a"] by (simp add: cascade_def)

text \<open>
  \<open>width l\<close>: how many milliseconds a slot of array \<open>l\<close> stands for. It is cascaded at the
  multiples of it.
\<close>

definition width :: "nat \<Rightarrow> nat" where
  "width l = 256 * 64 ^ (l - 2)"

lemma width_simps [simp]: "width 2 = 256" "width 3 = 16384" "width 4 = 1048576" "width 5 = 67108864"
  by (simp_all add: width_def)

lemma levels: "2 \<le> l \<Longrightarrow> l \<le> 5 \<Longrightarrow> l = 2 \<or> l = 3 \<or> l = 4 \<or> (l :: nat) = 5"
  by linarith

lemma index_of: "l \<le> 5 \<Longrightarrow> 2 \<le> l \<Longrightarrow> unat (INDEX (l - 2) j) = unat j div width l mod 64"
  by (drule (1) levels [rotated], elim disjE) (simp_all add: index_nat)

lemma index_eq_0: "INDEX n j = 0 \<longleftrightarrow> unat (INDEX n j) = 0"
  by (simp add: unat_eq_0)

lemma tvr_0: "j AND TVR_MASK = 0 \<longleftrightarrow> unat j mod 256 = 0"
  using and_tvr [of j] by (simp add: unat_eq_0 [symmetric])

lemma mod_64_0: "j mod (w * 64) = 0 \<longleftrightarrow> j mod w = 0 \<and> j div w mod 64 = (0 :: nat)"
  by (simp add: mod_mult2_eq) auto

text \<open>The arrays are cascaded up to the one whose multiple the time is not.\<close>

lemma cascades_width:
  "cascades ex j w =
     (if unat j mod width 2 \<noteq> 0 then w
      else let w = cascade ex j (Slot 2 (unat j div width 2 mod 64)) w in
        if unat j mod width 3 \<noteq> 0 then w
        else let w = cascade ex j (Slot 3 (unat j div width 3 mod 64)) w in
          if unat j mod width 4 \<noteq> 0 then w
          else let w = cascade ex j (Slot 4 (unat j div width 4 mod 64)) w in
            if unat j mod width 5 \<noteq> 0 then w
            else cascade ex j (Slot 5 (unat j div width 5 mod 64)) w)"
  using mod_64_0 [of "unat j" 256] mod_64_0 [of "unat j" 16384] mod_64_0 [of "unat j" 1048576]
  by (simp add: cascades_def Let_def tvr_0 index_eq_0 index_nat)

lemma width_dvd: "i < l \<Longrightarrow> 2 \<le> i \<Longrightarrow> 64 * width i dvd width l"
  unfolding width_def by (simp add: power_Suc [symmetric] le_imp_power_dvd del: power_Suc)

lemma cascades_keep:
  assumes "\<And>l. 2 \<le> l \<Longrightarrow> l \<le> 5 \<Longrightarrow> unat j mod width l = 0 \<Longrightarrow> b \<noteq> Slot l (unat j div width l mod 64)"
  shows "set (w b) \<subseteq> set (cascades ex j w b)"
proof -
  have k: "unat j mod width l = 0 \<Longrightarrow> 2 \<le> l \<Longrightarrow> l \<le> 5 \<Longrightarrow>
      set (v b) \<subseteq> set (cascade ex j (Slot l (unat j div width l mod 64)) v b)" for l v
    by (rule cascade_keep, rule assms)
  show ?thesis
    unfolding cascades_width Let_def using k [of 2] k [of 3] k [of 4] k [of 5]
    by (auto split: if_splits simp del: width_simps) (meson subsetD)+
qed

section \<open>The life of a timer\<close>

text \<open>
  \<open>waits n c a x\<close>: node \<open>n\<close>, with contents \<open>c\<close>, is in slot \<open>a\<close>. \<open>gone n x\<close>: it has been
  freed.
\<close>

definition waits :: "nat \<Rightarrow> timer_node \<Rightarrow> timer_ref \<Rightarrow> timer_abs \<Rightarrow> bool" where
  "waits n c a = (\<lambda>(nd, w). apart w \<and> a \<in> slots \<and> nd n = Some c \<and> n \<in> set (w a))"

definition gone :: "nat \<Rightarrow> timer_abs \<Rightarrow> bool" where
  "gone n = (\<lambda>(nd, w). apart w \<and> nd n = None \<and> n \<notin> members w)"

lemma turn_gone: "gone n x \<Longrightarrow> gone n (turn j x)"
proof -
  assume g: "gone n x"
  obtain nd w nd' w' where x: "x = (nd, w)" "turn j x = (nd', w')" by (metis surj_pair)
  have "apart w" "n \<notin> members w" "nd n = None" using g x(1) by (simp_all add: gone_def)
  moreover have "n \<notin> set (cascades (expiry_in nd) j w (Slot 1 (unat j mod 256)))"
    using slot_members [of "Slot 1 (unat j mod 256)" "cascades (expiry_in nd) j w"] \<open>n \<notin> members w\<close>
    by auto
  ultimately show ?thesis using turn_apart [of w nd' w' j nd] x by (auto simp: gone_def)
qed

lemma turns_gone: "gone n x \<Longrightarrow> gone n (turns k j x)"
  by (induction k arbitrary: j x) (simp_all add: turn_gone)

lemma turn_at:
  assumes "apart w" and "nd n = Some c" and "b \<in> slots" and "b \<noteq> Slot 1 (unat j mod 256)"
    and v: "n \<in> set (cascades (expiry_in nd) j w b)"
  shows "waits n c b (turn j (nd, w))"
proof -
  let ?v = "cascades (expiry_in nd) j w" and ?a = "Slot 1 (unat j mod 256)"
  obtain nd' w' where t: "turn j (nd, w) = (nd', w')" by fastforce
  have "n \<notin> set (?v ?a)"
    using apart_unique [OF apart_cascades [OF assms(1)] assms(3) _ v, of ?a] assms(4) by auto
  then show ?thesis using turn_apart [OF assms(1) t [symmetric]] assms(2-4) v t by (auto simp: waits_def)
qed

lemma turn_stays:
  assumes "waits n c a x" and "a \<noteq> Slot 1 (unat j mod 256)"
    and "\<And>l. 2 \<le> l \<Longrightarrow> l \<le> 5 \<Longrightarrow> unat j mod width l = 0 \<Longrightarrow> a \<noteq> Slot l (unat j div width l mod 64)"
  shows "waits n c a (turn j x)"
proof -
  obtain nd w where x: "x = (nd, w)" by fastforce
  have w: "apart w" "a \<in> slots" "nd n = Some c" "n \<in> set (w a)" using assms(1) by (simp_all add: waits_def x)
  have "n \<in> set (cascades (expiry_in nd) j w a)" using cascades_keep [OF assms(3)] w(4) by blast
  then show ?thesis
    unfolding x using turn_at [where nd = nd and n = n and c = c and b = a] w assms(2) by blast
qed

text \<open>
  \<open>fired n c j x\<close>: the timer has run in the turn of time \<open>j\<close>. It is gone, or it is at the place of
  its next expiry, one period from \<open>j\<close>.
\<close>

definition fired :: "nat \<Rightarrow> timer_node \<Rightarrow> 32 word \<Rightarrow> timer_abs \<Rightarrow> bool" where
  "fired n c j x \<longleftrightarrow>
     (if uPeriod c = 0 then gone n x
      else waits n (c\<lparr>uExpires := j + uPeriod c\<rparr>) (timer_slot (j + uPeriod c) j) x)"

lemma fold_expire1_fires:
  assumes "apart w" and "distinct ns" and "set ns \<inter> members w = {}" and "n \<in> set ns"
    and "nd n = Some c"
  shows "fired n c j (fold (expire1 j) ns (nd, w))"
  using assms
proof (induction ns arbitrary: nd w)
  case (Cons k ns)
  obtain nd1 w1 where e: "(nd1, w1) = expire1 j k (nd, w)" by (metis surj_pair)
  have k: "k \<notin> members w" "k \<notin> set ns" using Cons.prems(2,3) by auto
  note E = apart_expire1 [OF Cons.prems(1) k(1) e]
  have d: "distinct ns" "set ns \<inter> members w1 = {}" using E(2) k(2) Cons.prems(2,3) by auto
  obtain nd' w' where f: "(nd', w') = fold (expire1 j) ns (nd1, w1)" by (metis surj_pair)
  note F = fold_expire1 [OF E(1) d f]
  have "fired n c j (nd', w')"
  proof (cases "n = k")
    case True
    show ?thesis
    proof (cases "uPeriod c = 0")
      case True
      then have "nd1 = nd(n := None)" "w1 = w"
        using e expire1_once [of nd n c j w] Cons.prems(5) \<open>n = k\<close> by simp_all
      then show ?thesis using F \<open>n = k\<close> True k by (auto simp: fired_def gone_def)
    next
      case False
      let ?c = "c\<lparr>uExpires := j + uPeriod c\<rparr>" and ?a = "timer_slot (j + uPeriod c) j"
      have "nd1 n = Some ?c" "n \<in> set (w1 ?a)"
        using e Cons.prems(5) False \<open>n = k\<close> by (simp_all add: expire1_def Let_def)
      then show ?thesis using F k(2) False \<open>n = k\<close> by (auto simp: fired_def waits_def)
    qed
  next
    case False
    then have "n \<in> set ns" "nd1 n = Some c" using Cons.prems(4,5) E(3) [of n] by auto
    then show ?thesis using Cons.IH [OF E(1) d] f by simp
  qed
  then show ?case using e f by simp
qed simp

lemma turn_fires_at:
  assumes "apart w" and "nd n = Some c"
    and v: "n \<in> set (cascades (expiry_in nd) j w (Slot 1 (unat j mod 256)))"
  shows "fired n c j (turn j (nd, w))"
proof -
  let ?v = "cascades (expiry_in nd) j w" and ?a = "Slot 1 (unat j mod 256)"
  have a: "?a \<in> slots" by simp
  have av: "apart ?v" by (rule apart_cascades [OF assms(1)])
  have "distinct (?v ?a)" "set (?v ?a) \<inter> members (?v(?a := [])) = {}"
    using av a members_take_apart [OF av a] by (auto simp: apart_def)
  from fold_expire1_fires [where nd = nd and n = n and j = j, OF apart_take [OF av] this v assms(2)]
  show ?thesis by (simp add: turn_def expired_def)
qed

lemma turn_fires:
  assumes "waits n c (Slot 1 (unat j mod 256)) x"
  shows "fired n c j (turn j x)"
proof -
  obtain nd w where x: "x = (nd, w)" by fastforce
  have "set (w (Slot 1 (unat j mod 256))) \<subseteq> set (cascades (expiry_in nd) j w (Slot 1 (unat j mod 256)))"
    by (rule cascades_keep) auto
  then show ?thesis
    using assms turn_fires_at [of w nd n c j] by (auto simp: waits_def x)
qed

text \<open>In the first array a timer runs within 256 turns, at the first time its index comes up.\<close>

lemma suc_mod_256: "unat (j + 1 :: 32 word) mod 256 = Suc (unat j) mod 256"
proof (cases "Suc (unat j) < 2 ^ 32")
  case False
  then have "unat j = 2 ^ 32 - 1" using unsigned_less [of j, where 'a = nat] by simp
  then show ?thesis by (simp add: unat_word_ariths(1))
qed (simp add: unat_word_ariths(1))

lemma mod_256_other:
  fixes u r :: nat
  assumes "0 < r" and "r < 256"
  shows "u mod 256 \<noteq> (u + r) mod 256"
proof -
  define v where "v = u mod 256"
  have v: "v < 256" by (simp add: v_def)
  have "(u + r) mod 256 = (v + r) mod 256" by (simp only: v_def mod_add_left_eq)
  also have "\<dots> \<noteq> v"
  proof (cases "v + r < 256")
    case True
    then have "(v + r) mod 256 = v + r" by (rule mod_less)
    then show ?thesis using assms(1) by linarith
  next
    case False
    have "v + r - 256 < 256" using v assms(2) by linarith
    then have "(v + r) mod 256 = v + r - 256"
      using le_mod_geq [of 256 "v + r"] False mod_less [of "v + r - 256" 256] by linarith
    then show ?thesis using False assms(2) by linarith
  qed
  finally show ?thesis by (simp add: v_def)
qed

lemma turn_first:
  assumes "waits n c (Slot 1 ((unat j + r) mod 256)) x" and "r < 256"
  shows "if r = 0 then fired n c j (turn j x)
    else waits n c (Slot 1 ((unat (j + 1) + (r - 1)) mod 256)) (turn j x)"
proof (cases r)
  case 0
  then show ?thesis using turn_fires assms(1) by simp
next
  case (Suc r')
  have "(unat (j + 1) + r') mod 256 = (unat (j + 1) mod 256 + r') mod 256" by (simp only: mod_add_left_eq)
  also have "\<dots> = (Suc (unat j) + r') mod 256" by (simp only: suc_mod_256 mod_add_left_eq)
  finally have m: "(unat (j + 1) + (r - 1)) mod 256 = (unat j + r) mod 256" using Suc by simp
  have "unat j mod 256 \<noteq> (unat j + r) mod 256" using mod_256_other [of r "unat j"] Suc \<open>r < 256\<close> by auto
  then have "waits n c (Slot 1 ((unat j + r) mod 256)) (turn j x)"
    by (intro turn_stays [OF assms(1)]) auto
  then show ?thesis using Suc unfolding m by simp
qed

text \<open>From a higher array it is moved down when the time is a multiple of the width.\<close>

lemma puts_put: "n \<in> set ns \<Longrightarrow> n \<in> set (fold (put ex j) ns w (timer_slot (ex n) j))"
proof (induction ns arbitrary: w)
  case (Cons k ns)
  show ?case
  proof (cases "n \<in> set ns")
    case False
    then have "n \<in> set (put ex j k w (timer_slot (ex n) j))" using Cons.prems by (simp add: put_def Let_def)
    then show ?thesis using puts_keep [of "put ex j k w" "timer_slot (ex n) j" ex j ns] by auto
  qed (simp add: Cons.IH)
qed simp

lemma cascade_other:
  "n \<in> set (v (Slot b i)) \<Longrightarrow> l \<noteq> b \<Longrightarrow> n \<in> set (cascade ex j (Slot l q) v (Slot b i))"
  using cascade_keep [of "Slot b i" "Slot l q" v ex j] by auto

lemma cascades_move:
  assumes l: "2 \<le> l" "l \<le> 5" and j: "unat j mod width l = 0"
    and n: "n \<in> set (w (Slot l (unat j div width l mod 64)))"
    and t: "timer_slot (ex n) j = Slot b i" "b \<le> l"
  shows "n \<in> set (cascades ex j w (Slot b i))"
proof -
  have m: "n \<in> set (cascade ex j a v (Slot b i))" if "n \<in> set (v a)" for a v
    using puts_put [OF that, of ex j] t(1) by (simp add: cascade_def)
  have j0: "unat j mod width k = 0" if "2 \<le> k" "k \<le> l" for k
  proof (cases "k = l")
    case False
    then have "width k dvd width l" using that width_dvd [of k l] by (auto intro: dvd_mult_right)
    then show ?thesis using j mod_mod_cancel [of "width k" "width l" "unat j"] by simp
  qed (use j in simp)
  have b: "k \<noteq> b" if "l < k" for k using that t(2) by simp
  note simps = cascades_width Let_def m cascade_other
  consider "l = 2" | "l = 3" | "l = 4" | "l = 5" using levels [OF l] by blast
  then show ?thesis
  proof cases
    case 1
    have "3 \<noteq> b" "4 \<noteq> b" "5 \<noteq> b" using b [of 3] b [of 4] b [of 5] 1 by simp_all
    then show ?thesis using n j unfolding 1
      by (cases "unat j mod width 3 = 0"; cases "unat j mod width 4 = 0"; cases "unat j mod width 5 = 0";
          simp add: simps del: width_simps)
  next
    case 2
    have "4 \<noteq> b" "5 \<noteq> b" "unat j mod width 2 = 0" using b [of 4] b [of 5] j0 [of 2] 2 by (simp_all del: width_simps)
    then show ?thesis using n j unfolding 2
      by (cases "unat j mod width 4 = 0"; cases "unat j mod width 5 = 0"; simp add: simps del: width_simps)
  next
    case 3
    have "5 \<noteq> b" "unat j mod width 2 = 0" "unat j mod width 3 = 0"
      using b [of 5] j0 [of 2] j0 [of 3] 3 by (simp_all del: width_simps)
    then show ?thesis using n j unfolding 3
      by (cases "unat j mod width 5 = 0"; simp add: simps del: width_simps)
  next
    case 4
    have "unat j mod width 2 = 0" "unat j mod width 3 = 0" "unat j mod width 4 = 0"
      using j0 [of 2] j0 [of 3] j0 [of 4] 4 by (simp_all del: width_simps)
    then show ?thesis using n j unfolding 4 by (simp add: simps del: width_simps)
  qed
qed

lemma width_ge: "256 \<le> width l"
  by (simp add: width_def)

text \<open>The array for a distance, and the slot in it.\<close>

definition level :: "nat \<Rightarrow> nat" where
  "level d = (if d < 163840 then 2 else if d < 10485760 then 3 else if d < 671088640 then 4 else 5)"

lemma level_bounds [simp]: "2 \<le> level d" "level d \<le> 5" "level d \<noteq> Suc 0"
  by (simp_all add: level_def)

lemma slot_place:
  assumes "unat j + d = unat e"
  shows "timer_slot e j = (if d < 2560 then Slot 1 (unat e mod 256)
    else Slot (level d) (unat e div width (level d) mod 64))"
proof -
  have "unat (e - j) = d" using assms by (simp add: unat_sub_if')
  then show ?thesis by (auto simp: timer_slot_nat Let_def unat_div_distrib level_def)
qed

lemma width_level: "2560 \<le> d \<Longrightarrow> 10 * width (level d) \<le> d"
  by (simp add: level_def)

lemma level_below: "2 \<le> l \<Longrightarrow> l \<le> 5 \<Longrightarrow> d < 640 * width l \<Longrightarrow> level d \<le> l"
  by (drule (1) levels, elim disjE) (simp_all add: level_def)

lemma level_again:
  "2 \<le> l \<Longrightarrow> l \<le> 5 \<Longrightarrow> 64 * width l \<le> d \<Longrightarrow> d < 640 * width l \<Longrightarrow> d < 2 ^ 32 \<Longrightarrow> level d = l"
  by (drule (1) levels, elim disjE) (simp_all add: level_def)

lemma level_reach: "d < 2 ^ 32 \<Longrightarrow> d < 640 * width (level d)"
  by (simp add: level_def)

lemma div_far:
  fixes e j v :: nat
  assumes "j mod v = 0" and "j < e - e mod v" and a: "e div v mod 64 = j div v mod 64"
  shows "j + 64 * v \<le> e"
proof -
  have j: "j = v * (j div v)" using assms(1) mult_div_mod_eq [of v j] by linarith
  have e: "e - e mod v = v * (e div v)" by (simp add: minus_mod_eq_mult_div)
  have "v * (j div v) < v * (e div v)" using assms(2) e j by linarith
  then have "j div v < e div v" by simp
  then have "64 \<le> e div v - j div v"
    using a mod_eq_dvd_iff_nat [of "j div v" "e div v" 64] by (auto dest!: dvd_imp_le)
  then have "j div v + 64 \<le> e div v" by linarith
  then have "v * (j div v + 64) \<le> v * (e div v)" by (rule mult_le_mono2)
  moreover have "v * (j div v + 64) = v * (j div v) + 64 * v" by (simp add: distrib_left)
  moreover have "v * (e div v) \<le> e" by (rule times_div_less_eq_dividend)
  ultimately show ?thesis using j by linarith
qed

text \<open>
  \<open>early e d\<close>: how many milliseconds before its expiry \<open>e\<close> a timer runs that is put into the
  wheel \<open>d\<close> milliseconds before it. Only the distance when it is put into the first array counts.
\<close>

function early :: "nat \<Rightarrow> nat \<Rightarrow> nat" where
  "early e d = (if d < 2560 then d - d mod 256 else early e (e mod width (level d)))"
  by auto
termination
proof (relation "measure snd")
  fix e d :: nat
  assume "\<not> d < 2560"
  then have "10 * width (level d) \<le> d" using width_level by simp
  moreover have "e mod width (level d) < width (level d)" by (simp add: width_def)
  ultimately show "((e, e mod width (level d)), e, d) \<in> measure snd" by simp
qed simp

declare early.simps [simp del]

lemma early_first: "d < 2560 \<Longrightarrow> early e d = d - d mod 256"
  by (simp add: early.simps)

lemma early_higher: "2560 \<le> d \<Longrightarrow> early e d = early e (e mod width (level d))"
  by (subst early.simps) simp

lemma early_second: "2560 \<le> d \<Longrightarrow> d < 163840 \<Longrightarrow> early e d = 0"
  by (simp add: early_higher early_first level_def)

lemma early_le: "early e d \<le> 2304 \<and> early e d \<le> d"
proof (induction e d rule: early.induct)
  case (1 e d)
  show ?case
  proof (cases "d < 2560")
    case True
    have "d - d mod 256 = 256 * (d div 256)" by (simp add: minus_mod_eq_mult_div)
    moreover have "d div 256 \<le> 9" using True by linarith
    ultimately show ?thesis using True by (simp add: early_first)
  next
    case False
    have "e mod width (level d) \<le> width (level d)" by (simp add: width_def)
    then show ?thesis
      using 1 [OF False] width_level [of d] False by (subst (1 2) early.simps) auto
  qed
qed

text \<open>
  \<open>pending n c r j x\<close>: the timer will run in the turn after the next \<open>r\<close>, from its place in
  the first array, or in a higher one with the right expiry.
\<close>

definition pending :: "nat \<Rightarrow> timer_node \<Rightarrow> nat \<Rightarrow> 32 word \<Rightarrow> timer_abs \<Rightarrow> bool" where
  "pending n c r j x \<longleftrightarrow>
     r < 256 \<and> waits n c (Slot 1 ((unat j + r) mod 256)) x \<or>
     (\<exists>l d. 2 \<le> l \<and> l \<le> 5 \<and> d < 640 * width l \<and>
       waits n c (Slot l (unat (uExpires c) div width l mod 64)) x \<and>
       unat j + d = unat (uExpires c) \<and> unat j \<le> unat (uExpires c) - unat (uExpires c) mod width l \<and>
       r = d - early (unat (uExpires c)) (unat (uExpires c) mod width l))"

lemma pending_higher:
  assumes "waits n c (Slot l (unat (uExpires c) div width l mod 64)) x" and "2 \<le> l" "l \<le> 5"
    and "d < 640 * width l" and "unat j + d = unat (uExpires c)"
    and "unat j \<le> unat (uExpires c) - unat (uExpires c) mod width l"
    and "r = d - early (unat (uExpires c)) (unat (uExpires c) mod width l)"
  shows "pending n c r j x"
  unfolding pending_def using assms by blast

lemma expires_less: "unat (uExpires c) < 2 ^ 32"
  using unsigned_less [of "uExpires c", where 'a = nat] by simp

lemma unat_next: "unat j < unat (e :: 32 word) \<Longrightarrow> unat (j + 1 :: 32 word) = Suc (unat j)"
  using unsigned_less [of e, where 'a = nat] by (simp add: unat_word_ariths(1))

text \<open>Before its millisecond the timer stays in its slot, or is put into the same slot again.\<close>

lemma turn_higher:
  assumes w: "waits n c (Slot l (unat (uExpires c) div width l mod 64)) x" and l: "2 \<le> l" "l \<le> 5"
    and d: "d < 640 * width l" "unat j + d = unat (uExpires c)"
    and lt: "unat j < unat (uExpires c) - unat (uExpires c) mod width l"
  shows "waits n c (Slot l (unat (uExpires c) div width l mod 64)) (turn j x)"
proof (cases "unat j mod width l = 0 \<and> unat j div width l mod 64 = unat (uExpires c) div width l mod 64")
  case False
  then show ?thesis by (intro turn_stays [OF w]) (use l in auto)
next
  case True
  let ?e = "unat (uExpires c)" and ?a = "Slot l (unat (uExpires c) div width l mod 64)"
  obtain nd v where x: "x = (nd, v)" by fastforce
  have v: "apart v" "nd n = Some c" "n \<in> set (v ?a)" "?a \<in> slots" using w by (simp_all add: waits_def x)
  have "unat j + 64 * width l \<le> ?e" by (rule div_far [OF _ lt]) (use True in simp_all)
  then have far: "64 * width l \<le> d" using d(2) by linarith
  moreover have "d < 2 ^ 32" using d(2) expires_less [of c] by linarith
  ultimately have "level d = l" using level_again [OF l] d(1) by blast
  moreover have "\<not> d < 2560" using far width_ge [of l] by linarith
  ultimately have "timer_slot (uExpires c) j = ?a" using slot_place [OF d(2)] by simp
  then have "n \<in> set (cascades (expiry_in nd) j v ?a)"
    by (intro cascades_move [OF l]) (use True v(2,3) in \<open>simp_all add: expiry_in_def\<close>)
  then show ?thesis
    using turn_at [where w = v and nd = nd and n = n and c = c and j = j and b = ?a] v l by (simp add: x)
qed

text \<open>In its millisecond it is put into a lower array, and runs at once from slot 0 of the first.\<close>

lemma turn_lower:
  assumes w: "waits n c (Slot l (unat (uExpires c) div width l mod 64)) x" and l: "2 \<le> l" "l \<le> 5"
    and d: "unat j + d = unat (uExpires c)" "d = unat (uExpires c) mod width l"
  shows "if d - early (unat (uExpires c)) d = 0 then fired n c j (turn j x)
    else pending n c (d - early (unat (uExpires c)) d - 1) (j + 1) (turn j x)"
proof -
  let ?e = "unat (uExpires c)"
  let ?b = "timer_slot (uExpires c) j"
  obtain nd v where x: "x = (nd, v)" by fastforce
  have wl: "0 < width l" "256 dvd width l" by (simp_all add: width_def)
  have v: "apart v" "nd n = Some c" "n \<in> set (v (Slot l (?e div width l mod 64)))"
    using w by (simp_all add: waits_def x)
  have je: "unat j = width l * (?e div width l)" using d by (simp add: minus_mod_eq_mult_div [symmetric])
  then have j: "unat j mod width l = 0" "unat j div width l = ?e div width l" using wl(1) by simp_all
  have j256: "unat j mod 256 = 0" using j(1) wl(2) by (auto simp: mod_eq_0_iff_dvd dest: dvd_trans)
  have dl: "d < width l" using d(2) wl(1) by simp
  have "level d \<le> l" using level_below [OF l] dl by simp
  then obtain b i where b: "?b = Slot b i" "b \<le> l"
    using slot_place [OF d(1)] l by (cases "d < 2560") auto
  have m: "n \<in> set (cascades (expiry_in nd) j v ?b)"
    unfolding b(1)
    by (rule cascades_move [OF l j(1)]) (use v(2,3) j(2) b in \<open>simp_all add: expiry_in_def\<close>)
  note at = turn_at [where w = v and nd = nd and n = n and c = c and j = j and b = ?b, OF v(1,2)]
  show ?thesis
  proof (cases "d < 2560")
    case True
    have r: "d - early ?e d = d mod 256" using True by (simp add: early_first)
    have b1: "?b = Slot 1 (d mod 256)"
      using slot_place [OF d(1)] True d(2) wl(2) by (simp add: mod_mod_cancel)
    show ?thesis
    proof (cases "d mod 256 = 0")
      case True
      then have "fired n c j (turn j x)"
        using turn_fires_at [where w = v and nd = nd and n = n and c = c and j = j] v(1,2) m b1 j256
        by (simp add: x)
      then show ?thesis using r True by simp
    next
      case False
      then have "0 < d" by (metis gr0I mod_0)
      then have "unat (j + 1) = Suc (unat j)" using unat_next [of j "uExpires c"] d(1) by simp
      moreover have "waits n c ?b (turn j x)" using at m False b1 j256 by (simp add: x)
      moreover have "(unat j + d mod 256) mod 256 = d mod 256" using j256 by (simp add: mod_add_eq [symmetric])
      ultimately show ?thesis using r False b1 by (simp add: pending_def less_imp_diff_less)
    qed
  next
    case False
    let ?k = "level d"
    have b2: "?b = Slot ?k (?e div width ?k mod 64)" using slot_place [OF d(1)] False by simp
    have w': "waits n c (Slot ?k (?e div width ?k mod 64)) (turn j x)" using at m b2 by (simp add: x)
    have e: "early ?e d = early ?e (?e mod width ?k)" using False by (intro early_higher) simp
    have lt: "early ?e d < d" using early_le [of ?e d] False by linarith
    have "?e mod width ?k < width ?k" by (simp add: width_def)
    then have "?e mod width ?k < d" using width_level [of d] False by linarith
    moreover have "unat (j + 1) = Suc (unat j)" using unat_next [of j "uExpires c"] d(1) False by simp
    moreover have "d < 2 ^ 32" using d(1) expires_less [of c] by linarith
    then have "d - 1 < 640 * width ?k" using level_reach [of d] by linarith
    ultimately have "pending n c (d - 1 - early ?e d) (j + 1) (turn j x)"
      by (intro pending_higher [OF w', where d = "d - 1"])
        (use d(1) lt e level_bounds(1,2) [of d] in linarith)+
    then show ?thesis using lt by (simp add: diff_right_commute [of d 1])
  qed
qed

lemma pending_member:
  assumes "pending n c r j (nd, w)" shows "nd n = Some c" "n \<in> members w"
proof -
  obtain a where "waits n c a (nd, w)" using assms by (auto simp: pending_def)
  then show "nd n = Some c" "n \<in> members w" using slot_members [of a w] by (auto simp: waits_def)
qed

lemma pending_turn:
  assumes "pending n c r j x"
  shows "if r = 0 then fired n c j (turn j x) else pending n c (r - 1) (j + 1) (turn j x)"
  using assms unfolding pending_def [of n c r]
proof
  assume "r < 256 \<and> waits n c (Slot 1 ((unat j + r) mod 256)) x"
  then show ?thesis
    using turn_first [of n c j r x] by (auto simp: pending_def less_imp_diff_less)
next
  let ?e = "unat (uExpires c)"
  assume "\<exists>l d. 2 \<le> l \<and> l \<le> 5 \<and> d < 640 * width l \<and>
    waits n c (Slot l (?e div width l mod 64)) x \<and> unat j + d = ?e \<and>
    unat j \<le> ?e - ?e mod width l \<and> r = d - early ?e (?e mod width l)"
  then obtain l d where l: "2 \<le> l" "l \<le> 5" and d: "d < 640 * width l" "unat j + d = ?e"
      and w: "waits n c (Slot l (?e div width l mod 64)) x"
      and j: "unat j \<le> ?e - ?e mod width l" and r: "r = d - early ?e (?e mod width l)" by blast
  have el: "early ?e (?e mod width l) \<le> ?e mod width l" using early_le by blast
  show ?thesis
  proof (cases "unat j = ?e - ?e mod width l")
    case True
    then have dd: "d = ?e mod width l" using d(2) mod_less_eq_dividend [of ?e "width l"] by linarith
    have rd: "r = d - early ?e d" by (simp only: r dd [symmetric])
    show ?thesis using turn_lower [OF w l d(2) dd] unfolding rd .
  next
    case False
    then have lt: "unat j < ?e - ?e mod width l" using j by linarith
    have "unat (j + 1) = Suc (unat j)" using unat_next [of j "uExpires c"] lt by linarith
    then have "pending n c (r - 1) (j + 1) (turn j x)"
      by (intro pending_higher [OF turn_higher [OF w l d lt] l, where d = "d - 1"])
        (use d lt r el in linarith)+
    then show ?thesis using lt r el d(2) by auto
  qed
qed

lemma pending_turns:
  assumes "pending n c r j x" and "uPeriod c = 0"
  shows "if r < k then gone n (turns k j x) else pending n c (r - k) (j + of_nat k) (turns k j x)"
  using assms
proof (induction k arbitrary: r j x)
  case (Suc k)
  show ?case
  proof (cases "r = 0")
    case True
    then show ?thesis using pending_turn [OF Suc.prems(1)] Suc.prems(2) by (simp add: turns_gone fired_def)
  next
    case False
    then have "pending n c (r - 1) (j + 1) (turn j x)" using pending_turn [OF Suc.prems(1)] by simp
    from Suc.IH [OF this Suc.prems(2)] show ?thesis
      using False by (cases "r - 1 < k") (auto simp: add.assoc)
  qed
qed simp

text \<open>The time from the creation of a timer for \<open>d\<close> milliseconds, with expiry \<open>e\<close>, to its run.\<close>

definition fires_after :: "nat \<Rightarrow> nat \<Rightarrow> nat" where
  "fires_after e d = d - early e d"

lemma placed_pending:
  assumes w: "waits n c (timer_slot (uExpires c) j) x" and e: "unat j + d = unat (uExpires c)"
  shows "pending n c (fires_after (unat (uExpires c)) d) j x"
proof (cases "d < 2560")
  case True
  have "unat (uExpires c) mod 256 = (unat j + d mod 256) mod 256"
    unfolding e [symmetric] by (simp only: mod_add_right_eq)
  then show ?thesis
    using w slot_place [OF e] True by (simp add: pending_def fires_after_def early_first)
next
  case False
  let ?e = "unat (uExpires c)" and ?k = "level d"
  have "?e mod width ?k < width ?k" by (simp add: width_def)
  then have "?e mod width ?k \<le> d" using width_level [of d] False by linarith
  then have "unat j \<le> ?e - ?e mod width ?k" using e by linarith
  moreover have "d < 640 * width ?k" using level_reach [of d] e expires_less [of c] by linarith
  moreover have "early ?e d = early ?e (?e mod width ?k)" using False by (intro early_higher) simp
  ultimately show ?thesis
    using w slot_place [OF e] False e
    by (intro pending_higher [where l = ?k and d = d]) (simp_all add: fires_after_def)
qed

lemma turns_fire:
  assumes "waits n c (timer_slot (uExpires c) j) x" and "uPeriod c = 0"
    and "unat j + d = unat (uExpires c)"
  shows "if fires_after (unat (uExpires c)) d < k then gone n (turns k j x)
    else pending n c (fires_after (unat (uExpires c)) d - k) (j + of_nat k) (turns k j x)"
  by (rule pending_turns [OF placed_pending [OF assms(1,3)] assms(2)])

text \<open>Another timer that is created does not matter.\<close>

lemma waits_put:
  assumes "waits n c a (nd, w)" and "m \<notin> dom nd" and "m \<notin> members w"
  shows "waits n c a (nd(m \<mapsto> d), put ex j m w)"
proof -
  have "set (w a) \<subseteq> set (put ex j m w a)" by (auto simp: put_def Let_def)
  then show ?thesis using assms apart_put [of w m ex j] by (auto simp: waits_def)
qed

lemma pending_put:
  assumes "pending n c r j (nd, w)" and "m \<notin> dom nd" and "m \<notin> members w"
  shows "pending n c r j (nd(m \<mapsto> d), put ex i m w)"
proof -
  have "waits n c a (nd(m \<mapsto> d), put ex i m w)" if "waits n c a (nd, w)" for a
    by (rule waits_put [OF that assms(2,3)])
  then show ?thesis using assms(1) unfolding pending_def by blast
qed

text \<open>No turn makes a node.\<close>

lemma fold_expire1_dom: "dom (fst (fold (expire1 j) ns x)) \<subseteq> dom (fst x)"
proof (induction ns arbitrary: x)
  case (Cons n ns)
  have "dom (fst (expire1 j n x)) \<subseteq> dom (fst x)"
    by (cases x) (auto simp: expire1_def Let_def split: option.splits if_splits)
  then show ?case using Cons [of "expire1 j n x"] by auto
qed simp

lemma turns_dom: "dom (fst (turns k j x)) \<subseteq> dom (fst x)"
proof (induction k arbitrary: j x)
  case (Suc k)
  have "dom (fst (turn j x)) \<subseteq> dom (fst x)"
    using fold_expire1_dom [of j "expired j x" "(fst x, (cascades (expiry_in (fst x)) j (snd x))
      (Slot 1 (unat j mod 256) := []))"] by (cases x) (simp add: turn_def)
  then show ?case using Suc [of "j + 1" "turn j x"] by auto
qed simp

end
