(* ===== verification/Sleep.thy ===== *)
theory Sleep
  imports Firing
begin

text \<open>
  The callbacks of the library keep the contract of the timers: cleaning the pool, and waking
  the tasks that sleep. So the timer interrupt keeps the whole state in order, and a sleeping
  task is back on the ready list when its timer has run.
\<close>

section \<open>Waking a task\<close>

text \<open>A task that sleeps does not run and is neither ready nor waiting for a lock.\<close>

definition sleeping :: "sys \<Rightarrow> (list_id \<Rightarrow> nat list) \<Rightarrow> nat \<Rightarrow> bool" where
  "sleeping s q t \<longleftrightarrow> t \<in> dom (tasks s) \<and> current_task s \<noteq> Some t \<and>
     off_lists (valid_lists s) q ReadyList t"

definition woken_task :: "task_struct \<Rightarrow> task_struct" where
  "woken_task ts = ts\<lparr>ticks := priority ts, status := TASK_READY, is_collaborative_schedule := False,
     sleep_millisecond := 0\<rparr>"

lemma helper_run:
  assumes ok: "sched_ok s q" and sl: "sleeping s q t" and t: "tasks s t = Some ts"
  shows "\<exists>h. collaborative_schedule_helper t s =
      Inr (s\<lparr>cells := h, tasks := (tasks s)(t \<mapsto> woken_task ts)\<rparr>) \<and>
    sched_ok (s\<lparr>cells := h, tasks := (tasks s)(t \<mapsto> woken_task ts)\<rparr>) (q(ReadyList := q ReadyList @ [t]))"
proof -
  have l: "linked_cells (valid_lists s) (dom (tasks s)) (cells s) q"
    using ok by (simp add: sched_ok_def linked_def)
  have off: "off_lists (valid_lists s) q ReadyList t" and nc: "current_task s \<noteq> Some t"
    using sl by (simp_all add: sleeping_def)
  have "t \<in> dom (tasks s)" using t by blast
  from linked_append [OF l _ this off] obtain h where h:
      "list_append (list_at ReadyList) (GeneralTag t) (cells s) = Inr h"
      "linked_cells (valid_lists s) (dom (tasks s)) h (q(ReadyList := q ReadyList @ [t]))"
    by auto
  have "elem_find (list_at ReadyList) (GeneralTag t) (cells s) = Inr False"
    using linked_find [OF l, of ReadyList t] off by (simp add: off_lists_ready)
  then have "collaborative_schedule_helper t s =
      Inr (s\<lparr>cells := h, tasks := (tasks s)(t \<mapsto> woken_task ts)\<rparr>)"
    using h(1) t by (simp add: collaborative_schedule_helper_def step_simps woken_task_def)
  moreover have "t \<notin> set (q (Waiters k))" if "k \<in> dom (locks s)" for k
    using off that by (simp add: off_lists_ready)
  then have "sched_ok (s\<lparr>cells := h, tasks := (tasks s)(t \<mapsto> woken_task ts)\<rparr>)
      (q(ReadyList := q ReadyList @ [t]))"
    using ok nc h(2) t by (auto simp: sched_ok_def linked_def valid_lists_def has_status_def
        off_lists_ready insert_absorb domI woken_task_def) (auto simp: off_lists_def)
  ultimately show ?thesis by blast
qed

lemma clean_nothing:
  assumes ok: "sched_ok s q" and "q PoolList = [] \<or> 8 \<le> sint (task_all_nums s)"
  shows "clean_dead_task s = Inr s"
proof (cases "q PoolList")
  case Nil
  have "is_empty PoolList s = Inr True"
    using linked_empty [of "valid_lists s" "dom (tasks s)" "cells s" q PoolList] ok Nil
    by (simp add: sched_ok_def linked_def is_empty_def)
  then show ?thesis by (simp add: clean_dead_task_def)
qed (use clean_many [OF ok] assms(2) in auto)

section \<open>The callbacks of the library keep the contract\<close>

text \<open>
  \<open>calls nd n\<close>: what node \<open>n\<close> calls. \<open>sleep_ok cb T s q\<close>: the nodes in \<open>T\<close> clean the pool or wake
  sleeping tasks, each another one; and the pool is in a state in which cleaning it is safe:
  it is empty, or there are at least eight tasks.
\<close>

definition calls :: "(nat \<rightharpoonup> timer_node) \<Rightarrow> nat \<Rightarrow> callback \<times> param \<times> bool" where
  "calls nd n = (case nd n of
     None \<Rightarrow> (Clean_Dead_Task, Manager_Param, True)
   | Some c \<Rightarrow> (timerFn c, pParam c, uPeriod c \<noteq> 0))"

abbreviation wakes :: "(nat \<Rightarrow> callback \<times> param \<times> bool) \<Rightarrow> nat \<Rightarrow> nat \<Rightarrow> bool" where
  "wakes cb n t \<equiv> cb n = (Collaborative_Schedule_Helper, Task_Param t, False)"

definition sleep_ok :: "(nat \<Rightarrow> callback \<times> param \<times> bool) \<Rightarrow> nat set \<Rightarrow> sys \<Rightarrow> (list_id \<Rightarrow> nat list) \<Rightarrow> bool" where
  "sleep_ok cb T s q \<longleftrightarrow> sched_ok s q \<and> q (Waiters TimerLock) = [] \<and>
     (q PoolList = [] \<or> 8 \<le> sint (task_all_nums s)) \<and>
     (\<forall>n\<in>T. fst (cb n) = Clean_Dead_Task \<or> (\<exists>t. wakes cb n t \<and> sleeping s q t)) \<and>
     (\<forall>n\<in>T. \<forall>m\<in>T. \<forall>t. wakes cb n t \<and> wakes cb m t \<longrightarrow> n = m)"

lemma matches_calls: "P \<subseteq> dom nd \<Longrightarrow> matches (calls nd) P nd"
  by (auto simp: matches_def calls_def)

lemma sleep_okD:
  assumes "sleep_ok cb T s q"
  shows "sched_ok s q" "q (Waiters TimerLock) = []" "q PoolList = [] \<or> 8 \<le> sint (task_all_nums s)"
    "n \<in> T \<Longrightarrow> fst (cb n) = Clean_Dead_Task \<or> (\<exists>t. wakes cb n t \<and> sleeping s q t)"
    "n \<in> T \<Longrightarrow> m \<in> T \<Longrightarrow> wakes cb n t \<Longrightarrow> wakes cb m t \<Longrightarrow> n = m"
  using assms by (auto simp: sleep_ok_def)

text \<open>
  \<open>while_firing cb T s0 q0 P s\<close>: from the state \<open>s0\<close>, in which the nodes \<open>T\<close> are in the wheel,
  those outside \<open>P\<close> have run: the tasks they wake are at the end of the ready list.
\<close>

definition wake_list :: "nat list \<Rightarrow> (list_id \<Rightarrow> nat list) \<Rightarrow> list_id \<Rightarrow> nat list" where
  "wake_list ts q = q(ReadyList := q ReadyList @ ts)"

definition while_firing ::
  "(nat \<Rightarrow> callback \<times> param \<times> bool) \<Rightarrow> nat set \<Rightarrow> sys \<Rightarrow> (list_id \<Rightarrow> nat list) \<Rightarrow> nat set \<Rightarrow> sys \<Rightarrow> bool" where
  "while_firing cb T s0 q0 P s \<longleftrightarrow> sleep_ok cb T s0 q0 \<and> P \<subseteq> T \<and>
     (\<exists>wk. distinct wk \<and> set wk = {t. \<exists>n\<in>T - P. wakes cb n t} \<and>
        sched_ok s (wake_list wk q0) \<and>
        tasks s = (\<lambda>t. if t \<in> set wk then map_option woken_task (tasks s0 t) else tasks s0 t)) \<and>
     current_task s = current_task s0 \<and> dom (locks s) = dom (locks s0) \<and>
     same_ids s s0"

lemma while_firing_start:
  assumes "sleep_ok cb T s q" shows "while_firing cb T s q T s"
  using sleep_okD(1) [OF assms] assms
  by (auto simp: while_firing_def wake_list_def intro!: exI [of _ "[]"])

lemma sleeping_later:
  assumes "sleeping s0 q0 t" and "t \<notin> set wk" and "dom (tasks s) = dom (tasks s0)"
    and "current_task s = current_task s0" and "dom (locks s) = dom (locks s0)"
  shows "sleeping s (wake_list wk q0) t"
  using assms by (auto simp: sleeping_def off_lists_ready wake_list_def)

interpretation sl: timer_calls client cb "while_firing cb T s0 q0"
  for client :: clients and cb T s0 q0
proof
  fix P s n
  assume I: "while_firing cb T s0 q0 P s" and n: "n \<in> P"
  obtain wk where wk: "distinct wk" "set wk = {t. \<exists>n\<in>T - P. wakes cb n t}"
      "sched_ok s (wake_list wk q0)"
      "tasks s = (\<lambda>t. if t \<in> set wk then map_option woken_task (tasks s0 t) else tasks s0 t)"
    using I by (auto simp: while_firing_def)
  have s: "sleep_ok cb T s0 q0" "P \<subseteq> T" "current_task s = current_task s0"
      "dom (locks s) = dom (locks s0)" "same_ids s s0"
    using I by (simp_all add: while_firing_def)
  have nT: "n \<in> T" using n s(2) by blast
  show "\<exists>s'. run_callback client (fst (cb n)) (fst (snd (cb n))) s = Inr s' \<and> timers s' = timers s \<and>
      locks s' = locks s \<and> current_task s' = current_task s \<and>
      while_firing cb T s0 q0 (if snd (snd (cb n)) then P else P - {n}) s'"
  proof (cases "fst (cb n) = Clean_Dead_Task")
    case True
    let ?P = "if snd (snd (cb n)) then P else P - {n}"
    have "clean_dead_task s = Inr s"
      by (rule clean_nothing [OF wk(3)]) (use sleep_okD(3) [OF s(1)] same_idsD(4) [OF s(5)] in \<open>simp add: wake_list_def\<close>)
    moreover have "{t. \<exists>n\<in>T - ?P. wakes cb n t} = set wk" using True wk(2) by auto
    then have "while_firing cb T s0 q0 ?P s"
      using wk s by (auto simp: while_firing_def intro!: exI [of _ wk])
    ultimately show ?thesis using True by (cases "cb n") auto
  next
    case False
    then obtain t where t: "wakes cb n t" "sleeping s0 q0 t" using sleep_okD(4) [OF s(1) nT] by auto
    have tw: "t \<notin> set wk"
    proof
      assume "t \<in> set wk"
      then obtain m where "m \<in> T - P" "wakes cb m t" using wk(2) by auto
      then show False using sleep_okD(5) [OF s(1) nT, of m t] t(1) n by auto
    qed
    have dom: "dom (tasks s) = dom (tasks s0)" using wk(4) by (auto split: if_splits)
    have sl: "sleeping s (wake_list wk q0) t" by (rule sleeping_later [OF t(2) tw dom s(3,4)])
    then obtain ts where ts: "tasks s t = Some ts" by (auto simp: sleeping_def)
    obtain h where h: "collaborative_schedule_helper t s =
          Inr (s\<lparr>cells := h, tasks := (tasks s)(t \<mapsto> woken_task ts)\<rparr>)"
        "sched_ok (s\<lparr>cells := h, tasks := (tasks s)(t \<mapsto> woken_task ts)\<rparr>)
          ((wake_list wk q0)(ReadyList := wake_list wk q0 ReadyList @ [t]))"
      using helper_run [OF wk(3) sl ts] by auto
    let ?s = "s\<lparr>cells := h, tasks := (tasks s)(t \<mapsto> woken_task ts)\<rparr>"
    have w: "(wake_list wk q0)(ReadyList := wake_list wk q0 ReadyList @ [t]) = wake_list (wk @ [t]) q0"
      by (simp add: wake_list_def)
    have u: "t' = t" if "wakes cb n t'" for t' using that t(1) by simp
    have "set (wk @ [t]) = {t. \<exists>n\<in>T - (P - {n}). wakes cb n t}"
      using wk(2) n nT t(1) u by auto
    moreover have "tasks s0 t = Some ts" using ts wk(4) tw by simp
    then have "tasks ?s =
        (\<lambda>x. if x \<in> set (wk @ [t]) then map_option woken_task (tasks s0 x) else tasks s0 x)"
      using wk(4) tw by (auto simp: fun_eq_iff)
    moreover have "sched_ok ?s (wake_list (wk @ [t]) q0)" using h(2) unfolding w .
    moreover have "distinct (wk @ [t])" using wk(1) tw by simp
    ultimately have "\<exists>wk. distinct wk \<and> set wk = {t. \<exists>n\<in>T - (P - {n}). wakes cb n t} \<and>
        sched_ok ?s (wake_list wk q0) \<and>
        tasks ?s = (\<lambda>t. if t \<in> set wk then map_option woken_task (tasks s0 t) else tasks s0 t)"
      by blast
    then have "while_firing cb T s0 q0 (P - {n}) ?s"
      using s unfolding while_firing_def by (auto simp: same_ids_def)
    then show ?thesis using t(1) h(1) by (intro exI [of _ ?s]) simp
  qed
next
  fix P and s s' :: sys
  assume I: "while_firing cb T s0 q0 P s" and f: "cells s' = cells s" "tasks s' = tasks s"
    "current_task s' = current_task s" "same_ids s' s" "dom (locks s') = dom (locks s)"
  have "sched_ok s q \<Longrightarrow> sched_ok s' q" for q using f by (subst sched_ok_frame [of _ s]) auto
  then show "while_firing cb T s0 q0 P s'" using I f same_ids_trans [OF f(4)] unfolding while_firing_def by auto
next
  fix P s
  assume "while_firing cb T s0 q0 P s"
  then obtain wk where "sched_ok s (wake_list wk q0)" "q0 (Waiters TimerLock) = []"
    unfolding while_firing_def using sleep_okD(2) by blast
  then show "\<exists>q. sched_ok s q \<and> q (Waiters TimerLock) = []" by (auto simp: wake_list_def)
qed

end
