(* ===== verification/Alarm.thy ===== *)
theory Alarm
  imports Sleep
begin

text \<open>
  The timer interrupt as a whole: what each of its steps does to the wheel, to the lists of
  tasks and to the running task, and that it keeps the state in order.
\<close>

section \<open>The state between two interrupts\<close>

text \<open>
  The wheel \<open>w\<close> has reached the time \<open>j\<close>, nobody holds its lock, and its timers are of the
  two kinds the library creates.
\<close>

definition timers_ok ::
  "sys \<Rightarrow> (list_id \<Rightarrow> nat list) \<Rightarrow> (timer_ref \<Rightarrow> nat list) \<Rightarrow> 32 word \<Rightarrow> bool" where
  "timers_ok s q w j \<longleftrightarrow> wheel_ok (timers s) w \<and>
     manager_mem (timers s) = Some \<lparr>uExitFlag = 0, uJiffies = j\<rparr> \<and>
     locks s TimerLock = Some free_lock \<and> sleep_ok (calls (tnodes (timers s))) (members w) s q"

lemma timers_okD:
  assumes "timers_ok s q w j"
  shows "wheel_ok (timers s) w" "manager_mem (timers s) = Some \<lparr>uExitFlag = 0, uJiffies = j\<rparr>"
    "locks s TimerLock = Some free_lock" "sleep_ok (calls (tnodes (timers s))) (members w) s q"
    "sched_ok s q" "q (Waiters TimerLock) = []" "timer_manager (timers s)"
    "manager_at (timers s) = Inr \<lparr>uExitFlag = 0, uJiffies = j\<rparr>"
  using assms by (auto simp: timers_ok_def sleep_ok_def wheel_ok_def manager_at_def)

lemma sleep_ok_frame:
  assumes "sleep_ok cb T s q" and "sched_ok s' q" and "dom (tasks s') = dom (tasks s)"
    and "current_task s' = current_task s" and "dom (locks s') = dom (locks s)"
    and "task_all_nums s' = task_all_nums s"
  shows "sleep_ok cb T s' q"
proof -
  have "sleeping s' q t = sleeping s q t" for t
    using assms(3-5) by (simp add: sleeping_def off_lists_ready)
  then show ?thesis using assms(1,2,6) by (simp add: sleep_ok_def)
qed

lemma timers_ok_frame:
  assumes "timers_ok s q w j" and "sched_ok s' q" and "dom (tasks s') = dom (tasks s)"
    and "current_task s' = current_task s" and "locks s' = locks s"
    and "task_all_nums s' = task_all_nums s" and "timers s' = timers s"
  shows "timers_ok s' q w j"
  using assms sleep_ok_frame [of _ _ s q s'] by (simp add: timers_ok_def)

text \<open>Changing a field of a task other than its status.\<close>

lemma timers_ok_upd:
  assumes "timers_ok s q w j" and "tasks s t = Some ts" and "status ts' = status ts"
  shows "timers_ok (s\<lparr>tasks := (tasks s)(t \<mapsto> ts')\<rparr>) q w j"
proof (rule timers_ok_frame [OF assms(1)])
  show "sched_ok (s\<lparr>tasks := (tasks s)(t \<mapsto> ts')\<rparr>) q"
    by (rule sched_ok_upd [OF timers_okD(5) [OF assms(1)] assms(2,3)]) simp_all
qed (use assms(2) in auto)

section \<open>The first step: counting\<close>

lemma handler_count_run:
  assumes "timers_ok s q w j" and "current_task s = Some c" and "tasks s c = Some ts"
    and "stack_magic ts = 0x19991120"
  defines "s' \<equiv> s\<lparr>tasks := (tasks s)(c \<mapsto> ts\<lparr>elapsed_ticks := elapsed_ticks ts + 1\<rparr>),
      total_ticks := total_ticks s + 1\<rparr>"
  shows "handler_count s = Inr s'" "timers_ok s' q w j"
proof -
  show "handler_count s = Inr s'"
    using assms(2-4) by (simp add: handler_count_def step_simps s'_def)
  let ?t = "s\<lparr>tasks := (tasks s)(c \<mapsto> ts\<lparr>elapsed_ticks := elapsed_ticks ts + 1\<rparr>)\<rparr>"
  have t: "timers_ok ?t q w j" by (rule timers_ok_upd [OF assms(1,3)]) simp
  have "sched_ok s' q"
    using timers_okD(5) [OF t] by (subst sched_ok_frame [of _ ?t]) (simp_all add: s'_def)
  then show "timers_ok s' q w j" by (rule timers_ok_frame [OF t]) (simp_all add: s'_def)
qed

lemma magic_lost:
  assumes "current_task s = Some c" and "tasks s c = Some ts" and "stack_magic ts \<noteq> 0x19991120"
  shows "interrupt_timer_handler client clock new frame s = Fail Assert_Spin"
  using assms by (simp add: interrupt_timer_handler_def handler_count_def step_simps)

section \<open>The second step: the timers\<close>

text \<open>One millisecond, with the callbacks of the library.\<close>

lemma timer_turn_ok:
  assumes ok: "timers_ok s q w j"
  shows "\<exists>s' w'. timer_turn client s = Inr s' \<and> wheel_ok (timers s') w' \<and>
    (tnodes (timers s'), w') = turn j (tnodes (timers s), w) \<and> members w' \<subseteq> members w"
proof -
  note o = timers_okD [OF ok]
  let ?cb = "calls (tnodes (timers s))"
  have mt: "matches ?cb (members w) (tnodes (timers s))"
    by (rule matches_calls) (rule wheel_okD(2) [OF o(1)])
  from sl.timer_turn_run [OF o(1,2) mt while_firing_start [OF o(4)], of client] obtain s' w' where
    "timer_turn client s = Inr s'" "wheel_ok (timers s') w'"
    "(tnodes (timers s'), w') = turn j (tnodes (timers s), w)"
    "while_firing ?cb (members w) s q (members w') s'"
    by auto
  moreover from this(4) have "members w' \<subseteq> members w" by (simp add: while_firing_def)
  ultimately show ?thesis by blast
qed

lemma handler_timers_run:
  assumes ok: "timers_ok s q w j" and c: "current_task s = Some c"
    and k: "unat j + k = Suc (unat (get_jiffies clock))" "Suc (unat (get_jiffies clock)) < 2 ^ 32"
  shows "\<exists>s' w' wk. handler_timers client clock s = Done () s' \<and>
    timers_ok s' (wake_list wk q) w' (get_jiffies clock + 1) \<and>
    (tnodes (timers s'), w') = turns k j (tnodes (timers s), w) \<and>
    distinct wk \<and> set wk = {t. \<exists>n\<in>members w - members w'. wakes (calls (tnodes (timers s))) n t} \<and>
    members w' \<subseteq> members w \<and>
    (\<forall>n\<in>members w'. calls (tnodes (timers s')) n = calls (tnodes (timers s)) n) \<and>
    tasks s' = (\<lambda>t. if t \<in> set wk then map_option woken_task (tasks s t) else tasks s t) \<and>
    current_task s' = Some c \<and> locks s' = locks s \<and> same_ids s' s \<and> \<not> blocked s'"
proof -
  note o = timers_okD [OF ok]
  let ?cb = "calls (tnodes (timers s))" and ?m = "\<lparr>uExitFlag = 0, uJiffies = j\<rparr>"
  have mt: "matches ?cb (members w) (tnodes (timers s))"
    by (rule matches_calls) (rule wheel_okD(2) [OF o(1)])
  from sl.run_timer_run [OF o(1,2) mt while_firing_start [OF o(4)], of k clock c client] k o(3) c
  obtain s' w' where r: "run_timer client clock s = Done () s'" "wheel_ok (timers s') w'"
      "(tnodes (timers s'), w') = turns k j (tnodes (timers s), w)"
      "manager_mem (timers s') = Some \<lparr>uExitFlag = 0, uJiffies = get_jiffies clock + 1\<rparr>"
      "while_firing ?cb (members w) s q (members w') s'"
      "matches ?cb (members w') (tnodes (timers s'))"
      "locks s' = locks s" "current_task s' = Some c" "\<not> blocked s'"
    by auto
  obtain wk where wk: "distinct wk" "set wk = {t. \<exists>n\<in>members w - members w'. wakes ?cb n t}"
      "sched_ok s' (wake_list wk q)"
      "tasks s' = (\<lambda>t. if t \<in> set wk then map_option woken_task (tasks s t) else tasks s t)"
    using r(5) by (auto simp: while_firing_def)
  have sub: "members w' \<subseteq> members w" "same_ids s' s"
    using r(5) by (auto simp: while_firing_def)
  have dom: "dom (tasks s') = dom (tasks s)" using wk(4) by (auto split: if_splits)
  have cb: "calls (tnodes (timers s')) n = ?cb n" if "n \<in> members w'" for n
    using r(6) that by (auto simp: matches_def calls_def)
  have "\<exists>t. wakes ?cb n t \<and> sleeping s' (wake_list wk q) t"
    if n: "n \<in> members w'" and f: "fst (?cb n) \<noteq> Clean_Dead_Task" for n
  proof -
    have nw: "n \<in> members w" using n sub(1) by blast
    then obtain t where t: "wakes ?cb n t" "sleeping s q t" using sleep_okD(4) [OF o(4), of n] f by blast
    have "t \<notin> set wk"
    proof
      assume "t \<in> set wk"
      then obtain m where m: "m \<in> members w" "m \<notin> members w'" "wakes ?cb m t" using wk(2) by blast
      have "n = m" by (rule sleep_okD(5) [OF o(4) nw m(1) t(1) m(3)])
      then show False using n m(2) by simp
    qed
    from sleeping_later [OF t(2) this dom] show ?thesis using t(1) c r(7,8) by auto
  qed
  moreover have "q (Waiters TimerLock) = []" "q PoolList = [] \<or> 8 \<le> sint (task_all_nums s')"
    using o(6) sleep_okD(3) [OF o(4)] same_idsD(4) [OF sub(2)] by simp_all
  moreover have "n = m" if "n \<in> members w'" "m \<in> members w'" "wakes ?cb n t" "wakes ?cb m t" for n m t
    by (rule sleep_okD(5) [OF o(4) _ _ that(3,4)]) (use that(1,2) sub(1) in blast)+
  ultimately have "sleep_ok (calls (tnodes (timers s'))) (members w') s' (wake_list wk q)"
    using wk(3) cb unfolding sleep_ok_def by (simp add: wake_list_def) blast
  then have "timers_ok s' (wake_list wk q) w' (get_jiffies clock + 1)"
    using r(2,4,7) o(3) by (simp add: timers_ok_def)
  moreover have "handler_timers client clock s = run_timer client clock s"
    using o(7,8) by (simp add: handler_timers_def)
  ultimately show ?thesis
    using r(1,3,7-9) sub wk cb by (intro exI [of _ s'] exI [of _ w'] exI [of _ wk]) simp
qed

section \<open>Operations under the lock of the timers\<close>

lemma locked_timers:
  assumes ok: "sched_ok s q" and w: "q (Waiters TimerLock) = []" and l: "locks s TimerLock = Some free_lock"
    and c: "current_task s = Some c" and f: "f (timers s) = Inr ts"
  shows "bind_run (lock_acquire TimerLock s) (\<lambda>_ s. bind_run (lift_run (on_timers f s)) (\<lambda>_ s.
      bind_run (lift_run (lock_release TimerLock s)) (\<lambda>_ s. Done r s))) =
    Done r (s\<lparr>timers := ts, blocked := False\<rparr>)"
proof -
  let ?s = "s\<lparr>locks := (locks s)(TimerLock \<mapsto> held_lock c 1), blocked := False, timers := ts\<rparr>"
  have "sched_ok ?s q" using ok l by (subst sched_ok_frame [of _ s]) (auto simp: insert_absorb)
  from release_quiet [OF this _ _ w, of c] c
  have "lock_release TimerLock ?s = Inr (?s\<lparr>locks := (locks s)(TimerLock \<mapsto> free_lock), blocked := False\<rparr>)"
    by simp
  moreover have "?s\<lparr>locks := (locks s)(TimerLock \<mapsto> free_lock), blocked := False\<rparr> =
      s\<lparr>timers := ts, blocked := False\<rparr>"
    using fun_upd_idem [of "locks s" TimerLock, OF l] by simp
  moreover have "on_timers f (s\<lparr>locks := (locks s)(TimerLock \<mapsto> held_lock c 1), blocked := False\<rparr>) = Inr ?s"
    using f by (simp add: on_timers_def)
  ultimately show ?thesis using acquire_free_lock(1) [OF l c] by simp
qed

lemma alloc_node_ok:
  assumes "wheel_ok ts w" and "n \<notin> dom (tnodes ts)"
  shows "wheel_ok (alloc_node n f p per ts) w"
proof -
  have "off_rings slots (wrefs w) (Node n)"
    using wheel_okD(2) [OF assms(1)] assms(2) by (auto simp: off_rings_node)
  then have "rings slots (tlinks (alloc_node n f p per ts)) (wrefs w)"
    by (intro rings_cong [OF wheel_okD(1) [OF assms(1)]]) (auto simp: alloc_node_def)
  then show ?thesis using assms(1) by (auto simp: wheel_ok_def alloc_node_def)
qed

lemma insert_timer_parts:
  assumes ok: "wheel_ok ts w" and n: "n \<notin> dom (tnodes ts)" and m: "manager_mem ts = Some m"
  shows "\<exists>u. insert_timer n due (alloc_node n f p per ts) = add_timer n u \<and> wheel_ok u w \<and> manager_mem u = Some m \<and>
    tnodes u = (tnodes ts)(n \<mapsto> \<lparr>uExpires = uJiffies m + due, uPeriod = per, timerFn = f, pParam = p\<rparr>) \<and>
    set_expiry n due (alloc_node n f p per ts) = Inr u"
proof -
  let ?a = "alloc_node n f p per ts"
  let ?u = "?a\<lparr>tnodes := (tnodes ts)(n \<mapsto> \<lparr>uExpires = uJiffies m + due, uPeriod = per, timerFn = f, pParam = p\<rparr>)\<rparr>"
  have a: "wheel_ok ?a w" by (rule alloc_node_ok [OF ok n])
  then have "manager_at ?a = Inr m" using m by (simp add: manager_at_def wheel_ok_def alloc_node_def)
  then have e: "set_expiry n due ?a = Inr ?u"
    by (simp add: set_expiry_def upd_node_def node_at_def alloc_node_def)
  then have "insert_timer n due ?a = add_timer n ?u" by (simp add: insert_timer_def)
  moreover have "wheel_ok ?u w" using a by (auto simp: wheel_ok_def alloc_node_def)
  ultimately show ?thesis using m e by (intro exI [of _ ?u]) (simp add: alloc_node_def)
qed

lemma insert_timer_run:
  assumes ok: "wheel_ok ts w" and n: "n \<notin> dom (tnodes ts)" and m: "manager_mem ts = Some m"
  shows "\<exists>ts'. insert_timer n due (alloc_node n f p per ts) = Inr ts' \<and>
    wheel_ok ts' (put (\<lambda>_. uJiffies m + due) (uJiffies m) n w) \<and> manager_mem ts' = Some m \<and>
    tnodes ts' = (tnodes ts)(n \<mapsto> \<lparr>uExpires = uJiffies m + due, uPeriod = per, timerFn = f, pParam = p\<rparr>)"
proof -
  let ?e = "uJiffies m + due"
  obtain u where u: "insert_timer n due (alloc_node n f p per ts) = add_timer n u" "wheel_ok u w"
      "manager_mem u = Some m" "tnodes u = (tnodes ts)(n \<mapsto> \<lparr>uExpires = ?e, uPeriod = per, timerFn = f, pParam = p\<rparr>)"
    using insert_timer_parts [OF assms, of due f p per] by blast
  have "n \<notin> members w" using wheel_okD(2) [OF ok] n by blast
  with add_timer_run [OF u(2), of n _ m] u(3,4) obtain h where h: "add_timer n u = Inr (u\<lparr>tlinks := h\<rparr>)"
      "wheel_ok (u\<lparr>tlinks := h\<rparr>) (put (expiry u) (uJiffies m) n w)"
    by auto
  have "put (expiry u) (uJiffies m) n w = put (\<lambda>_. ?e) (uJiffies m) n w" by (simp add: put_def expiry_def u(4))
  then show ?thesis using h u(1,3,4) by (intro exI [of _ "u\<lparr>tlinks := h\<rparr>"]) simp
qed

lemma create_timer_run:
  assumes ok: "wheel_ok (timers s) w" "manager_mem (timers s) = Some m" and n: "n \<notin> dom (tnodes (timers s))"
    and s: "sched_ok s q" "q (Waiters TimerLock) = []" "locks s TimerLock = Some free_lock"
      "current_task s = Some c"
  shows "\<exists>ts. create_timer (Some f) p due per (Some n) s =
      Done (Some n) (s\<lparr>timers := ts, blocked := False\<rparr>) \<and>
    wheel_ok ts (put (\<lambda>_. uJiffies m + due) (uJiffies m) n w) \<and> manager_mem ts = Some m \<and>
    tnodes ts = (tnodes (timers s))(n \<mapsto>
      \<lparr>uExpires = uJiffies m + due, uPeriod = per, timerFn = f, pParam = p\<rparr>)"
proof -
  obtain ts where ts: "insert_timer n due (alloc_node n f p per (timers s)) = Inr ts"
      "wheel_ok ts (put (\<lambda>_. uJiffies m + due) (uJiffies m) n w)" "manager_mem ts = Some m"
      "tnodes ts = (tnodes (timers s))(n \<mapsto>
        \<lparr>uExpires = uJiffies m + due, uPeriod = per, timerFn = f, pParam = p\<rparr>)"
    using insert_timer_run [OF ok(1) n ok(2)] by blast
  let ?s = "s\<lparr>timers := alloc_node n f p per (timers s)\<rparr>"
  have "sched_ok ?s q" using s(1) by (subst sched_ok_frame [of _ s]) auto
  from locked_timers [OF this s(2), of c "insert_timer n due" ts "Some n"] s(3,4) ts(1)
  have "create_timer (Some f) p due per (Some n) s = Done (Some n) (s\<lparr>timers := ts, blocked := False\<rparr>)"
    using ok(1) by (simp add: create_timer_def wheel_ok_def)
  then show ?thesis using ts(2-4) by blast
qed

lemma delete_timer_run:
  assumes ok: "wheel_ok (timers s) w" and a: "a \<in> slots" "n \<in> set (w a)"
    and s: "sched_ok s q" "q (Waiters TimerLock) = []" "locks s TimerLock = Some free_lock"
      "current_task s = Some c"
  shows "\<exists>ts. delete_timer (Some n) s = Done 0 (s\<lparr>timers := ts, blocked := False\<rparr>) \<and>
    wheel_ok ts (w(a := remove1 n (w a))) \<and> members (w(a := remove1 n (w a))) = members w - {n} \<and>
    tnodes ts = (tnodes (timers s))(n := None) \<and> manager_mem ts = manager_mem (timers s)"
proof -
  obtain h where h: "list_timer_unlink (Node n) (tlinks (timers s)) = Inr h"
      "wheel_ok (free_all {n} ((timers s)\<lparr>tlinks := h\<rparr>)) (w(a := remove1 n (w a)))"
      "members (w(a := remove1 n (w a))) = members w - {n}"
    using unlink_run [OF ok a] by blast
  let ?ts = "free_all {n} ((timers s)\<lparr>tlinks := h\<rparr>)"
  obtain d where d: "tnodes (timers s) n = Some d"
    using wheel_okD(2) [OF ok] slot_members [OF a(1)] a(2) by blast
  then have "andthen (on_links (list_timer_unlink (Node n)) (timers s)) (free_node n) = Inr ?ts"
    using h(1) free_node_all [of "(timers s)\<lparr>tlinks := h\<rparr>" n d] by (simp add: on_links_def)
  from locked_timers [OF s, of "\<lambda>ts. andthen (on_links (list_timer_unlink (Node n)) ts) (free_node n)", OF this]
  have "delete_timer (Some n) s = Done 0 (s\<lparr>timers := ?ts, blocked := False\<rparr>)"
    using ok by (simp add: delete_timer_def wheel_ok_def)
  moreover have "tnodes ?ts = (tnodes (timers s))(n := None)" by (auto simp: free_all_def restrict_map_def)
  moreover have "manager_mem ?ts = manager_mem (timers s)" by (simp add: free_all_def)
  ultimately show ?thesis using h(2,3) by blast
qed

text \<open>A timer that has run once, or was deleted before, is freed memory.\<close>

lemma delete_timer_freed:
  assumes ok: "wheel_ok (timers s) w" and "tnodes (timers s) n = None"
    and "locks s TimerLock = Some free_lock" "current_task s = Some c"
  shows "delete_timer (Some n) s = Fail Bad_Access"
proof -
  have "tlinks (timers s) (Node n) = None" using wheel_okD(3) [OF ok, of n] assms(2) by auto
  then have "list_timer_unlink (Node n) (tlinks (timers s)) = Inl Bad_Access"
    by (simp add: list_timer_unlink_def link_at_def)
  then show ?thesis
    using ok acquire_free_lock(1) [OF assms(3,4)]
    by (simp add: delete_timer_def wheel_ok_def on_timers_def on_links_def)
qed


section \<open>The third step: the task to run\<close>

text \<open>A switch of the running task, from the ready list, leaves the sleeping tasks alone.\<close>

lemma timers_ok_switch:
  assumes ok: "timers_ok s q w j" and c: "current_task s = Some c" and s': "sched_ok s' q'"
    and n: "current_task s' = Some n" "n \<in> insert c (set (q ReadyList))"
    and q: "set (q' ReadyList) \<subseteq> insert c (set (q ReadyList))" "\<And>i. i \<noteq> ReadyList \<Longrightarrow> q' i = q i"
    and f: "dom (tasks s') = dom (tasks s)" "locks s' = locks s" "task_all_nums s' = task_all_nums s"
      "timers s' = timers s"
  shows "timers_ok s' q' w j"
proof -
  have "sleeping s' q' t" if "sleeping s q t" for t
    using that c n q f(1,2) by (auto simp: sleeping_def off_lists_ready)
  then have "sleep_ok (calls (tnodes (timers s))) (members w) s' q'"
    using timers_okD(4) [OF ok] s' q(2) f(3) unfolding sleep_ok_def by (simp; blast)
  then show ?thesis using ok f(2,4) by (simp add: timers_ok_def)
qed

text \<open>The choice of the next task does not touch the mark of a sleeping task.\<close>

definition marks :: "sys \<Rightarrow> nat \<Rightarrow> bool option" where
  "marks s t = map_option is_collaborative_schedule (tasks s t)"

text \<open>
  What the scheduler uses of the tasks, their ticks, their priority and the value the handler
  checks; a slice that begins anew, and one tick of it spent.
\<close>

type_synonym slices = "nat \<rightharpoonup> uint8_t \<times> uint8_t \<times> uint32_t"

definition slices :: "sys \<Rightarrow> slices" where
  "slices s t = map_option (\<lambda>ts. (ticks ts, priority ts, stack_magic ts)) (tasks s t)"

definition refill :: "nat set \<Rightarrow> slices \<Rightarrow> slices" where
  "refill T m = (\<lambda>t. if t \<in> T then map_option (\<lambda>(k, p, g). (p, p, g)) (m t) else m t)"

definition spend :: "nat \<Rightarrow> slices \<Rightarrow> slices" where
  "spend c m = m(c := map_option (\<lambda>(k, p, g). (k - 1, p, g)) (m c))"

text \<open>
  The scheduler in the abstract: the next running task and ready list, and the slices, when
  \<open>c\<close> with the ticks \<open>k\<close> runs, \<open>rs\<close> are ready, and \<open>b\<close> tells whether \<open>c\<close> asked to sleep.
\<close>

definition next_task :: "bool \<Rightarrow> uint8_t \<Rightarrow> nat \<Rightarrow> nat list \<Rightarrow> nat \<times> nat list" where
  "next_task b k c rs =
     (if b then (hd rs, tl rs) else if k = 0 then (hd (rs @ [c]), tl (rs @ [c])) else (c, rs))"

definition next_slices :: "bool \<Rightarrow> uint8_t \<Rightarrow> nat \<Rightarrow> slices \<Rightarrow> slices" where
  "next_slices b k c m = (if b then m else if k = 0 then refill {c} m else spend c m)"

lemma next_task_keeps:
  "b \<Longrightarrow> rs \<noteq> [] \<Longrightarrow> set rs \<subseteq> insert (fst (next_task b k c rs)) (set (snd (next_task b k c rs)))"
  "\<not> b \<Longrightarrow> set rs \<subseteq> insert (fst (next_task b k c rs)) (set (snd (next_task b k c rs)))"
  by (cases rs; auto simp: next_task_def)+

text \<open>The time slice goes on.\<close>

lemma handler_tick:
  assumes ok: "timers_ok s q w j" and "current_task s = Some c" and "tasks s c = Some ts"
    and "\<not> is_collaborative_schedule ts" and "ticks ts \<noteq> 0"
  defines "s' \<equiv> s\<lparr>tasks := (tasks s)(c \<mapsto> ts\<lparr>ticks := ticks ts - 1\<rparr>)\<rparr>"
  shows "handler_schedule new frame s = Done frame s'" "timers_ok s' q w j" "marks s' = marks s"
    "slices s' = spend c (slices s)"
proof -
  show "slices s' = spend c (slices s)" using assms(3) by (simp add: s'_def slices_def spend_def fun_eq_iff)
  show "marks s' = marks s" using assms(3) by (simp add: s'_def marks_def fun_eq_iff)
  show "handler_schedule new frame s = Done frame s'"
    using assms(2-5) by (simp add: handler_schedule_def step_simps s'_def)
  show "timers_ok s' q w j" unfolding s'_def by (rule timers_ok_upd [OF ok assms(3)]) simp
qed

text \<open>The time slice is used up.\<close>

lemma schedule_marks:
  assumes "sched_ok s q" and "current_task s = Some c" and r: "schedule frame s = Inr (frame', s')"
  shows "marks s' = marks s" "slices s' = refill {c} (slices s)" "locks s' = locks s" "same_ids s' s"
proof -
  define n where "n = hd (q ReadyList @ [c])"
  obtain h tc tn where t: "tasks s c = Some tc" "tasks s n = Some tn" and
      run: "schedule frame s = Inr (if n = c then frame else tcontext tn,
      s\<lparr>cells := h, task_tag := Some (GeneralTag n), current_task := Some n,
        tasks := (tasks s)
          (c \<mapsto> tc\<lparr>ticks := priority tc, status := if n = c then TASK_RUNNING else TASK_READY,
                 tcontext := frame\<rparr>,
           n \<mapsto> if n = c
             then tc\<lparr>ticks := priority tc, status := TASK_RUNNING, tcontext := frame\<rparr>
             else tn\<lparr>status := TASK_RUNNING\<rparr>)\<rparr>)"
    using schedule_run [OF assms(1,2) n_def] by blast
  show "marks s' = marks s" "slices s' = refill {c} (slices s)" "locks s' = locks s" "same_ids s' s"
    using r t unfolding run by (auto simp: marks_def slices_def refill_def same_ids_def fun_eq_iff)
qed

lemma handler_slice:
  assumes ok: "timers_ok s q w j" and c: "current_task s = Some c" and ts: "tasks s c = Some ts"
    and "\<not> is_collaborative_schedule ts" and "ticks ts = 0"
  shows "\<exists>frame' s'. handler_schedule new frame s = Done frame' s' \<and>
    timers_ok s' (q(ReadyList := tl (q ReadyList @ [c]))) w j \<and>
    current_task s' = Some (hd (q ReadyList @ [c])) \<and> blocked s' = blocked s \<and>
    marks s' = marks s \<and> timers s' = timers s \<and> slices s' = refill {c} (slices s) \<and>
    locks s' = locks s \<and> same_ids s' s"
proof -
  let ?n = "hd (q ReadyList @ [c])" and ?q = "q(ReadyList := tl (q ReadyList @ [c]))"
  have so: "sched_ok s q" by (rule timers_okD(5) [OF ok])
  obtain frame' s' where s': "schedule frame s = Inr (frame', s')" "sched_ok s' ?q"
      "current_task s' = Some ?n" "locks s' = locks s" "devices s' = devices s" "blocked s' = blocked s"
    using schedule_ok [OF so c] by blast
  have "dom (tasks s') = dom (tasks s)" "task_all_nums s' = task_all_nums s"
    using schedule_run [OF so c refl, of frame] s'(1)
    by (elim exE conjE, simp add: insert_absorb domI del: fun_upd_apply)+

  then have "timers_ok s' ?q w j"
    by (intro timers_ok_switch [OF ok c s'(2,3)]) (use s'(4,5) in \<open>cases "q ReadyList"; auto\<close>)+
  moreover have "handler_schedule new frame s = Done frame' s'"
    using assms(2-5) s'(1) by (simp add: handler_schedule_def step_simps lift_val_def)
  moreover have "timers s' = timers s" "marks s' = marks s"
    using s'(5) schedule_marks(1) [OF so c s'(1)] by simp_all
  ultimately show ?thesis using s'(3,6) schedule_marks(2-4) [OF so c s'(1)] by blast
qed

text \<open>The task has asked to sleep.\<close>

lemma collaborative_schedule_run:
  assumes ok: "sched_ok s q" and c: "current_task s = Some c" "tasks s c = Some tc"
    and r: "q ReadyList = n # ns"
  shows "\<exists>h tn. tasks s n = Some tn \<and> n \<noteq> c \<and>
    collaborative_schedule frame s = Inr (tcontext tn, s\<lparr>cells := h, task_tag := Some (GeneralTag n),
      current_task := Some n,
      tasks := (tasks s)(n \<mapsto> tn\<lparr>status := TASK_RUNNING\<rparr>, c \<mapsto> tc\<lparr>tcontext := frame\<rparr>)\<rparr>) \<and>
    sched_ok (s\<lparr>cells := h, task_tag := Some (GeneralTag n), current_task := Some n,
      tasks := (tasks s)(n \<mapsto> tn\<lparr>status := TASK_RUNNING\<rparr>, c \<mapsto> tc\<lparr>tcontext := frame\<rparr>)\<rparr>)
      (q(ReadyList := ns))"
proof -
  have l: "linked_cells (valid_lists s) (dom (tasks s)) (cells s) q"
      and cr: "c \<notin> set (q ReadyList)" "\<forall>k\<in>dom (locks s). c \<notin> set (q (Waiters k))"
    using ok c(1) by (auto simp: sched_ok_def linked_def off_lists_ready)
  have nc: "n \<noteq> c" using cr(1) r by auto
  have d: "n \<notin> set ns" using linked_distinct [OF l, of ReadyList] r by simp
  obtain tn where tn: "tasks s n = Some tn" using linked_subset [OF l, of ReadyList] r by auto
  obtain h where h: "list_pop (list_at ReadyList) (cells s) = Inr (Some (GeneralTag n), h)"
      "linked_cells (valid_lists s) (dom (tasks s)) h (q(ReadyList := ns))"
    using linked_pop [OF l _ r] by auto
  have e: "list_empty (list_at ReadyList) (cells s) = Inr False"
    using linked_empty [OF l, of ReadyList] r by simp
  let ?s = "s\<lparr>cells := h, task_tag := Some (GeneralTag n), current_task := Some n,
      tasks := (tasks s)(n \<mapsto> tn\<lparr>status := TASK_RUNNING\<rparr>, c \<mapsto> tc\<lparr>tcontext := frame\<rparr>)\<rparr>"
  have "collaborative_schedule frame s = Inr (tcontext tn, ?s)"
    using c tn h(1) e nc by (simp add: collaborative_schedule_def get_next_task_def step_simps)
  moreover have "dom (tasks ?s) = dom (tasks s)" using tn c(2) by auto
  then have "linked ?s (q(ReadyList := ns))" using h(2) by (simp add: linked_def valid_lists_def)
  then have "sched_ok ?s (q(ReadyList := ns))"
    by (rule sched_ok_switch [OF ok c(1)])
      (use nc d r cr in \<open>auto simp: has_status_def fun_upd_twist\<close>)
  ultimately show ?thesis using tn nc by blast
qed

lemma handler_sleep:
  assumes ok: "timers_ok s q w j" and c: "current_task s = Some c" and ts: "tasks s c = Some ts"
    and f: "is_collaborative_schedule ts" and n: "n \<notin> dom (tnodes (timers s))"
    and r: "q ReadyList = t # rs"
  defines "e \<equiv> j + sleep_millisecond ts"
  shows "\<exists>frame' s'. handler_schedule (Some n) frame s = Done frame' s' \<and>
    timers_ok s' (q(ReadyList := rs)) (put (\<lambda>_. e) j n w) j \<and> current_task s' = Some t \<and>
    sleeping s' (q(ReadyList := rs)) c \<and> tasks s' c = Some (ts\<lparr>tcontext := frame\<rparr>) \<and>
    tnodes (timers s') = (tnodes (timers s))(n \<mapsto> \<lparr>uExpires = e, uPeriod = 0,
      timerFn = Collaborative_Schedule_Helper, pParam = Task_Param c\<rparr>) \<and> \<not> blocked s' \<and>
    marks s' = marks s \<and> slices s' = slices s \<and> locks s' = locks s \<and> same_ids s' s"
proof -
  note o = timers_okD [OF ok]
  let ?c = "\<lparr>uExpires = e, uPeriod = 0, timerFn = Collaborative_Schedule_Helper, pParam = Task_Param c\<rparr>"
  let ?q = "q(ReadyList := rs)" and ?w = "put (\<lambda>_. e) j n w"
  obtain u where u: "create_timer (Some Collaborative_Schedule_Helper) (Task_Param c) (sleep_millisecond ts) 0
        (Some n) s = Done (Some n) (s\<lparr>timers := u, blocked := False\<rparr>)"
      "wheel_ok u ?w" "manager_mem u = Some \<lparr>uExitFlag = 0, uJiffies = j\<rparr>"
      "tnodes u = (tnodes (timers s))(n \<mapsto> ?c)"
    using create_timer_run [OF o(1,2) n o(5,6,3) c, of Collaborative_Schedule_Helper "Task_Param c"
        "sleep_millisecond ts" 0] unfolding e_def by auto
  let ?t = "s\<lparr>timers := u, blocked := False\<rparr>"
  have "sched_ok ?t q" using o(5) by (subst sched_ok_frame [of _ s]) auto
  from collaborative_schedule_run [OF this _ _ r, of c ts frame] c ts
  obtain h tn where h: "tasks s t = Some tn" "t \<noteq> c"
      "collaborative_schedule frame ?t = Inr (tcontext tn, ?t\<lparr>cells := h, task_tag := Some (GeneralTag t),
        current_task := Some t,
        tasks := (tasks s)(t \<mapsto> tn\<lparr>status := TASK_RUNNING\<rparr>, c \<mapsto> ts\<lparr>tcontext := frame\<rparr>)\<rparr>)"
      "sched_ok (?t\<lparr>cells := h, task_tag := Some (GeneralTag t), current_task := Some t,
        tasks := (tasks s)(t \<mapsto> tn\<lparr>status := TASK_RUNNING\<rparr>, c \<mapsto> ts\<lparr>tcontext := frame\<rparr>)\<rparr>) ?q"
    by auto
  let ?s = "?t\<lparr>cells := h, task_tag := Some (GeneralTag t), current_task := Some t,
      tasks := (tasks s)(t \<mapsto> tn\<lparr>status := TASK_RUNNING\<rparr>, c \<mapsto> ts\<lparr>tcontext := frame\<rparr>)\<rparr>"
  have run: "handler_schedule (Some n) frame s = Done (tcontext tn) ?s"
    using c ts f u(1) h(3) by (simp add: handler_schedule_def step_simps lift_val_def)
  have dom: "dom (tasks ?s) = dom (tasks s)" using h(1) ts by auto
  have slc: "sleeping ?s ?q c"
    using o(5) c ts r h(2) by (auto simp: sleeping_def sched_ok_def off_lists_ready)
  have sl: "sleeping ?s ?q x" if "sleeping s q x" for x
    using that c r dom by (auto simp: sleeping_def off_lists_ready)
  have nm: "n \<notin> members w" using wheel_okD(2) [OF o(1)] n by blast
  have cb: "calls (tnodes u) x = (if x = n then (Collaborative_Schedule_Helper, Task_Param c, False)
      else calls (tnodes (timers s)) x)" for x
    by (simp add: calls_def u(4))
  have other: "\<not> wakes (calls (tnodes (timers s))) x c" if x: "x \<in> members w" for x
    using sleep_okD(4) [OF o(4) x] c by (auto simp: sleeping_def)
  have "sleep_ok (calls (tnodes u)) (insert n (members w)) ?s ?q"
    unfolding sleep_ok_def
  proof (intro conjI ballI allI impI)
    fix x assume "x \<in> insert n (members w)"
    then show "fst (calls (tnodes u) x) = Clean_Dead_Task \<or> (\<exists>t. wakes (calls (tnodes u)) x t \<and> sleeping ?s ?q t)"
      using slc sl sleep_okD(4) [OF o(4), of x] unfolding cb by (cases "x = n") auto
  next
    fix x y z assume "x \<in> insert n (members w)" "y \<in> insert n (members w)"
      "wakes (calls (tnodes u)) x z \<and> wakes (calls (tnodes u)) y z"
    then show "x = y"
      using other [of x] other [of y] sleep_okD(5) [OF o(4), of x y z] unfolding cb
      by (auto split: if_splits)
  qed (use h(4) o(6) sleep_okD(3) [OF o(4)] in auto)
  then have "timers_ok ?s ?q ?w j"
    using u(2,3) o(3) by (simp add: timers_ok_def members_put)
  moreover have "marks ?s = marks s" "slices ?s = slices s" "same_ids ?s s"
    using h(1) ts by (auto simp: marks_def slices_def same_ids_def fun_eq_iff)
  ultimately show ?thesis using run slc h(2) u(4) by (intro exI [of _ "tcontext tn"] exI [of _ ?s]) simp
qed

text \<open>When \<open>malloc\<close> fails the task is taken off the processor all the same, and no timer wakes it.\<close>

lemma handler_sleep_lost:
  assumes ok: "timers_ok s q w j" and c: "current_task s = Some c" and ts: "tasks s c = Some ts"
    and f: "is_collaborative_schedule ts" and r: "q ReadyList = t # rs"
  shows "\<exists>frame' s'. handler_schedule None frame s = Done frame' s' \<and>
    timers_ok s' (q(ReadyList := rs)) w j \<and> current_task s' = Some t \<and>
    sleeping s' (q(ReadyList := rs)) c \<and> (\<forall>n\<in>members w. \<not> wakes (calls (tnodes (timers s'))) n c)"
proof -
  note o = timers_okD [OF ok]
  from collaborative_schedule_run [OF o(5) c ts r, of frame]
  obtain h tn where h: "tasks s t = Some tn" "t \<noteq> c"
      "collaborative_schedule frame s = Inr (tcontext tn, s\<lparr>cells := h, task_tag := Some (GeneralTag t),
        current_task := Some t,
        tasks := (tasks s)(t \<mapsto> tn\<lparr>status := TASK_RUNNING\<rparr>, c \<mapsto> ts\<lparr>tcontext := frame\<rparr>)\<rparr>)"
      "sched_ok (s\<lparr>cells := h, task_tag := Some (GeneralTag t), current_task := Some t,
        tasks := (tasks s)(t \<mapsto> tn\<lparr>status := TASK_RUNNING\<rparr>, c \<mapsto> ts\<lparr>tcontext := frame\<rparr>)\<rparr>)
        (q(ReadyList := rs))"
    by blast
  let ?s = "s\<lparr>cells := h, task_tag := Some (GeneralTag t), current_task := Some t,
      tasks := (tasks s)(t \<mapsto> tn\<lparr>status := TASK_RUNNING\<rparr>, c \<mapsto> ts\<lparr>tcontext := frame\<rparr>)\<rparr>"
  have "handler_schedule None frame s = Done (tcontext tn) ?s"
    using c ts f h(3) o(7) by (simp add: handler_schedule_def step_simps lift_val_def create_timer_def)
  moreover have "timers_ok ?s (q(ReadyList := rs)) w j"
    by (rule timers_ok_switch [OF ok c h(4)]) (use r h(1) ts in auto)
  moreover have "sleeping ?s (q(ReadyList := rs)) c"
    using o(5) c ts r h(2) by (auto simp: sleeping_def sched_ok_def off_lists_ready)
  moreover have "\<not> wakes (calls (tnodes (timers s))) x c" if x: "x \<in> members w" for x
    using sleep_okD(4) [OF o(4) x] c by (auto simp: sleeping_def)
  ultimately show ?thesis by (intro exI [of _ "tcontext tn"] exI [of _ ?s]) simp
qed


section \<open>The whole interrupt\<close>

text \<open>The first two steps, before the choice of the task to run.\<close>

lemma interrupt_front:
  assumes ok: "timers_ok s q w j" and c: "current_task s = Some c" "tasks s c = Some ts"
    and magic: "stack_magic ts = 0x19991120"
    and k: "unat j + k = Suc (unat (get_jiffies clock))" "Suc (unat (get_jiffies clock)) < 2 ^ 32"
  shows "\<exists>s' w' wk. interrupt_timer_handler client clock new frame s = handler_schedule new frame s' \<and>
    timers_ok s' (wake_list wk q) w' (get_jiffies clock + 1) \<and>
    (tnodes (timers s'), w') = turns k j (tnodes (timers s), w) \<and>
    set wk = {t. \<exists>n\<in>members w - members w'. wakes (calls (tnodes (timers s))) n t} \<and>
    distinct wk \<and> c \<notin> set wk \<and> members w' \<subseteq> members w \<and>
    (\<forall>n\<in>members w'. calls (tnodes (timers s')) n = calls (tnodes (timers s)) n) \<and> slices s' = refill (set wk) (slices s) \<and>
    marks s' = (\<lambda>t. if t \<in> set wk then Some False else marks s t) \<and>
    tasks s' c = Some (ts\<lparr>elapsed_ticks := elapsed_ticks ts + 1\<rparr>) \<and>
    current_task s' = Some c \<and> locks s' = locks s \<and> same_ids s' s \<and> \<not> blocked s'"
proof -
  let ?ts = "ts\<lparr>elapsed_ticks := elapsed_ticks ts + 1\<rparr>"
  let ?s = "s\<lparr>tasks := (tasks s)(c \<mapsto> ?ts), total_ticks := total_ticks s + 1\<rparr>"
  note cnt = handler_count_run [OF ok c magic]
  obtain s' w' wk where r: "handler_timers client clock ?s = Done () s'"
      "timers_ok s' (wake_list wk q) w' (get_jiffies clock + 1)"
      "(tnodes (timers s'), w') = turns k j (tnodes (timers s), w)"
      "set wk = {t. \<exists>n\<in>members w - members w'. wakes (calls (tnodes (timers s))) n t}" "distinct wk"
      "tasks s' = (\<lambda>t. if t \<in> set wk then map_option woken_task (tasks ?s t) else tasks ?s t)"
      "current_task s' = Some c" "locks s' = locks s" "same_ids s' ?s" "\<not> blocked s'" "members w' \<subseteq> members w"
      "\<forall>n\<in>members w'. calls (tnodes (timers s')) n = calls (tnodes (timers s)) n"
    using handler_timers_run [OF cnt(2), of c k clock client] c(1) k by auto
  have wk: "t \<noteq> c \<and> t \<in> dom (tasks s)" if t: "t \<in> set wk" for t
  proof -
    obtain n where "n \<in> members w" "wakes (calls (tnodes (timers s))) n t" using t r(4) by auto
    then show ?thesis using sleep_okD(4) [OF timers_okD(4) [OF ok], of n] c(1) by (auto simp: sleeping_def)
  qed
  then have "c \<notin> set wk" "tasks s' c = Some ?ts" using r(6) by auto
  moreover have "slices s' = refill (set wk) (slices s)"
    using c(2) \<open>c \<notin> set wk\<close> by (auto simp: r(6) slices_def refill_def woken_task_def fun_eq_iff option.map_comp comp_def)
  moreover have "marks s' t = (if t \<in> set wk then Some False else marks s t)" for t
  proof (cases "t \<in> set wk")
    case True
    then obtain tt where "tasks s t = Some tt" using wk by blast
    then show ?thesis using True wk by (simp add: r(6) marks_def woken_task_def)
  qed (use c(2) in \<open>simp add: r(6) marks_def\<close>)
  then have "marks s' = (\<lambda>t. if t \<in> set wk then Some False else marks s t)" by (rule ext)
  moreover have "same_ids s' s" using r(9) by (simp add: same_ids_def)
  ultimately show ?thesis
    using cnt(1) r(1-5,7,8,10-12) by (intro exI [of _ s'] exI [of _ w'] exI [of _ wk]) (simp add: interrupt_timer_handler_def)
qed

text \<open>
  What a sleeping task needs from the rest of the program: memory for its timer, and another
  task that is ready.
\<close>

text \<open>
  The memory of the abstract timers after the alarm: a task that has asked to sleep gets its timer.
\<close>

definition wake_node :: "32 word \<Rightarrow> nat \<Rightarrow> timer_node" where
  "wake_node e t = \<lparr>uExpires = e, uPeriod = 0, timerFn = Collaborative_Schedule_Helper,
     pParam = Task_Param t\<rparr>"

definition set_wake :: "32 word \<Rightarrow> nat \<Rightarrow> nat \<Rightarrow> 32 word \<Rightarrow> timer_abs \<Rightarrow> timer_abs" where
  "set_wake j n t ms = (\<lambda>(nd, w). (nd(n \<mapsto> wake_node (j + ms) t), put (\<lambda>_. j + ms) j n w))"

lemma handler_schedule_ok:
  assumes ok: "timers_ok s q w j" and c: "current_task s = Some c" "tasks s c = Some ts"
    and sl: "is_collaborative_schedule ts \<longrightarrow> (\<exists>n. new = Some n \<and> n \<notin> dom (tnodes (timers s))) \<and> q ReadyList \<noteq> []"
  defines "nt \<equiv> next_task (is_collaborative_schedule ts) (ticks ts) c (q ReadyList)"
  shows "\<exists>frame' s' w'. handler_schedule new frame s = Done frame' s' \<and>
    timers_ok s' (q(ReadyList := snd nt)) w' j \<and> current_task s' = Some (fst nt) \<and> marks s' = marks s \<and>
    slices s' = next_slices (is_collaborative_schedule ts) (ticks ts) c (slices s) \<and>
    locks s' = locks s \<and> same_ids s' s \<and>
    (\<not> is_collaborative_schedule ts \<and> ticks ts \<noteq> 0 \<longrightarrow> frame' = frame) \<and>
    (tnodes (timers s'), w') = (if is_collaborative_schedule ts
       then set_wake j (the new) c (sleep_millisecond ts) (tnodes (timers s), w) else (tnodes (timers s), w))"
proof (cases "is_collaborative_schedule ts")
  case True
  then obtain n where n: "new = Some n" "n \<notin> dom (tnodes (timers s))" and "q ReadyList \<noteq> []" using sl by blast
  then obtain t rs where r: "q ReadyList = t # rs" by (cases "q ReadyList") auto
  have "nt = (t, rs)" using True r by (simp add: nt_def next_task_def)
  then show ?thesis
    using handler_sleep [OF ok c True n(2) r, of frame] n(1) True
    by (auto simp: next_slices_def set_wake_def wake_node_def)
next
  case False
  show ?thesis
  proof (cases "ticks ts = 0")
    case True
    then have "nt = (hd (q ReadyList @ [c]), tl (q ReadyList @ [c]))" using False by (simp add: nt_def next_task_def)
    then show ?thesis
      using handler_slice [OF ok c False True, of new frame] False True by (auto simp: next_slices_def)
  next
    case ticks: False
    then have "nt = (c, q ReadyList)" using False by (simp add: nt_def next_task_def)
    then show ?thesis
      using handler_tick(1) [OF ok c False ticks, of new frame] handler_tick(2-4) [OF ok c False ticks] False ticks c(1)
      by (simp add: next_slices_def same_ids_def)
  qed
qed

lemma marks_blocked [simp]: "marks (s\<lparr>blocked := b\<rparr>) = marks s"
  by (simp add: marks_def fun_eq_iff)

lemma timers_ok_blocked: "timers_ok (s\<lparr>blocked := b\<rparr>) q w j = timers_ok s q w j"
proof -
  have "sched_ok (s\<lparr>blocked := b\<rparr>) q = sched_ok s q" by (rule sched_ok_frame) simp_all
  then show ?thesis by (simp add: timers_ok_def sleep_ok_def sleeping_def valid_lists_def)
qed

text \<open>
  The interrupt keeps the state in order, and is an alarm of the abstract machine: the timers that
  are due run, the tasks they wake go to the end of the ready list, and the scheduler chooses.
\<close>

lemma interrupt_run:
  assumes ok: "timers_ok s q w j" and c: "current_task s = Some c" "tasks s c = Some ts"
    and magic: "stack_magic ts = 0x19991120"
    and k: "unat j + k = Suc (unat (get_jiffies clock))" "Suc (unat (get_jiffies clock)) < 2 ^ 32"
    and sl: "is_collaborative_schedule ts \<longrightarrow>
      (\<exists>n. new = Some n \<and> n \<notin> dom (tnodes (timers s))) \<and> q ReadyList \<noteq> []"
  defines "b \<equiv> is_collaborative_schedule ts" and "x \<equiv> turns k j (tnodes (timers s), w)"
  shows "\<exists>frame' s' w' wk nt. signal_headler client clock new frame s = Done frame' s' \<and>
    distinct wk \<and> set wk = {t. \<exists>n\<in>members w - members (snd x). wakes (calls (tnodes (timers s))) n t} \<and>
    nt = next_task b (ticks ts) c (q ReadyList @ wk) \<and>
    timers_ok s' (q(ReadyList := snd nt)) w' (get_jiffies clock + 1) \<and> current_task s' = Some (fst nt) \<and>
    marks s' = (\<lambda>t. if t \<in> set wk then Some False else marks s t) \<and>
    slices s' = next_slices b (ticks ts) c (refill (set wk) (slices s)) \<and>
    (tnodes (timers s'), w') =
      (if b then set_wake (get_jiffies clock + 1) (the new) c (sleep_millisecond ts) x else x) \<and>
    locks s' = locks s \<and> same_ids s' s \<and> \<not> blocked s' \<and> c \<notin> set wk \<and> members (snd x) \<subseteq> members w \<and>
    (\<forall>n\<in>members (snd x). calls (fst x) n = calls (tnodes (timers s)) n) \<and>
    (\<not> b \<and> ticks ts \<noteq> 0 \<longrightarrow> frame' = frame)"
proof -
  let ?b = "s\<lparr>blocked := True\<rparr>" and ?ts = "ts\<lparr>elapsed_ticks := elapsed_ticks ts + 1\<rparr>"
  have same: "slices ?b = slices s" "same_ids u ?b = same_ids u s" "timers ?b = timers s" "locks ?b = locks s" for u
    by (simp_all add: slices_def same_ids_def fun_eq_iff)
  have b: "timers_ok ?b q w j" "current_task ?b = Some c" "tasks ?b c = Some ts"
    using ok c by (simp_all add: timers_ok_blocked)
  note front = interrupt_front [OF b magic k, of client new frame, unfolded same marks_blocked, folded x_def]
  obtain s1 w1 wk where r:
      "interrupt_timer_handler client clock new frame ?b = handler_schedule new frame s1"
      "timers_ok s1 (wake_list wk q) w1 (get_jiffies clock + 1)"
      "(tnodes (timers s1), w1) = x" "tasks s1 c = Some ?ts" "current_task s1 = Some c"
      "set wk = {t. \<exists>n\<in>members w - members w1. wakes (calls (tnodes (timers s))) n t}"
      "distinct wk" "c \<notin> set wk" "slices s1 = refill (set wk) (slices s)"
      "marks s1 = (\<lambda>t. if t \<in> set wk then Some False else marks s t)"
      "locks s1 = locks s" "same_ids s1 s" "members w1 \<subseteq> members w"
      "\<forall>n\<in>members w1. calls (tnodes (timers s1)) n = calls (tnodes (timers s)) n"
    using front by (elim exE conjE) (rule that; assumption)
  have "dom (tnodes (timers s1)) \<subseteq> dom (tnodes (timers s))"
    using turns_dom [of k j "(tnodes (timers s), w)"] unfolding x_def [symmetric] r(3) [symmetric] by simp
  then have "is_collaborative_schedule ?ts \<longrightarrow>
      (\<exists>n. new = Some n \<and> n \<notin> dom (tnodes (timers s1))) \<and> wake_list wk q ReadyList \<noteq> []"
    using sl by (fastforce simp: wake_list_def)
  note h0 = handler_schedule_ok [OF r(2,5,4) this, of frame]
  define nt where "nt = next_task b (ticks ts) c (q ReadyList @ wk)"
  have q: "(wake_list wk q)(ReadyList := rs) = q(ReadyList := rs)" "wake_list wk q ReadyList = q ReadyList @ wk" for rs
    by (simp_all add: wake_list_def)
  have ts: "is_collaborative_schedule ?ts = b" "ticks ?ts = ticks ts" "sleep_millisecond ?ts = sleep_millisecond ts"
    by (simp_all add: b_def)
  obtain frame' s' w' where h: "handler_schedule new frame s1 = Done frame' s'"
      "timers_ok s' (q(ReadyList := snd nt)) w' (get_jiffies clock + 1)" "current_task s' = Some (fst nt)"
      "marks s' = marks s1" "slices s' = next_slices b (ticks ts) c (slices s1)" "locks s' = locks s1"
      "same_ids s' s1" "(tnodes (timers s'), w') =
        (if b then set_wake (get_jiffies clock + 1) (the new) c (sleep_millisecond ts) x else x)"
      "\<not> b \<and> ticks ts \<noteq> 0 \<longrightarrow> frame' = frame"
    using h0 [unfolded q ts r(3), folded nt_def] by (elim exE conjE) (rule that; assumption)
  have "signal_headler client clock new frame s = Done frame' (s'\<lparr>blocked := False\<rparr>)"
    using r(1) h(1) by (simp add: signal_headler_def)
  moreover have "w1 = snd x" "tnodes (timers s1) = fst x" by (simp_all add: r(3) [symmetric])
  moreover have "slices (s'\<lparr>blocked := False\<rparr>) = slices s'" "same_ids (s'\<lparr>blocked := False\<rparr>) s"
    using same_ids_trans [OF h(7) r(12)] by (simp_all add: slices_def same_ids_def fun_eq_iff)
  ultimately show ?thesis
    using r(6-11,13,14) h(2-9)
    by (intro exI [of _ frame'] exI [of _ "s'\<lparr>blocked := False\<rparr>"] exI [of _ w'] exI [of _ wk] exI [of _ nt])
      (simp add: timers_ok_blocked nt_def)
qed

text \<open>
  A task whose timer is due is ready or runs, with its mark taken away; a timer that is not due
  waits on.
\<close>

lemma set_wake_pending:
  assumes ok: "wheel_ok ts w" and x: "(tnodes ts, w) = set_wake j n c ms x" and ms: "unat j + unat ms < 2 ^ 32"
  shows "pending n (wake_node (j + ms) c) (fires_after (unat (j + ms)) (unat ms)) j (tnodes ts, w)"
proof -
  have e: "unat j + unat ms = unat (j + ms)" using ms by (simp add: unat_word_ariths(1))
  have "waits n (wake_node (j + ms) c) (timer_slot (j + ms) j) (tnodes ts, w)"
    using x wheel_ok_apart [OF ok] by (cases x) (auto simp: set_wake_def waits_def put_def Let_def)
  then have "pending n (wake_node (j + ms) c) (fires_after (unat (uExpires (wake_node (j + ms) c))) (unat ms)) j (tnodes ts, w)"
    by (intro placed_pending) (use e in \<open>simp_all add: wake_node_def\<close>)
  then show ?thesis by (simp add: wake_node_def)
qed

lemma pending_set_wake:
  assumes "pending m d r j (nd, w)" and "n \<notin> dom nd" and "n \<notin> members w"
  shows "pending m d r j (set_wake j n t ms (nd, w))"
  using pending_put [OF assms] by (simp add: set_wake_def)

lemma pending_alarm:
  assumes ok: "timers_ok s q w j"
    and k: "unat j + k = Suc (unat (get_jiffies clock))" "Suc (unat (get_jiffies clock)) < 2 ^ 32"
    and new: "b \<Longrightarrow> n \<notin> dom (tnodes (timers s))" and p: "pending m (wake_node e t) r j (tnodes (timers s), w)"
  defines "x \<equiv> turns k j (tnodes (timers s), w)"
  assumes sub: "members (snd x) \<subseteq> members w"
  shows "if r < k then \<exists>m\<in>members w - members (snd x). wakes (calls (tnodes (timers s))) m t
    else pending m (wake_node e t) (r - k) (get_jiffies clock + 1)
      (if b then set_wake (get_jiffies clock + 1) n c ms x else x)"
proof -
  have j': "j + of_nat k = get_jiffies clock + 1"
    using k by (simp add: word_eq_iff_unsigned [where ?'a = nat] unat_word_ariths(1) unat_of_nat)
  have m: "m \<in> members w" "wakes (calls (tnodes (timers s))) m t"
    using pending_member [OF p] by (simp_all add: wake_node_def calls_def)
  show ?thesis
  proof (cases "r < k")
    case True
    then have "m \<notin> members (snd x)"
      using pending_turns [OF p, of k] by (auto simp: wake_node_def x_def gone_def)
    then show ?thesis using True m by auto
  next
    case False
    then have x: "pending m (wake_node e t) (r - k) (get_jiffies clock + 1) x"
      using pending_turns [OF p, of k] by (simp add: wake_node_def x_def j')
    show ?thesis
    proof (cases b)
      case b: True
      have "dom (fst x) \<subseteq> dom (tnodes (timers s))"
        using turns_dom [of k j "(tnodes (timers s), w)"] by (simp add: x_def)
      then have "n \<notin> dom (fst x)" "n \<notin> members (snd x)"
        using new [OF b] wheel_okD(2) [OF timers_okD(1) [OF ok]] sub by auto
      then have "pending m (wake_node e t) (r - k) (get_jiffies clock + 1)
          (set_wake (get_jiffies clock + 1) n c ms (fst x, snd x))"
        using x by (intro pending_set_wake) simp_all
      then show ?thesis using False b by simp
    qed (use x False in simp)
  qed
qed

lemma interrupt_ok:
  assumes ok: "timers_ok s q w j" and c: "current_task s = Some c" "tasks s c = Some ts"
    and magic: "stack_magic ts = 0x19991120"
    and k: "unat j + k = Suc (unat (get_jiffies clock))" "Suc (unat (get_jiffies clock)) < 2 ^ 32"
    and sl: "is_collaborative_schedule ts \<Longrightarrow>
      (\<exists>n. new = Some n \<and> n \<notin> dom (tnodes (timers s))) \<and> q ReadyList \<noteq> []"
  shows "\<exists>frame' s' q' w'. signal_headler client clock new frame s = Done frame' s' \<and>
    timers_ok s' q' w' (get_jiffies clock + 1) \<and> \<not> blocked s' \<and>
    (\<forall>n t e r. pending n (wake_node e t) r j (tnodes (timers s), w) \<longrightarrow>
       (if r < k then (t \<in> set (q' ReadyList) \<or> current_task s' = Some t) \<and> marks s' t = Some False
        else pending n (wake_node e t) (r - k) (get_jiffies clock + 1) (tnodes (timers s'), w')))"
proof -
  let ?b = "is_collaborative_schedule ts" and ?x = "turns k j (tnodes (timers s), w)"
  have "?b \<longrightarrow> (\<exists>n. new = Some n \<and> n \<notin> dom (tnodes (timers s))) \<and> q ReadyList \<noteq> []"
    using sl by simp
  from interrupt_run [OF ok c magic k this, where client = client and frame = frame]
  obtain frame' s' w' wk nt where r: "signal_headler client clock new frame s = Done frame' s'"
      "set wk = {t. \<exists>n\<in>members w - members (snd ?x). wakes (calls (tnodes (timers s))) n t}"
      "nt = next_task ?b (ticks ts) c (q ReadyList @ wk)"
      "timers_ok s' (q(ReadyList := snd nt)) w' (get_jiffies clock + 1)" "current_task s' = Some (fst nt)"
      "marks s' = (\<lambda>t. if t \<in> set wk then Some False else marks s t)"
      "(tnodes (timers s'), w') =
        (if ?b then set_wake (get_jiffies clock + 1) (the new) c (sleep_millisecond ts) ?x else ?x)"
      "\<not> blocked s'" "members (snd ?x) \<subseteq> members w"
    by (elim exE conjE) (rule that; assumption)
  have keeps: "t = fst nt \<or> t \<in> set (snd nt)" if "t \<in> set wk" for t
    using that sl next_task_keeps(1) [of ?b "q ReadyList @ wk" "ticks ts" c]
      next_task_keeps(2) [of ?b "q ReadyList @ wk" "ticks ts" c] unfolding r(3) by (cases ?b) auto
  have "if i < k then (t \<in> set (snd nt) \<or> current_task s' = Some t) \<and> marks s' t = Some False
      else pending n (wake_node e t) (i - k) (get_jiffies clock + 1) (tnodes (timers s'), w')"
    if p: "pending n (wake_node e t) i j (tnodes (timers s), w)" for n t e i
  proof -
    have "?b \<Longrightarrow> the new \<notin> dom (tnodes (timers s))" using sl by auto
    from pending_alarm [OF ok k this p r(9), where c = c and ms = "sleep_millisecond ts"]
    have "if i < k then t \<in> set wk
        else pending n (wake_node e t) (i - k) (get_jiffies clock + 1) (tnodes (timers s'), w')"
      unfolding r(2,7) by simp
    then show ?thesis using r(5,6) keeps by (auto split: if_splits)
  qed
  then show ?thesis
    using r(1,4,8) by (intro exI [of _ frame'] exI [of _ s'] exI [of _ "q(ReadyList := snd nt)"] exI [of _ w']) simp
qed

end
