(* ===== verification/Hook.thy ===== *)
theory Hook
  imports Alarm
begin

text \<open>
  The calls of the C library that \<open>hook.c\<close> replaces: \<open>fcntl\<close>, \<open>socket\<close> and the three kinds of
  sleep. The functions they replace, which \<open>dlsym\<close> finds, are arguments, over a state \<open>'k\<close> of
  the kernel.
\<close>

section \<open>Descriptors\<close>

text \<open>The values of the Linux headers for 64-bit x86.\<close>

abbreviation (input) F_DUPFD :: "32 word" where "F_DUPFD \<equiv> 0"
abbreviation (input) F_GETFD :: "32 word" where "F_GETFD \<equiv> 1"
abbreviation (input) F_SETFD :: "32 word" where "F_SETFD \<equiv> 2"
abbreviation (input) F_GETFL :: "32 word" where "F_GETFL \<equiv> 3"
abbreviation (input) F_SETFL :: "32 word" where "F_SETFL \<equiv> 4"
abbreviation (input) F_GETLK :: "32 word" where "F_GETLK \<equiv> 5"
abbreviation (input) F_SETLK :: "32 word" where "F_SETLK \<equiv> 6"
abbreviation (input) F_SETLKW :: "32 word" where "F_SETLKW \<equiv> 7"
abbreviation (input) O_NONBLOCK :: "32 word" where "O_NONBLOCK \<equiv> 2048"

record fd_attributes =
  domain :: "32 word"
  fd_flag :: "32 word"
  read_timeout :: "32 word"
  wirte_timeout :: "32 word"

text \<open>
  The third argument of \<open>fcntl\<close>: none, an \<open>int\<close> or a pointer. \<open>va_arg\<close> of another kind is
  undefined. \<open>libc\<close>: the functions that are replaced.
\<close>

datatype va = No_Arg | Int_Arg "32 word" | Ptr_Arg "64 word"

record 'k libc =
  libc_fcntl :: "32 word \<Rightarrow> 32 word \<Rightarrow> va \<Rightarrow> 'k \<Rightarrow> 32 word \<times> 'k"
  libc_socket :: "32 word \<Rightarrow> 32 word \<Rightarrow> 32 word \<Rightarrow> 'k \<Rightarrow> 32 word \<times> 'k"
  libc_sleep :: "32 word \<Rightarrow> 32 word"
  libc_nanosleep :: "timespec \<Rightarrow> 32 word"
  libc_usleep :: "32 word \<Rightarrow> 32 word"

definition va_int :: "va \<Rightarrow> (32 word) result" where
  "va_int a = (case a of Int_Arg i \<Rightarrow> Inr i | _ \<Rightarrow> Inl Bad_Access)"

definition va_ptr :: "va \<Rightarrow> (64 word) result" where
  "va_ptr a = (case a of Ptr_Arg p \<Rightarrow> Inr p | _ \<Rightarrow> Inl Bad_Access)"

definition attributes_length :: int where
  "attributes_length = 125100 * 8"

type_synonym fd_table = "nat \<rightharpoonup> fd_attributes"

text \<open>
  \<open>create_fd_attributes\<close> with its guard, which no number passes: the element of the array is
  outside of it when the descriptor is. The value is the table with the entry there, or
  \<open>None\<close> for \<open>NULL\<close>. \<open>malloc_ok\<close>: \<open>malloc\<close> gives memory, which \<open>memset\<close> clears unchecked.
\<close>

definition new_attributes :: fd_attributes where
  "new_attributes = \<lparr>domain = 0, fd_flag = 0, read_timeout = 1000, wirte_timeout = 1000\<rparr>"

definition create_fd_attributes :: "bool \<Rightarrow> 32 word \<Rightarrow> fd_table \<Rightarrow> fd_table option result" where
  "create_fd_attributes malloc_ok fd tab =
     (if sint fd < 0 \<and> sint fd \<ge> attributes_length then Inr None
      else if sint fd < 0 \<or> sint fd \<ge> attributes_length then Inl Out_Of_Bounds
      else case tab (nat (sint fd)) of
             Some _ \<Rightarrow> Inr (Some tab)
           | None \<Rightarrow>
               (if \<not> malloc_ok then Inl Null_Deref
                else Inr (Some (tab(nat (sint fd) \<mapsto> new_attributes)))))"

text \<open>The entry behind the pointer that was returned.\<close>

definition attributes_of :: "32 word \<Rightarrow> fd_table option \<Rightarrow> fd_attributes option" where
  "attributes_of fd t = (case t of None \<Rightarrow> None | Some tab \<Rightarrow> tab (nat (sint fd)))"

definition upd_attributes ::
  "32 word \<Rightarrow> (fd_attributes \<Rightarrow> fd_attributes) \<Rightarrow> fd_table \<Rightarrow> fd_table" where
  "upd_attributes fd f tab = tab(nat (sint fd) := map_option f (tab (nat (sint fd))))"

text \<open>\<open>__LINE__\<close> in the check of the descriptor.\<close>

definition hook_line :: "32 word" where
  "hook_line = 119"

definition fcntl ::
  "'k libc \<Rightarrow> bool \<Rightarrow> 32 word \<Rightarrow> 32 word \<Rightarrow> va \<Rightarrow> sys \<Rightarrow> fd_table \<times> 'k \<Rightarrow>
   (32 word \<times> fd_table \<times> 'k) result" where
  "fcntl c malloc_ok fd cmd arg s = (\<lambda>(tab, k).
     if sint fd < 0 then Inr (hook_line, tab, k)
     else andthen (create_fd_attributes malloc_ok fd tab) (\<lambda>t.
       let tab = (case t of None \<Rightarrow> tab | Some tab \<Rightarrow> tab); attributes = attributes_of fd t in
       if cmd = F_GETFD then
         (let (ret, k) = libc_fcntl c fd cmd No_Arg k in
          case attributes of
            None \<Rightarrow> Inr (ret, tab, k)
          | Some a \<Rightarrow>
              Inr (if fd_flag a AND O_NONBLOCK = 0 then ret AND NOT O_NONBLOCK else ret, tab, k))
       else if cmd = F_SETFD then
         andthen (va_int arg) (\<lambda>param.
         let (_, k) = libc_fcntl c fd cmd (Int_Arg param) k in Inr (0, tab, k))
       else if cmd = F_GETFL then
         (let (ret, k) = libc_fcntl c fd cmd No_Arg k in Inr (ret, tab, k))
       else if cmd = F_SETFL then
         andthen (va_int arg) (\<lambda>param.
         andthen (current_is_hook s) (\<lambda>hook.
         let flag = (if hook \<and> attributes \<noteq> None then param OR O_NONBLOCK else param);
             (ret, k) = libc_fcntl c fd cmd (Int_Arg flag) k in
         Inr (ret,
           if ret = 0 \<and> attributes \<noteq> None then upd_attributes fd (\<lambda>a. a\<lparr>fd_flag := param\<rparr>) tab else tab,
           k)))
       else if cmd = F_GETLK \<or> cmd = F_SETLK \<or> cmd = F_SETLKW then
         andthen (va_ptr arg) (\<lambda>param.
         let (ret, k) = libc_fcntl c fd cmd (Ptr_Arg param) k in Inr (ret, tab, k))
       else if cmd = F_DUPFD then
         andthen (va_int arg) (\<lambda>param.
         let (ret, k) = libc_fcntl c fd cmd (Int_Arg param) k in Inr (ret, tab, k))
       else Inr (0, tab, k)))"

text \<open>
  \<open>socket\<close>. The result of the last \<open>fcntl\<close> is not looked at; the table has an entry, so the
  pointer that is dereferenced is not \<open>NULL\<close>.
\<close>

definition socket ::
  "'k libc \<Rightarrow> bool \<Rightarrow> 32 word \<Rightarrow> 32 word \<Rightarrow> 32 word \<Rightarrow> sys \<Rightarrow> fd_table \<times> 'k \<Rightarrow>
   (32 word \<times> fd_table \<times> 'k) result" where
  "socket c malloc_ok af ty protocol s = (\<lambda>(tab, k).
     andthen (current_is_hook s) (\<lambda>hook.
     if \<not> hook then (let (r, k) = libc_socket c af ty protocol k in Inr (r, tab, k))
     else
       let (fd, k) = libc_socket c af ty protocol k in
       if sint fd < 0 then Inr (fd, tab, k)
       else andthen (create_fd_attributes malloc_ok fd tab) (\<lambda>t.
         case t of
           None \<Rightarrow> Inl Null_Deref
         | Some tab \<Rightarrow>
             (let tab = upd_attributes fd (\<lambda>a. a\<lparr>domain := af\<rparr>) tab;
                  (fl, k) = libc_fcntl c fd F_GETFL (Int_Arg 0) k in
              andthen (fcntl c malloc_ok fd F_SETFL (Int_Arg fl) s (tab, k)) (\<lambda>(_, tab, k).
              Inr (fd, tab, k))))))"

section \<open>Sleeping\<close>

text \<open>
  The loop on the flag of the running task goes on until an interrupt takes the task off the
  processor and its timer clears the flag. \<open>Switch s k\<close> here: the task is in the loop in state
  \<open>s\<close>, and goes on with \<open>k\<close> when an interrupt handler has returned to it.
\<close>

definition sleep_mark :: "sys \<Rightarrow> sys result" where
  "sleep_mark s =
     andthen (current s) (\<lambda>c. upd_task c (\<lambda>ts. ts\<lparr>is_collaborative_schedule := True\<rparr>) s)"

definition set_sleep_time :: "(32 word \<Rightarrow> 32 word) \<Rightarrow> sys \<Rightarrow> sys result" where
  "set_sleep_time f s =
     andthen (current s) (\<lambda>c. upd_task c (\<lambda>ts. ts\<lparr>sleep_millisecond := f (sleep_millisecond ts)\<rparr>) s)"

definition sleep_turn :: "sys \<Rightarrow> (sys, 32 word, sys) advance" where
  "sleep_turn s =
     (case andthen (current s) (task_at s) of
        Inl e \<Rightarrow> Crashed e
      | Inr ts \<Rightarrow> (if is_collaborative_schedule ts then Suspended s (\<lambda>t. t) else Finished 0 s))"

definition sleep_loop :: "sys \<Rightarrow> (sys, 32 word) run" where
  "sleep_loop = drive sleep_turn"

text \<open>The assignments of a sleeping function, or those that are left of them, and its loop.\<close>

definition stores_and_loop :: "(sys \<Rightarrow> sys result) list \<Rightarrow> sys \<Rightarrow> (sys, 32 word) run" where
  "stores_and_loop fs s = bind_run (lift_run (stores fs s)) (\<lambda>_ s. sleep_loop s)"

definition sleep_stores :: "32 word \<Rightarrow> (sys \<Rightarrow> sys result) list" where
  "sleep_stores seconds = [sleep_mark, set_sleep_time (\<lambda>_. seconds * 1000)]"

definition nanosleep_stores :: "timespec \<Rightarrow> (sys \<Rightarrow> sys result) list" where
  "nanosleep_stores req = [sleep_mark, set_sleep_time (\<lambda>_. ucast (tv_sec req * 1000)),
     set_sleep_time (\<lambda>ms. ms + ucast (word_of_int (sint (tv_nsec req) sdiv 1000000) :: 64 word))]"

definition usleep_stores :: "32 word \<Rightarrow> (sys \<Rightarrow> sys result) list" where
  "usleep_stores usec = [sleep_mark, set_sleep_time (\<lambda>_. usec div 1000)]"

definition sleep :: "'k libc \<Rightarrow> 32 word \<Rightarrow> sys \<Rightarrow> (sys, 32 word) run" where
  "sleep c seconds s =
     (case current_is_hook s of
        Inl e \<Rightarrow> Fail e
      | Inr hook \<Rightarrow>
          (if \<not> hook then Done (libc_sleep c seconds) s
           else stores_and_loop (sleep_stores seconds) s))"

definition nanosleep :: "'k libc \<Rightarrow> timespec \<Rightarrow> sys \<Rightarrow> (sys, 32 word) run" where
  "nanosleep c req s =
     (case current_is_hook s of
        Inl e \<Rightarrow> Fail e
      | Inr hook \<Rightarrow>
          (if \<not> hook then Done (libc_nanosleep c req) s
           else stores_and_loop (nanosleep_stores req) s))"

definition usleep :: "'k libc \<Rightarrow> 32 word \<Rightarrow> sys \<Rightarrow> (sys, 32 word) run" where
  "usleep c usec s =
     (case current_is_hook s of
        Inl e \<Rightarrow> Fail e
      | Inr hook \<Rightarrow>
          (if \<not> hook then Done (libc_usleep c usec) s
           else stores_and_loop (usleep_stores usec) s))"

lemma stores_and_loop_Cons:
  "stores_and_loop (f # fs) s = bind_run (lift_run (f s)) (\<lambda>_. stores_and_loop fs)"
  by (cases "f s") (simp_all add: stores_and_loop_def)

section \<open>What the descriptors look like\<close>

lemma guard_never: "\<not> (sint (fd :: 32 word) < 0 \<and> sint fd \<ge> attributes_length)"
  by (simp add: attributes_length_def)

lemma create_out_of_bounds:
  "sint fd < 0 \<or> 1000800 \<le> sint fd \<Longrightarrow> create_fd_attributes m fd tab = Inl Out_Of_Bounds"
  using guard_never [of fd] by (simp add: create_fd_attributes_def attributes_length_def)

lemma create_in_bounds:
  assumes "0 \<le> sint fd" and "sint fd < 1000800" and "m \<or> tab (nat (sint fd)) \<noteq> None"
  shows "\<exists>a. create_fd_attributes m fd tab = Inr (Some (tab(nat (sint fd) \<mapsto> a))) \<and>
    a = (case tab (nat (sint fd)) of None \<Rightarrow> new_attributes | Some a \<Rightarrow> a)"
  using assms by (auto simp: create_fd_attributes_def attributes_length_def split: option.splits)

text \<open>A hooked task gets sockets that do not block, and its own flags are what the table holds.\<close>

lemma setfl_run:
  assumes fd: "0 \<le> sint fd" "sint fd < 1000800" and a: "tab (nat (sint fd)) = Some a"
    and h: "current_is_hook s = Inr True"
    and k: "libc_fcntl c fd F_SETFL (Int_Arg (param OR O_NONBLOCK)) k = (r, k')"
  shows "fcntl c m fd F_SETFL (Int_Arg param) s (tab, k) =
    Inr (r, if r = 0 then tab(nat (sint fd) \<mapsto> a\<lparr>fd_flag := param\<rparr>) else tab, k')"
proof -
  have "create_fd_attributes m fd tab = Inr (Some tab)"
    using fd a by (simp add: create_fd_attributes_def attributes_length_def)
  then show ?thesis
    using fd a h k by (simp add: fcntl_def attributes_of_def va_int_def upd_attributes_def Let_def)
qed

lemma socket_run:
  assumes h: "current_is_hook s = Inr True"
    and so: "libc_socket c af ty proto k = (fd, k1)" "0 \<le> sint fd" "sint fd < 1000800"
    and gf: "libc_fcntl c fd F_GETFL (Int_Arg 0) k1 = (fl, k2)"
    and sf: "libc_fcntl c fd F_SETFL (Int_Arg (fl OR O_NONBLOCK)) k2 = (0, k3)"
    and new: "tab (nat (sint fd)) = None"
  shows "socket c True af ty proto s (tab, k) =
    Inr (fd, tab(nat (sint fd) \<mapsto> new_attributes\<lparr>domain := af, fd_flag := fl\<rparr>), k3)"
proof -
  let ?n = "nat (sint fd)"
  have cr: "create_fd_attributes True fd tab = Inr (Some (tab(?n \<mapsto> new_attributes)))"
    using so(2,3) new by (simp add: create_fd_attributes_def attributes_length_def)
  let ?tab = "tab(?n \<mapsto> new_attributes\<lparr>domain := af\<rparr>)"
  have "fcntl c True fd F_SETFL (Int_Arg fl) s (?tab, k2) =
      Inr (0, tab(?n \<mapsto> new_attributes\<lparr>domain := af, fd_flag := fl\<rparr>), k3)"
    using setfl_run [OF so(2,3) _ h sf, of ?tab "new_attributes\<lparr>domain := af\<rparr>" True] by simp
  then show ?thesis
    using h so(1,2) cr gf by (simp add: socket_def upd_attributes_def Let_def)
qed

section \<open>The way of a sleeping task\<close>

lemma sleep_loop_simps:
  assumes "current_task s = Some c" and "tasks s c = Some ts"
  shows "is_collaborative_schedule ts \<Longrightarrow> sleep_loop s = Switch s sleep_loop"
    and "\<not> is_collaborative_schedule ts \<Longrightarrow> sleep_loop s = Done 0 s"
  using assms by (subst drive.code [of sleep_turn s, folded sleep_loop_def],
      simp add: sleep_turn_def step_simps sleep_loop_def)+

lemma hooked:
  assumes "current_task s = Some c" and "tasks s c = Some ts"
  shows "current_is_hook s = Inr (is_hook ts)"
  using assms by (simp add: current_is_hook_def task_at_def)

definition marked_asleep :: "32 word \<Rightarrow> task_struct \<Rightarrow> task_struct" where
  "marked_asleep ms ts = ts\<lparr>is_collaborative_schedule := True, sleep_millisecond := ms\<rparr>"

lemma sleep_run:
  assumes c: "current_task s = Some c" and t: "tasks s c = Some ts" and h: "is_hook ts"
  defines "st \<equiv> \<lambda>ms. s\<lparr>tasks := (tasks s)(c \<mapsto> marked_asleep ms ts)\<rparr>"
  shows "sleep lc n s = Switch (st (n * 1000)) sleep_loop"
    and "usleep lc n s = Switch (st (n div 1000)) sleep_loop"
    and "nanosleep lc req s = Switch (st (ucast (tv_sec req * 1000) +
      ucast (word_of_int (sint (tv_nsec req) sdiv 1000000) :: 64 word))) sleep_loop"
proof -
  have l: "sleep_loop (st ms) = Switch (st ms) sleep_loop" for ms
    by (rule sleep_loop_simps(1) [of _ c "marked_asleep ms ts"]) (use c in \<open>simp_all add: st_def marked_asleep_def\<close>)
  show "sleep lc n s = Switch (st (n * 1000)) sleep_loop"
    using hooked [OF c t] h c t l [of "n * 1000"]
    by (simp add: sleep_def sleep_stores_def stores_and_loop_def sleep_mark_def set_sleep_time_def step_simps st_def marked_asleep_def)
  show "usleep lc n s = Switch (st (n div 1000)) sleep_loop"
    using hooked [OF c t] h c t l [of "n div 1000"]
    by (simp add: usleep_def usleep_stores_def stores_and_loop_def sleep_mark_def set_sleep_time_def step_simps st_def marked_asleep_def)
  show "nanosleep lc req s = Switch (st (ucast (tv_sec req * 1000) +
      ucast (word_of_int (sint (tv_nsec req) sdiv 1000000) :: 64 word))) sleep_loop"
    using hooked [OF c t] h c t l
    by (simp add: nanosleep_def nanosleep_stores_def stores_and_loop_def sleep_mark_def set_sleep_time_def step_simps st_def marked_asleep_def)
qed

lemma not_hooked:
  assumes "current_task s = Some c" and "tasks s c = Some ts" and "\<not> is_hook ts"
  shows "sleep lc n s = Done (libc_sleep lc n) s"
  using hooked [OF assms(1,2)] assms(3) by (simp add: sleep_def)

text \<open>The loop ends when the mark is gone, whatever the time that was asked for.\<close>

lemma sleep_loop_awake:
  assumes c: "current_task s = Some c" and m: "marks s c = Some False"
  shows "sleep_loop s = Done 0 s"
proof -
  obtain ts where t: "tasks s c = Some ts" "\<not> is_collaborative_schedule ts" using m by (auto simp: marks_def)
  show ?thesis by (rule sleep_loop_simps(2) [OF c t])
qed

text \<open>The rest of \<open>sleep\<close> after its first assignment, in a task whose mark has been taken away.\<close>

lemma sleep_rest_awake:
  assumes c: "current_task s = Some c" and t: "tasks s c = Some ts" "\<not> is_collaborative_schedule ts"
  shows "stores_and_loop (drop 1 (sleep_stores n)) s =
    Done 0 (s\<lparr>tasks := (tasks s)(c \<mapsto> ts\<lparr>sleep_millisecond := n * 1000\<rparr>)\<rparr>)"
proof -
  let ?u = "s\<lparr>tasks := (tasks s)(c \<mapsto> ts\<lparr>sleep_millisecond := n * 1000\<rparr>)\<rparr>"
  have "set_sleep_time (\<lambda>_. n * 1000) s = Inr ?u" using c t(1) by (simp add: set_sleep_time_def step_simps)
  moreover have "sleep_loop ?u = Done 0 ?u"
    by (rule sleep_loop_simps(2) [of _ c "ts\<lparr>sleep_millisecond := n * 1000\<rparr>"]) (use c t(2) in simp_all)
  ultimately show ?thesis by (simp add: sleep_stores_def stores_and_loop_def)
qed

text \<open>The interrupt that finds the running task marked makes its timer and takes it off.\<close>

lemma interrupt_sleeps:
  assumes ok: "timers_ok s q w j" and c: "current_task s = Some c" "tasks s c = Some ts"
    and magic: "stack_magic ts = 0x19991120" and f: "is_collaborative_schedule ts"
    and k: "unat j + k = Suc (unat (get_jiffies clock))" "Suc (unat (get_jiffies clock)) < 2 ^ 32"
    and n: "n \<notin> dom (tnodes (timers s))" and r: "q ReadyList \<noteq> []"
    and ms: "Suc (unat (get_jiffies clock)) + unat (sleep_millisecond ts) < 2 ^ 32"
  defines "e \<equiv> get_jiffies clock + 1 + sleep_millisecond ts"
  shows "\<exists>frame' s' q' w'. signal_headler client clock (Some n) frame s = Done frame' s' \<and>
    timers_ok s' q' w' (get_jiffies clock + 1) \<and> sleeping s' q' c \<and>
    pending n (wake_node e c) (fires_after (unat e) (unat (sleep_millisecond ts)))
      (get_jiffies clock + 1) (tnodes (timers s'), w') \<and>
    map_option tcontext (tasks s' c) = Some frame \<and> current_task s' = Some (hd (q ReadyList))"
proof -
  let ?b = "s\<lparr>blocked := True\<rparr>" and ?j = "get_jiffies clock + 1"
  have "timers_ok ?b q w j" using ok by (simp add: timers_ok_blocked)
  from interrupt_front [OF this _ _ magic k, of c client "Some n" frame] c
  obtain s1 w1 wk where r1:
      "interrupt_timer_handler client clock (Some n) frame ?b = handler_schedule (Some n) frame s1"
      "timers_ok s1 (wake_list wk q) w1 ?j"
      "(tnodes (timers s1), w1) = turns k j (tnodes (timers s), w)"
      "tasks s1 c = Some (ts\<lparr>elapsed_ticks := elapsed_ticks ts + 1\<rparr>)" "current_task s1 = Some c"
    by auto
  let ?ts = "ts\<lparr>elapsed_ticks := elapsed_ticks ts + 1\<rparr>"
  have n1: "n \<notin> dom (tnodes (timers s1))"
    using turns_dom [of k j "(tnodes (timers s), w)"] n by (auto simp: r1(3) [symmetric])
  obtain t rs where rl: "q ReadyList = t # rs" using r by (cases "q ReadyList") auto
  have wl: "wake_list wk q ReadyList = t # (rs @ wk)" using rl by (simp add: wake_list_def)
  from handler_sleep [OF r1(2,5,4) _ n1 wl, of frame] f obtain frame' s' where h:
      "handler_schedule (Some n) frame s1 = Done frame' s'"
      "timers_ok s' ((wake_list wk q)(ReadyList := rs @ wk)) (put (\<lambda>_. e) ?j n w1) ?j"
      "current_task s' = Some t" "sleeping s' ((wake_list wk q)(ReadyList := rs @ wk)) c"
      "tasks s' c = Some (?ts\<lparr>tcontext := frame\<rparr>)"
      "tnodes (timers s') = (tnodes (timers s1))(n \<mapsto> wake_node e c)"
    unfolding e_def wake_node_def by auto
  have ju: "unat ?j = Suc (unat (get_jiffies clock))" using k(2) by (simp add: unat_word_ariths(1))
  have "pending n (wake_node e c) (fires_after (unat e) (unat (sleep_millisecond ts))) ?j
      (tnodes (timers s'), put (\<lambda>_. e) ?j n w1)"
    unfolding e_def
    by (rule set_wake_pending [OF timers_okD(1) [OF h(2), unfolded e_def], where x = "(tnodes (timers s1), w1)"])
      (use h(6) ju ms in \<open>simp_all add: set_wake_def e_def\<close>)
  moreover have "sleeping (s'\<lparr>blocked := False\<rparr>) q' c = sleeping s' q' c" for q'
    by (simp add: sleeping_def valid_lists_def)
  ultimately show ?thesis
    using r1(1) h(1-5) rl
    by (intro exI [of _ frame'] exI [of _ "s'\<lparr>blocked := False\<rparr>"]
        exI [of _ "(wake_list wk q)(ReadyList := rs @ wk)"] exI [of _ "put (\<lambda>_. e) ?j n w1"])
      (simp add: signal_headler_def timers_ok_blocked)
qed

end
