(* ===== verification/Init.thy ===== *)
theory Init
  imports Hook Console
begin

text \<open>
  Starting the library: \<open>init\<close> of \<open>task/init.c\<close> and what it calls, and the end of the timers.
  What \<open>setitimer\<close> returns is an argument.
\<close>

section \<open>The functions\<close>

record itimerval =
  it_interval_sec :: "64 word"
  it_interval_usec :: "64 word"
  it_value_sec :: "64 word"
  it_value_usec :: "64 word"

definition set_ticker :: "(itimerval \<Rightarrow> 32 word) \<Rightarrow> 32 word \<Rightarrow> 32 word" where
  "set_ticker setitimer n_msecs =
     (let n_sec = word_of_int (sint n_msecs sdiv 1000);
          n_usecs = word_of_int (sint n_msecs smod 1000) * 1000 in
      setitimer \<lparr>it_interval_sec = n_sec, it_interval_usec = n_usecs,
        it_value_sec = n_sec, it_value_usec = n_usecs\<rparr>)"

text \<open>
  From here on every alarm runs \<open>signal_headler\<close>. The assignment before the \<open>panic\<close> gives
  \<open>clock_granularity\<close> the value it has.
\<close>

definition interrupt_init :: "(itimerval \<Rightarrow> 32 word) \<Rightarrow> sys \<Rightarrow> sys result" where
  "interrupt_init setitimer s = assert_c (set_ticker setitimer 10 \<noteq> - 1) (Inr s)"

definition init ::
  "alloc_env \<Rightarrow> bool \<Rightarrow> timespec \<Rightarrow> nat option \<Rightarrow> (itimerval \<Rightarrow> 32 word) \<Rightarrow> sys \<Rightarrow> (sys, unit) run" where
  "init env malloc_ok clock new setitimer s =
     bind_run (lift_run (console_init s)) (\<lambda>_ s.
     bind_run (task_init env s) (\<lambda>_ s.
     bind_run (timer_init malloc_ok clock new s) (\<lambda>_ s.
     lift_run (interrupt_init setitimer s))))"

section \<open>The period of the alarm\<close>

lemma set_ticker_ms:
  assumes "0 \<le> sint n"
  shows "set_ticker f n = f \<lparr>it_interval_sec = word_of_int (sint n div 1000),
    it_interval_usec = word_of_int (sint n mod 1000 * 1000),
    it_value_sec = word_of_int (sint n div 1000), it_value_usec = word_of_int (sint n mod 1000 * 1000)\<rparr>"
proof -
  have d: "sint n sdiv 1000 = sint n div 1000"
    using assms by (cases "sint n = 0") (simp_all add: signed_divide_int_def)
  have "sint n smod 1000 = sint n mod 1000"
    using assms by (cases "sint n = 0") (simp_all add: signed_modulo_int_def)
  then show ?thesis by (simp add: set_ticker_def d Let_def)
qed

section \<open>Making a lock\<close>

lemma lock_init_linked:
  assumes l: "linked_cells D T h q" and k: "Waiters k \<notin> D"
    and g: "\<And>c. c \<noteq> HeadOf (Waiters k) \<Longrightarrow> c \<noteq> TailOf (Waiters k) \<Longrightarrow> g c = h c"
      "g (HeadOf (Waiters k)) \<noteq> None" "g (TailOf (Waiters k)) \<noteq> None"
  shows "\<exists>h'. list_init (list_at (Waiters k)) g = Inr h' \<and>
    linked_cells (insert (Waiters k) D) T h' (q(Waiters k := [])) \<and> dom h' = dom g"
proof -
  have nk: "i \<noteq> Waiters k" if "i \<in> D" for i using k that by blast
  have other: "a \<noteq> HeadOf (Waiters k) \<and> a \<noteq> TailOf (Waiters k)"
    if "i \<in> D" "a \<in> list_cells (list_at i) (lview q i)" for i a
    using that(2) nk [OF that(1)] by (auto simp: list_cells_def lview_def)
  have "heap_lists list_at D g (lview q)"
    by (rule heap_lists_cong [OF linked_heap [OF l]]) (use other g(1) in blast)
  moreover have "free_cell list_at D g (lview q) (HeadOf (Waiters k))"
      "free_cell list_at D g (lview q) (TailOf (Waiters k))"
    using g(2,3) other by (auto simp: free_cell_def)
  ultimately obtain h' where h': "list_init (list_at (Waiters k)) g = Inr h'"
      "heap_lists list_at (insert (Waiters k) D) h' ((lview q)(Waiters k := []))" "dom h' = dom g"
    using hl_init [of list_at D g "lview q" "Waiters k"] k by auto
  have "cell_of i t \<in> dom g" if "t \<in> T" for i t
    using l that g(1) [of "cell_of i t"] by (auto simp: linked_cells_def domIff)
  moreover have "set ((q(Waiters k := [])) i) \<subseteq> T" if "i \<in> insert (Waiters k) D" for i
    using linked_subset [OF l] that by (cases "i = Waiters k") auto
  moreover have "lview (q(Waiters k := [])) = (lview q)(Waiters k := [])" by (simp add: lview_upd)
  ultimately have "linked_cells (insert (Waiters k) D) T h' (q(Waiters k := []))"
    using h'(2,3) unfolding linked_cells_def by auto
  then show ?thesis using h'(1,3) by blast
qed

lemma lock_init_queues:
  assumes "sched_ok s q" and k: "k \<notin> dom (locks s)"
    and g: "\<And>c. c \<noteq> HeadOf (Waiters k) \<Longrightarrow> c \<noteq> TailOf (Waiters k) \<Longrightarrow> g c = cells s c"
      "g (HeadOf (Waiters k)) \<noteq> None" "g (TailOf (Waiters k)) \<noteq> None"
  shows "\<exists>h. lock_init k (s\<lparr>cells := g\<rparr>) = Inr (s\<lparr>cells := h, locks := (locks s)(k \<mapsto> free_lock)\<rparr>) \<and>
    sched_ok (s\<lparr>cells := h, locks := (locks s)(k \<mapsto> free_lock)\<rparr>) (q(Waiters k := []))"
proof -
  have l: "linked_cells (valid_lists s) (dom (tasks s)) (cells s) q" and nk: "Waiters k \<notin> valid_lists s"
    using assms(1) k by (auto simp: sched_ok_def linked_def valid_lists_def)
  obtain h where h: "list_init (list_at (Waiters k)) g = Inr h"
      "linked_cells (insert (Waiters k) (valid_lists s)) (dom (tasks s)) h (q(Waiters k := []))"
    using lock_init_linked [OF l nk g] by blast
  let ?s = "s\<lparr>cells := h, locks := (locks s)(k \<mapsto> free_lock)\<rparr>"
  have "valid_lists ?s = insert (Waiters k) (valid_lists s)" by (auto simp: valid_lists_def)
  then have "linked ?s (q(Waiters k := []))" using h(2) by (simp add: linked_def)
  then have "sched_ok ?s (q(Waiters k := []))"
    using assms(1) by (auto simp: sched_ok_def off_lists_ready has_status_def)
  moreover have "lock_init k (s\<lparr>cells := g\<rparr>) = Inr ?s"
    using h(1) by (simp add: lock_init_def sema_init_def step_simps free_lock_def)
  ultimately show ?thesis by blast
qed

section \<open>Starting the library\<close>

lemma console_init_run:
  assumes boot: "boot_state s" and k: "ConsoleLock \<notin> dom (locks s)"
  shows "\<exists>h. console_init s = Inr (s\<lparr>cells := h, locks := (locks s)(ConsoleLock \<mapsto> free_lock)\<rparr>) \<and>
    boot_state (s\<lparr>cells := h, locks := (locks s)(ConsoleLock \<mapsto> free_lock)\<rparr>)"
proof -
  have b: "heap_lists list_at (Waiters ` dom (locks s)) (cells s) (\<lambda>_. [])"
      "\<forall>i. HeadOf i \<in> dom (cells s) \<and> TailOf i \<in> dom (cells s)"
      "Waiters ConsoleLock \<notin> Waiters ` dom (locks s)"
    using boot k by (auto simp: boot_state_def)
  obtain h where h: "list_init (list_at (Waiters ConsoleLock)) (cells s) = Inr h"
      "heap_lists list_at (insert (Waiters ConsoleLock) (Waiters ` dom (locks s))) h (\<lambda>_. [])"
      "\<forall>i. HeadOf i \<in> dom h \<and> TailOf i \<in> dom h"
    using boot_list_init [OF b(1,3,2)] by blast
  have "console_init s = Inr (s\<lparr>cells := h, locks := (locks s)(ConsoleLock \<mapsto> free_lock)\<rparr>)"
    using h(1) by (simp add: console_init_def lock_init_def sema_init_def step_simps free_lock_def)
  moreover have "boot_state (s\<lparr>cells := h, locks := (locks s)(ConsoleLock \<mapsto> free_lock)\<rparr>)"
    using boot h(2,3) by (simp add: boot_state_def)
  ultimately show ?thesis by blast
qed

lemma make_manager_run:
  assumes ok: "sched_ok s q" and k: "TimerLock \<notin> dom (locks s)"
    and n: "tnodes (timers s) = Map.empty" "\<forall>n. tlinks (timers s) (Node n) = None"
  shows "\<exists>s'. make_manager clock s = Inr s' \<and> sched_ok s' (q(Waiters TimerLock := [])) \<and>
    wheel_ok (timers s') (\<lambda>_. []) \<and> tnodes (timers s') = Map.empty \<and>
    manager_mem (timers s') = Some \<lparr>uExitFlag = 0, uJiffies = get_jiffies clock\<rparr> \<and>
    locks s' = (locks s)(TimerLock \<mapsto> free_lock) \<and> tasks s' = tasks s \<and>
    current_task s' = current_task s \<and> same_ids s' s \<and> blocked s' = blocked s"
proof -
  let ?g = "(cells s)(HeadOf (Waiters TimerLock) \<mapsto> \<lparr>prev = None, nxt = None\<rparr>,
      TailOf (Waiters TimerLock) \<mapsto> \<lparr>prev = None, nxt = None\<rparr>)"
  let ?t = "(timers s)\<lparr>timer_manager := True, manager_mem := Some \<lparr>uExitFlag = 0, uJiffies = 0\<rparr>\<rparr>"
  let ?s = "s\<lparr>timers := ?t\<rparr>"
  have "sched_ok ?s q" using ok by (subst sched_ok_frame [of _ s]) simp_all
  from lock_init_queues [OF this, of TimerLock ?g] k obtain h where h:
      "lock_init TimerLock (?s\<lparr>cells := ?g\<rparr>) = Inr (?s\<lparr>cells := h, locks := (locks s)(TimerLock \<mapsto> free_lock)\<rparr>)"
      "sched_ok (?s\<lparr>cells := h, locks := (locks s)(TimerLock \<mapsto> free_lock)\<rparr>) (q(Waiters TimerLock := []))"
    by auto
  let ?u = "?t\<lparr>manager_mem := Some \<lparr>uExitFlag = 0, uJiffies = get_jiffies clock\<rparr>\<rparr>"
  let ?s' = "?s\<lparr>cells := h, locks := (locks s)(TimerLock \<mapsto> free_lock), timers := init_arrays ?u\<rparr>"
  have "make_manager clock s = Inr ?s'"
    using h(1) by (simp add: make_manager_def on_timers_def upd_manager_def manager_at_def Let_def)
  moreover have "sched_ok ?s' (q(Waiters TimerLock := []))"
    using h(2) by (subst sched_ok_frame [of _ "?s\<lparr>cells := h, locks := (locks s)(TimerLock \<mapsto> free_lock)\<rparr>"])
      simp_all
  ultimately show ?thesis
    using init_arrays_ok [of ?u] n by (intro exI [of _ ?s']) (simp add: same_ids_def)
qed

definition first_wheel :: "32 word \<Rightarrow> nat \<Rightarrow> timer_ref \<Rightarrow> nat list" where
  "first_wheel j n = put (\<lambda>_. j + 150000) j n (\<lambda>_. [])"

lemma timer_init_run:
  assumes ok: "sched_ok s q" and k: "TimerLock \<notin> dom (locks s)"
    and n: "tnodes (timers s) = Map.empty" "\<forall>n. tlinks (timers s) (Node n) = None"
    and p: "q PoolList = []" and c: "current_task s = Some c"
  shows "\<exists>s'. timer_init True clock (Some n) s = Done () s' \<and>
    timers_ok s' (q(Waiters TimerLock := [])) (first_wheel (get_jiffies clock) n) (get_jiffies clock) \<and>
    tnodes (timers s') = [n \<mapsto> \<lparr>uExpires = get_jiffies clock + 150000, uPeriod = 150000,
      timerFn = Clean_Dead_Task, pParam = Manager_Param\<rparr>] \<and>
    locks s' = (locks s)(TimerLock \<mapsto> free_lock) \<and> tasks s' = tasks s \<and> current_task s' = Some c \<and>
    same_ids s' s \<and> \<not> blocked s'"
proof -
  let ?j = "get_jiffies clock" and ?q = "q(Waiters TimerLock := [])"
  let ?c = "\<lparr>uExpires = ?j + 150000, uPeriod = 150000, timerFn = Clean_Dead_Task, pParam = Manager_Param\<rparr>"
  obtain s1 where s1: "make_manager clock s = Inr s1" "sched_ok s1 ?q" "wheel_ok (timers s1) (\<lambda>_. [])"
      "tnodes (timers s1) = Map.empty" "manager_mem (timers s1) = Some \<lparr>uExitFlag = 0, uJiffies = ?j\<rparr>"
      "locks s1 = (locks s)(TimerLock \<mapsto> free_lock)" "tasks s1 = tasks s" "current_task s1 = Some c"
      "same_ids s1 s"
    using make_manager_run [OF ok k n] c by auto
  obtain u where u: "create_timer (Some Clean_Dead_Task) Manager_Param 150000 150000 (Some n) s1 =
        Done (Some n) (s1\<lparr>timers := u, blocked := False\<rparr>)"
      "wheel_ok u (first_wheel ?j n)" "manager_mem u = Some \<lparr>uExitFlag = 0, uJiffies = ?j\<rparr>"
      "tnodes u = [n \<mapsto> ?c]"
    using create_timer_run [OF s1(3,5) _ s1(2), of n c Clean_Dead_Task Manager_Param 150000 150000] s1(4,6,8)
    unfolding first_wheel_def by auto
  let ?s = "s1\<lparr>timers := u, blocked := False\<rparr>"
  have "sched_ok ?s ?q" using s1(2) by (subst sched_ok_frame [of _ s1]) simp_all
  moreover have "members (first_wheel ?j n) = {n}"
    by (simp add: first_wheel_def members_put) (simp add: members_def)
  ultimately have "timers_ok ?s ?q (first_wheel ?j n) ?j"
    using u(2-4) s1(6) p by (simp add: timers_ok_def sleep_ok_def calls_def)
  then show ?thesis
    using s1(1,6-9) u(1,4) by (intro exI [of _ ?s]) (simp add: timer_init_def same_ids_def)
qed

lemma init_run:
  assumes boot: "boot_state s" and k: "ConsoleLock \<notin> dom (locks s)" "TimerLock \<notin> dom (locks s)"
    and n: "tnodes (timers s) = Map.empty" "\<forall>n. tlinks (timers s) (Node n) = None"
    and env: "new_task env = Some t" and i: "\<And>v. setitimer v \<noteq> - 1"
  shows "\<exists>s'. init env True clock (Some n) setitimer s = Done () s' \<and>
    timers_ok s' (main_queues t) (first_wheel (get_jiffies clock) n) (get_jiffies clock) \<and>
    current_task s' = Some t \<and> locks s' ConsoleLock = Some free_lock \<and> locks s' TidLock = Some free_lock \<and>
    tasks s' = [t \<mapsto> fresh_task env ''main'' 3 1 TASK_RUNNING False] \<and> \<not> blocked s' \<and>
    main_task s' = Some t \<and> tid_start s' = 1 \<and> task_all_nums s' = 1 \<and>
    pool_map 1000800 (tid_bitmap s') \<and> (\<forall>i. bit_of (tid_bitmap s') i = (i = 0)) \<and>
    tnodes (timers s') = [n \<mapsto> \<lparr>uExpires = get_jiffies clock + 150000, uPeriod = 150000,
      timerFn = Clean_Dead_Task, pParam = Manager_Param\<rparr>]"
proof -
  obtain h where h: "console_init s = Inr (s\<lparr>cells := h, locks := (locks s)(ConsoleLock \<mapsto> free_lock)\<rparr>)"
      "boot_state (s\<lparr>cells := h, locks := (locks s)(ConsoleLock \<mapsto> free_lock)\<rparr>)"
    using console_init_run [OF boot k(1)] by blast
  from task_init_run [OF h(2) env] obtain s1 where s1:
      "task_init env (s\<lparr>cells := h, locks := (locks s)(ConsoleLock \<mapsto> free_lock)\<rparr>) = Done () s1"
      "main_only env t s1" "locks s1 = (locks s)(ConsoleLock \<mapsto> free_lock, TidLock \<mapsto> free_lock)"
      "timers s1 = timers s"
    by auto
  have m: "sched_ok s1 (main_queues t)" "current_task s1 = Some t" "dom (tasks s1) = {t}"
      "tasks s1 t = Some (fresh_task env ''main'' 3 1 TASK_RUNNING False)"
    using s1(2) by (simp_all add: main_only_def)
  have q: "(main_queues t)(Waiters TimerLock := []) = main_queues t" by (auto simp: main_queues_def)
  have "tasks s1 = [t \<mapsto> fresh_task env ''main'' 3 1 TASK_RUNNING False]"
    using m(3,4) by (auto simp: fun_eq_iff domIff)
  moreover obtain s2 where "timer_init True clock (Some n) s1 = Done () s2"
      "timers_ok s2 (main_queues t) (first_wheel (get_jiffies clock) n) (get_jiffies clock)"
      "locks s2 = (locks s1)(TimerLock \<mapsto> free_lock)" "tasks s2 = tasks s1" "current_task s2 = Some t"
      "\<not> blocked s2" "same_ids s2 s1"
      "tnodes (timers s2) = [n \<mapsto> \<lparr>uExpires = get_jiffies clock + 150000, uPeriod = 150000,
        timerFn = Clean_Dead_Task, pParam = Manager_Param\<rparr>]"
    using timer_init_run [OF m(1) _ _ _ _ m(2), of clock n] k n s1(3,4) unfolding q
    by (auto simp: main_queues_def)
  moreover have "set_ticker setitimer 10 \<noteq> - 1" by (simp only: set_ticker_def Let_def i not_False_eq_True)
  ultimately show ?thesis
    using h(1) s1(1-3) by (intro exI [of _ s2]) (simp add: init_def interrupt_init_def same_ids_def main_only_def)
qed

section \<open>Destroying the timers\<close>

lemma destroy_run:
  assumes ok: "wheel_ok (timers s) w" and m: "manager_mem (timers s) = Some m"
  shows "\<exists>s'. destroy_timer_manager s = Inr s' \<and> tnodes (timers s') = tnodes (timers s) |` (- members w) \<and>
    timer_manager (timers s') \<and> manager_at (timers s') = Inl Bad_Access \<and> locks s' TimerLock = None \<and>
    tasks s' = tasks s \<and> current_task s' = current_task s"
proof -
  let ?m = "m\<lparr>uExitFlag := 1\<rparr>" and ?t = "(timers s)\<lparr>manager_mem := Some (m\<lparr>uExitFlag := 1\<rparr>)\<rparr>"
  have mm: "manager_at (timers s) = Inr m" using wheel_okD(4) [OF ok] m by auto
  have "wheel_ok ?t w" using ok by (simp add: wheel_ok_def)
  from delete_arrays_run [OF this] obtain u where u: "delete_arrays ?t = Inr u"
      "wheel_ok u (emptied slots w)" "tnodes u = tnodes (timers s) |` (- members w)"
    by auto
  have t: "timer_manager (timers s)" "timer_manager u" using ok u(2) by (simp_all add: wheel_ok_def)
  have "destroy_timer_manager s = Inr (free_manager (s\<lparr>timers := u\<rparr>))"
    using t(1) mm u(1) by (simp add: destroy_timer_manager_def on_timers_def upd_manager_def)
  then show ?thesis using u(3) t(2) by (simp add: free_manager_def manager_at_def)
qed

text \<open>The pointer stays, so the next alarm reads freed memory.\<close>

lemma handler_after_destroy:
  assumes "timer_manager (timers s)" and "manager_at (timers s) = Inl Bad_Access"
    and "current_task s = Some c" and "tasks s c = Some ts" and "stack_magic ts = 0x19991120"
  shows "signal_headler client clock new frame s = Fail Bad_Access"
proof -
  have "handler_count (s\<lparr>blocked := True\<rparr>) = Inr (s\<lparr>blocked := True,
      tasks := (tasks s)(c \<mapsto> ts\<lparr>elapsed_ticks := elapsed_ticks ts + 1\<rparr>), total_ticks := total_ticks s + 1\<rparr>)"
    using assms(3-5) by (simp add: handler_count_def step_simps)
  then show ?thesis
    using assms(1,2) by (simp add: signal_headler_def interrupt_timer_handler_def handler_timers_def)
qed

end
