(* ===== verification/Trial.thy ===== *)
theory Trial
  imports Demo Init
begin

text \<open>
  Concrete states with timers: the wheel has reached the time 1000, and its timers were put in
  it by the functions of the library.
\<close>

definition blank :: timer_state where
  "blank = \<lparr>tlinks = Map.empty, tnodes = Map.empty, timer_manager = True,
     manager_mem = Some \<lparr>uExitFlag = 0, uJiffies = 1000\<rparr>\<rparr>"

definition t0 :: timer_state where
  "t0 = init_arrays blank"

definition add_node :: "nat \<Rightarrow> callback \<Rightarrow> param \<Rightarrow> 32 word \<Rightarrow> 32 word \<Rightarrow> timer_state \<Rightarrow> timer_state" where
  "add_node n f p per due t = (case insert_timer n due (alloc_node n f p per t) of Inr u \<Rightarrow> u | Inl _ \<Rightarrow> t)"

text \<open>Node \<open>8\<close> cleans the pool, node \<open>7\<close> wakes task \<open>3\<close> in five milliseconds.\<close>

definition t1 :: timer_state where
  "t1 = add_node 8 Clean_Dead_Task Manager_Param 150000 150000 t0"

definition t2 :: timer_state where
  "t2 = add_node 7 Collaborative_Schedule_Helper (Task_Param 3) 0 5 t1"

definition w1 :: "timer_ref \<Rightarrow> nat list" where
  "w1 = put (\<lambda>_. 151000) 1000 8 (\<lambda>_. [])"

definition w2 :: "timer_ref \<Rightarrow> nat list" where
  "w2 = put (\<lambda>_. 1005) 1000 7 w1"

lemma add_node_run:
  assumes "wheel_ok t w" and "n \<notin> dom (tnodes t)" and "manager_mem t = Some m"
  shows "wheel_ok (add_node n f p per due t) (put (\<lambda>_. uJiffies m + due) (uJiffies m) n w)"
    "tnodes (add_node n f p per due t) = (tnodes t)(n \<mapsto>
      \<lparr>uExpires = uJiffies m + due, uPeriod = per, timerFn = f, pParam = p\<rparr>)"
    "manager_mem (add_node n f p per due t) = Some m"
  using insert_timer_run [OF assms, of due f p per] by (auto simp: add_node_def)

lemma t0_ok: "wheel_ok t0 (\<lambda>_. [])" "tnodes t0 = Map.empty"
    "manager_mem t0 = Some \<lparr>uExitFlag = 0, uJiffies = 1000\<rparr>"
  using init_arrays_ok [of blank] by (simp_all add: t0_def blank_def)

lemma t1_ok: "wheel_ok t1 w1" "manager_mem t1 = Some \<lparr>uExitFlag = 0, uJiffies = 1000\<rparr>"
    "tnodes t1 = [8 \<mapsto> \<lparr>uExpires = 151000, uPeriod = 150000, timerFn = Clean_Dead_Task,
      pParam = Manager_Param\<rparr>]"
  using add_node_run [OF t0_ok(1) _ t0_ok(3), of 8 Clean_Dead_Task Manager_Param 150000 150000]
  by (simp_all add: t0_ok t1_def w1_def)

lemma t2_ok: "wheel_ok t2 w2" "manager_mem t2 = Some \<lparr>uExitFlag = 0, uJiffies = 1000\<rparr>"
    "tnodes t2 = [8 \<mapsto> \<lparr>uExpires = 151000, uPeriod = 150000, timerFn = Clean_Dead_Task,
      pParam = Manager_Param\<rparr>, 7 \<mapsto> wake_node 1005 3]"
  using add_node_run [OF t1_ok(1) _ t1_ok(2), of 7 Collaborative_Schedule_Helper "Task_Param 3" 0 5]
  by (simp_all add: t1_ok t2_def w2_def wake_node_def)

lemma w_members: "members w1 = {8}" "members w2 = {7, 8}"
  by (simp_all add: w1_def w2_def members_put) (simp_all add: members_def)

text \<open>Task \<open>1\<close> runs, \<open>2\<close> is ready and \<open>3\<close> sleeps.\<close>

definition q6 :: "(list_id \<times> nat list) list" where
  "q6 = [(ReadyList, [2]), (AllList, [1, 2, 3]), (PoolList, []),
     (Waiters TidLock, []), (Waiters ConsoleLock, []), (Waiters TimerLock, [])]"

definition s6 :: sys where
  "s6 = demo q6 [(1, TASK_RUNNING), (2, TASK_READY), (3, TASK_RUNNING)]
     [(TidLock, free_lock), (ConsoleLock, free_lock), (TimerLock, free_lock)] b1 \<lparr>timers := t2\<rparr>"

lemma s6_ok: "sched_ok s6 (demo_q q6)"
  unfolding s6_def q6_def by (auto simp: demo_eval)

lemma s6_facts: "current_task s6 = Some 1" "tasks s6 1 = Some (demo_task 1 TASK_RUNNING)"
    "timers s6 = t2" "locks s6 TimerLock = Some free_lock" "demo_q q6 ReadyList = [2]"
    "demo_q q6 PoolList = []" "demo_q q6 (Waiters TimerLock) = []"
  by (simp_all add: s6_def q6_def demo_def demo_q_def)

lemma s6_timers: "timers_ok s6 (demo_q q6) w2 1000"
proof -
  have "sleeping s6 (demo_q q6) 3"
    by (auto simp: sleeping_def off_lists_ready s6_def q6_def demo_def demo_q_def demo_task_def split: if_splits)
  then have "sleep_ok (calls (tnodes t2)) (members w2) s6 (demo_q q6)"
    using s6_ok s6_facts(6,7) by (simp add: sleep_ok_def calls_def t2_ok(3) w_members wake_node_def)
  then show ?thesis using t2_ok(1,2) s6_facts(3,4) by (simp add: timers_ok_def)
qed

lemma s6_pending: "pending 7 (wake_node 1005 3) 5 1000 (tnodes t2, w2)"
proof -
  have "timer_slot 1005 1000 = Slot 1 237" by (simp add: timer_slot_nat Let_def)
  then have "waits 7 (wake_node 1005 3) (Slot 1 237) (tnodes t2, w2)"
    using wheel_ok_apart [OF t2_ok(1)] by (simp add: waits_def t2_ok(3) w2_def put_def Let_def)
  then show ?thesis by (simp add: pending_def)
qed

text \<open>The clock, in milliseconds.\<close>

definition at_ms :: "nat \<Rightarrow> timespec" where
  "at_ms n = \<lparr>tv_sec = of_nat (n div 1000), tv_nsec = of_nat (n mod 1000 * 1000000)\<rparr>"

lemma at_ms_1009: "get_jiffies (at_ms 1009) = 1009"
  by (simp add: get_jiffies_def at_ms_def signed_divide_int_def)

text \<open>The same, with task \<open>1\<close> hooked.\<close>

definition s7 :: sys where
  "s7 = s6\<lparr>tasks := (tasks s6)(1 \<mapsto> (demo_task 1 TASK_RUNNING)\<lparr>is_hook := True\<rparr>)\<rparr>"

lemma s7_facts: "current_task s7 = Some 1"
    "tasks s7 1 = Some ((demo_task 1 TASK_RUNNING)\<lparr>is_hook := True\<rparr>)" "timers s7 = t2"
    "demo_q q6 ReadyList = [2]"
  by (simp_all add: s7_def s6_facts)

lemma s7_timers: "timers_ok s7 (demo_q q6) w2 1000"
  unfolding s7_def by (rule timers_ok_upd [OF s6_timers s6_facts(2)]) simp

text \<open>
  A kernel whose state are the flags of its one descriptor, \<open>5\<close>; flag \<open>2\<close> is there from the
  start.
\<close>

definition lc1 :: "32 word libc" where
  "lc1 = \<lparr>libc_fcntl = (\<lambda>fd cmd a k. if cmd = F_SETFL then (0, case a of Int_Arg i \<Rightarrow> i | _ \<Rightarrow> k) else (k, k)),
     libc_socket = (\<lambda>_ _ _ _. (5, 2)), libc_sleep = (\<lambda>_. 0), libc_nanosleep = (\<lambda>_. 0), libc_usleep = (\<lambda>_. 0)\<rparr>"

end
