(* ===== verification/Periodic.thy ===== *)
theory Periodic
  imports Firing
begin

text \<open>
  Timers that run again and again: when a timer with a period comes back, how long it waits, and
  what its expiry is after any number of turns.
\<close>

section \<open>The next run\<close>

text \<open>
  \<open>interval p\<close>: the turns from one run to the next, for a period below 163840 milliseconds. From
  2560 on it is the period; below, only its rest modulo 256 counts.
\<close>

definition interval :: "nat \<Rightarrow> nat" where
  "interval p = (if p < 2560 then Suc ((p - 1) mod 256) else p)"

lemma interval_pos: "0 < p \<Longrightarrow> 0 < interval p" "0 < p \<Longrightarrow> interval p \<le> p"
  using mod_less_eq_dividend [of "p - 1" 256] by (auto simp: interval_def)

lemma fired_pending:
  assumes "fired n c j x" and p: "uPeriod c \<noteq> 0" and j: "unat j + unat (uPeriod c) < 2 ^ 32"
    and lt: "unat (uPeriod c) < 163840"
  shows "pending n (c\<lparr>uExpires := j + uPeriod c\<rparr>) (interval (unat (uPeriod c)) - 1) (j + 1) x"
proof -
  let ?p = "unat (uPeriod c)" and ?c = "c\<lparr>uExpires := j + uPeriod c\<rparr>"
  have w: "waits n ?c (timer_slot (uExpires ?c) j) x" using assms(1) p by (simp add: fired_def)
  have e: "unat j + ?p = unat (uExpires ?c)" using j by (simp add: unat_word_ariths(1))
  have p0: "0 < ?p" using p by (simp add: unat_gt_0)
  have j1: "unat (j + 1) = Suc (unat j)" using unat_next [of j "uExpires ?c"] e p0 by simp
  show ?thesis
  proof (cases "?p < 2560")
    case True
    have "unat (j + 1) + (?p - 1) mod 256 = Suc (unat j) + (?p - 1) mod 256" by (simp only: j1)
    then have "(unat (j + 1) + (?p - 1) mod 256) mod 256 = (Suc (unat j) + (?p - 1)) mod 256"
      by (simp only: mod_add_right_eq)
    moreover have "Suc (unat j) + (?p - 1) = unat (uExpires ?c)" using p0 e by linarith
    ultimately have "(unat (j + 1) + (?p - 1) mod 256) mod 256 = unat (uExpires ?c) mod 256" by simp
    then show ?thesis
      using w slot_place [OF e] True by (simp add: pending_def interval_def)
  next
    case False
    have l: "level ?p = 2" using lt by (simp add: level_def)
    have m: "unat (uExpires ?c) mod 256 < 256" by simp
    have "pending n ?c (?p - 1) (j + 1) x"
    proof (rule pending_higher [where l = 2 and d = "?p - 1"])
      show "waits n ?c (Slot 2 (unat (uExpires ?c) div width 2 mod 64)) x"
        using w slot_place [OF e] False l by simp
      show "unat (j + 1) + (?p - 1) = unat (uExpires ?c)" using j1 e p0 by linarith
      show "unat (j + 1) \<le> unat (uExpires ?c) - unat (uExpires ?c) mod width 2"
        using j1 e m False unfolding width_simps by linarith
      show "?p - 1 = ?p - 1 - early (unat (uExpires ?c)) (unat (uExpires ?c) mod width 2)"
        by (simp add: early_first)
    qed (use lt in simp_all)
    then show ?thesis using False by (simp add: interval_def)
  qed
qed

lemma pending_node: "pending n c r j x \<Longrightarrow> fst x n = Some c"
  by (cases x) (simp add: pending_member)

section \<open>Any number of turns\<close>

text \<open>The time of the run before turn \<open>k\<close>, for a timer whose first run is in the turn after \<open>r\<close> others.\<close>

definition last_run :: "nat \<Rightarrow> nat \<Rightarrow> nat \<Rightarrow> nat" where
  "last_run r i k = r + i * ((k - Suc r) div i)"

lemma last_run_next: "0 < i \<Longrightarrow> i \<le> k \<Longrightarrow> Suc (last_run (i - 1) i k) = last_run 0 i (Suc k)"
  by (cases i) (auto simp: last_run_def le_div_geq)

lemma last_run_later: "Suc (last_run r i k) = last_run (Suc r) i (Suc k)"
  by (simp add: last_run_def)

lemma last_run_first: "k < i \<Longrightarrow> last_run 0 i (Suc k) = 0"
  by (simp add: last_run_def)

lemma periodic_turns:
  assumes "pending n c r j x" and "uPeriod c = p" and p: "p \<noteq> 0" "unat p < 163840"
    and "unat j + k + unat p < 2 ^ 32"
  defines "i \<equiv> interval (unat p)"
  shows "\<exists>r'. pending n
      (if k \<le> r then c else c\<lparr>uExpires := j + of_nat (last_run r i k) + p\<rparr>)
      r' (j + of_nat k) (turns k j x)"
  using assms(1,2,5)
proof (induction k arbitrary: c r j x)
  case (Suc k)
  have j: "unat (j + 1) + k + unat p < 2 ^ 32" using Suc.prems(3) by (simp add: unat_word_ariths(1))
  have i: "0 < i" using interval_pos(1) p(1) by (simp add: i_def unat_gt_0)
  have jk: "j + 1 + of_nat k = j + of_nat (Suc k)" "j + 1 + of_nat m = j + of_nat (Suc m)" for m
    by (simp_all add: add.assoc)
  show ?case
  proof (cases r)
    case 0
    let ?c = "c\<lparr>uExpires := j + p\<rparr>"
    have "fired n c j (turn j x)" using pending_turn [OF Suc.prems(1)] 0 by simp
    then have "pending n ?c (i - 1) (j + 1) (turn j x)"
      using fired_pending [of n c j] Suc.prems(2,3) p by (simp add: i_def)
    from Suc.IH [OF this _ j] Suc.prems(2) obtain r' where
      r: "pending n (if k \<le> i - 1 then ?c else ?c\<lparr>uExpires := j + 1 + of_nat (last_run (i - 1) i k) + p\<rparr>)
        r' (j + 1 + of_nat k) (turns k (j + 1) (turn j x))" by auto
    have "(if k \<le> i - 1 then ?c else ?c\<lparr>uExpires := j + 1 + of_nat (last_run (i - 1) i k) + p\<rparr>) =
        c\<lparr>uExpires := j + of_nat (last_run 0 i (Suc k)) + p\<rparr>"
    proof (cases "k \<le> i - 1")
      case True
      then show ?thesis using last_run_first [of k i] i by simp
    next
      case False
      then have "Suc (last_run (i - 1) i k) = last_run 0 i (Suc k)" using last_run_next i by simp
      then show ?thesis using False unfolding jk(2) by simp
    qed
    then show ?thesis using r 0 unfolding jk(1) by auto
  next
    case (Suc r1)
    then have "pending n c r1 (j + 1) (turn j x)" using pending_turn [OF Suc.prems(1)] by simp
    from Suc.IH [OF this Suc.prems(2) j]
    show ?thesis unfolding jk last_run_later Suc by simp
  qed
qed auto

end
