(* ===== verification/Reentry.thy ===== *)
theory Reentry
  imports Init
begin

text \<open>
  Alarms that come inside other operations: inside the handler itself, after the lock of the
  timers has been released and the alarm is unmasked again; inside \<open>create_timer\<close> of the task
  that holds this lock; and while another task holds it.
\<close>

section \<open>The lock of the timers without the invariant\<close>

lemma release_empty:
  assumes "locks s k = Some (held_lock c 1)" and "current_task s = Some c"
    and "list_empty (list_at (Waiters k)) (cells s) = Inr True"
  shows "lock_release k s = Inr (s\<lparr>locks := (locks s)(k \<mapsto> free_lock), blocked := False\<rparr>)"
  using assms
  by (simp add: lock_release_def drop_defs sema_up_def sema_up_wake_def sema_up_raise_def sema_up_done_def sema_up_check_def
      step_simps held_lock_def free_lock_def)

lemma not_after_suc: "Suc (unat now) < 2 ^ 32 \<Longrightarrow> \<not> time_after_eq now (now + 1)"
  by (simp add: time_after_eq_le word_le_nat_alt unat_word_ariths(1))

lemma run_timer_up_to_date:
  assumes "manager_at (timers s) = Inr m" and "uJiffies m = get_jiffies clock + 1"
    and "Suc (unat (get_jiffies clock)) < 2 ^ 32"
    and l: "locks s TimerLock = Some free_lock" and c: "current_task s = Some c"
    and e: "list_empty (list_at (Waiters TimerLock)) (cells s) = Inr True"
  shows "run_timer client clock s = Done () (s\<lparr>blocked := False\<rparr>)"
proof -
  let ?s = "s\<lparr>locks := (locks s)(TimerLock \<mapsto> held_lock c 1), blocked := False\<rparr>"
  have m: "timer_manager (timers s)" using assms(1) by (auto simp: manager_at_def split: if_splits)
  have "run_loop client (get_jiffies clock) ?s = Some (Inr ?s)"
    using assms(1,2) not_after_suc [OF assms(3)] by (subst run_loop.simps) simp
  moreover have "lock_release TimerLock ?s = Inr (s\<lparr>blocked := False\<rparr>)"
    using release_empty [of ?s TimerLock c] c e fun_upd_idem [of "locks s" TimerLock, OF l] by simp
  ultimately show ?thesis
    using acquire_free_lock(1) [OF l c] m by (simp add: run_timer_def Let_def returns_def)
qed

section \<open>Inside the handler\<close>

text \<open>\<open>schedule\<close> from the store after \<open>list_append\<close> on.\<close>

definition schedule_tail :: "sigcontext \<Rightarrow> nat \<Rightarrow> sys \<Rightarrow> (sigcontext \<times> sys) result" where
  "schedule_tail frame c s =
     andthen (upd_task c (\<lambda>ts. ts\<lparr>ticks := priority ts\<rparr>) s) (\<lambda>s.
     andthen (set_status TASK_READY c s) (\<lambda>s.
     andthen (is_empty ReadyList s) (\<lambda>empty.
     if empty then Inl Idle_Spin
     else andthen (get_next_task s) (\<lambda>(next_task, s).
     andthen (upd_task c (\<lambda>ts. ts\<lparr>tcontext := frame\<rparr>) s) (\<lambda>s.
     let s = s\<lparr>current_task := Some next_task\<rparr> in
     andthen (task_at s next_task) (\<lambda>ts.
     Inr (tcontext ts, s)))))))"

lemma schedule_parts:
  "schedule frame s = andthen (current s) (\<lambda>c. andthen (in_list ReadyList (GeneralTag c) s) (\<lambda>b.
     assert_c (\<not> b) (andthen (append_cell ReadyList (GeneralTag c) s) (schedule_tail frame c))))"
  by (simp add: schedule_def schedule_tail_def [abs_def])

text \<open>
  The alarm comes there, with the clock still in the millisecond up to which the wheel has turned.
  The running task is already on the ready list, and its ticks are still \<open>0\<close>.
\<close>

lemma alarm_in_schedule:
  assumes ok: "timers_ok s q w (get_jiffies clock + 1)" and c: "current_task s = Some c"
    and ts: "tasks s c = Some ts" "stack_magic ts = 0x19991120" "\<not> is_collaborative_schedule ts" "ticks ts = 0"
    and now: "Suc (unat (get_jiffies clock)) < 2 ^ 32"
  shows "\<exists>u. append_cell ReadyList (GeneralTag c) s = Inr u \<and>
    schedule frame s = schedule_tail frame c u \<and> (\<exists>v. schedule_tail frame c u = Inr v) \<and>
    signal_headler client clock new frame' u = Fail Assert_Spin"
proof -
  note o = timers_okD [OF ok]
  let ?q = "q(ReadyList := q ReadyList @ [c])"
  have l: "linked_cells (valid_lists s) (dom (tasks s)) (cells s) q"
      "off_lists (valid_lists s) q ReadyList c" "c \<in> dom (tasks s)"
    using o(5) c by (auto simp: sched_ok_def linked_def)
  have v: "ReadyList \<in> valid_lists s" "Waiters TimerLock \<in> valid_lists s" using o(3) by (auto simp: valid_lists_def)
  obtain h where h: "list_append (list_at ReadyList) (GeneralTag c) (cells s) = Inr h"
      "linked_cells (valid_lists s) (dom (tasks s)) h ?q"
    using linked_append [OF l(1) v(1) l(3,2)] by auto
  let ?u = "s\<lparr>cells := h\<rparr>"
  have e: "list_empty (list_at (Waiters TimerLock)) h = Inr True"
      "elem_find (list_at ReadyList) (GeneralTag c) h = Inr True"
    using linked_empty [OF h(2) v(2)] linked_find [OF h(2) v(1), of c] o(6) by simp_all
  have u: "append_cell ReadyList (GeneralTag c) s = Inr ?u" using h(1) by (simp add: step_simps)
  have "elem_find (list_at ReadyList) (GeneralTag c) (cells s) = Inr False"
    using linked_find [OF l(1) v(1), of c] l(2) by (simp add: off_lists_ready)
  then have t: "schedule frame s = schedule_tail frame c ?u"
    using c u by (simp add: schedule_parts in_list_def current_def)
  let ?v = "?u\<lparr>blocked := True, tasks := (tasks s)(c \<mapsto> ts\<lparr>elapsed_ticks := elapsed_ticks ts + 1\<rparr>),
      total_ticks := total_ticks s + 1\<rparr>"
  have "handler_count (?u\<lparr>blocked := True\<rparr>) = Inr ?v"
    using c ts(1,2) by (simp add: handler_count_def step_simps)
  moreover have "handler_timers client clock ?v = Done () (?v\<lparr>blocked := False\<rparr>)"
    using run_timer_up_to_date [where s = ?v and client = client, OF _ _ now] o(3,8) c e(1)
    by (simp add: handler_timers_def wheel_okD o(7))
  moreover have "handler_schedule new frame' (?v\<lparr>blocked := False\<rparr>) = Fail Assert_Spin"
    using c ts(3,4) e(2) by (simp add: handler_schedule_def schedule_def step_simps lift_val_def)
  ultimately have "signal_headler client clock new frame' ?u = Fail Assert_Spin"
    by (simp add: signal_headler_def interrupt_timer_handler_def)
  then show ?thesis using u t schedule_run [OF o(5) c refl, of frame] by (intro exI [of _ ?u]) auto
qed

text \<open>
  The same from the handler of the first alarm: \<open>run_timer\<close> has released its lock, with which the
  alarm is unmasked, and stays so until \<open>schedule\<close> has put the running task on the ready list.
\<close>

lemma alarm_in_handler:
  assumes ok: "timers_ok s q w j" and c: "current_task s = Some c"
    and ts: "tasks s c = Some ts" "stack_magic ts = 0x19991120" "\<not> is_collaborative_schedule ts" "ticks ts = 0"
    and k: "unat j + k = Suc (unat (get_jiffies clock))" "Suc (unat (get_jiffies clock)) < 2 ^ 32"
  shows "\<exists>s0 s1 u. handler_count (s\<lparr>blocked := True\<rparr>) = Inr s0 \<and> blocked s0 \<and>
    handler_timers client clock s0 = Done () s1 \<and> \<not> blocked s1 \<and>
    append_cell ReadyList (GeneralTag c) s1 = Inr u \<and> \<not> blocked u \<and>
    handler_schedule new frame s1 = lift_val (schedule_tail frame c u) \<and> (\<exists>v. schedule_tail frame c u = Inr v) \<and>
    signal_headler client clock new' frame' u = Fail Assert_Spin"
proof -
  let ?ts = "ts\<lparr>elapsed_ticks := elapsed_ticks ts + 1\<rparr>"
  let ?b = "s\<lparr>blocked := True\<rparr>"
  let ?s0 = "?b\<lparr>tasks := (tasks s)(c \<mapsto> ?ts), total_ticks := total_ticks s + 1\<rparr>"
  have b: "timers_ok ?b q w j" "current_task ?b = Some c" "tasks ?b c = Some ts"
    using ok c ts(1) by (simp_all add: timers_ok_blocked)
  have cnt: "handler_count ?b = Inr ?s0" "timers_ok ?s0 q w j"
    using handler_count_run [OF b ts(2)] by simp_all
  obtain s1 w1 wk where r: "handler_timers client clock ?s0 = Done () s1"
      "timers_ok s1 (wake_list wk q) w1 (get_jiffies clock + 1)"
      "set wk = {t. \<exists>n\<in>members w - members w1. wakes (calls (tnodes (timers s))) n t}"
      "tasks s1 = (\<lambda>t. if t \<in> set wk then map_option woken_task (tasks ?s0 t) else tasks ?s0 t)"
      "current_task s1 = Some c" "\<not> blocked s1"
    using handler_timers_run [OF cnt(2), of c k clock client] c k by auto
  have "c \<notin> set wk"
  proof
    assume "c \<in> set wk"
    then obtain n where "n \<in> members w" "wakes (calls (tnodes (timers s))) n c" using r(3) by auto
    then show False using sleep_okD(4) [OF timers_okD(4) [OF ok], of n] c by (auto simp: sleeping_def)
  qed
  then have t: "tasks s1 c = Some ?ts" by (simp add: r(4))
  obtain u where u: "append_cell ReadyList (GeneralTag c) s1 = Inr u"
      "schedule frame s1 = schedule_tail frame c u" "\<exists>v. schedule_tail frame c u = Inr v"
      "signal_headler client clock new' frame' u = Fail Assert_Spin"
    using alarm_in_schedule [OF r(2,5) t _ _ _ k(2), of frame client new' frame'] ts(2-4) by auto
  have "\<not> blocked u" using u(1) r(6) by (auto simp: step_simps andthen_eq_Inr)
  moreover have "handler_schedule new frame s1 = lift_val (schedule_tail frame c u)"
    using u(2) t r(5) ts(3,4) by (simp add: handler_schedule_def step_simps)
  moreover have "blocked ?s0" by simp
  ultimately show ?thesis using cnt(1) r(1,6) u(1,3,4) by blast
qed

section \<open>While another task has the lock\<close>

text \<open>
  The handler blocks the task it has interrupted. When this task runs again and the lock is free,
  the handler goes on from there, with the time it has read before.
\<close>

lemma alarm_waits:
  assumes ok: "sched_ok s q" and c: "current_task s = Some c" and ts: "tasks s c = Some ts" "stack_magic ts = 0x19991120"
    and m: "manager_at (timers s) = Inr m" "uExitFlag m = 0"
    and l: "locks s TimerLock = Some (held_lock h k)" "h \<noteq> c" and n: "q ReadyList = n # ns"
  shows "\<exists>u f. signal_headler client clock new frame s = Switch u f \<and>
    sched_ok u (q(ReadyList := ns, Waiters TimerLock := q (Waiters TimerLock) @ [c])) \<and>
    current_task u = Some n \<and> locks u = locks s \<and> timers u = timers s \<and> has_status u c TASK_BLOCKED \<and>
    (\<forall>v. locks v TimerLock = Some free_lock \<and> current_task v = Some c \<and> timer_manager (timers v) \<longrightarrow>
      f v = bind_run (bind_run (run_timer client clock v) (\<lambda>_. handler_schedule new frame))
        (\<lambda>frame s. Done frame (s\<lparr>blocked := False\<rparr>)))"
proof -
  let ?v = "s\<lparr>blocked := True, tasks := (tasks s)(c \<mapsto> ts\<lparr>elapsed_ticks := elapsed_ticks ts + 1\<rparr>),
      total_ticks := total_ticks s + 1\<rparr>"
  have hc: "handler_count (s\<lparr>blocked := True\<rparr>) = Inr ?v" using c ts by (simp add: handler_count_def step_simps)
  have "sched_ok (s\<lparr>tasks := (tasks s)(c \<mapsto> ts\<lparr>elapsed_ticks := elapsed_ticks ts + 1\<rparr>)\<rparr>) q"
    by (rule sched_ok_upd [OF ok ts(1)]) simp_all
  then have ok': "sched_ok ?v q" by (subst sched_ok_frame [of _ "s\<lparr>tasks := (tasks s)(c \<mapsto> ts\<lparr>elapsed_ticks := elapsed_ticks ts + 1\<rparr>)\<rparr>"]) simp_all
  have lv: "locks ?v TimerLock = Some (held_lock h k)" "sema_value (sema (held_lock h k)) = 0" "current_task ?v = Some c"
    using l(1) c by (simp_all add: held_lock_def)
  obtain u where u: "acquire_rest TimerLock ?v = Switch u (acquire_rest TimerLock)"
      "sched_ok u (q(ReadyList := ns, Waiters TimerLock := q (Waiters TimerLock) @ [c]))"
      "current_task u = Some n" "locks u = locks ?v" "devices u = devices ?v" "has_status u c TASK_BLOCKED"
    using acquire_rest_blocks [OF ok' lv(1,2) n lv(3)] by blast
  have "interrupt_disable ?v = ?v" by (simp add: step_simps)
  then have a: "lock_acquire TimerLock ?v = Switch u (acquire_rest TimerLock)"
    using lock_acquire_other [OF lv(1)] l(2) c u(1) by (simp add: held_lock_def)
  have tm: "timer_manager (timers s)" using m(1) by (auto simp: manager_at_def split: if_splits)
  let ?f = "\<lambda>v. bind_run (bind_run (bind_run (acquire_rest TimerLock v) (\<lambda>_ s.
      bind_run (lift_run (returns (run_loop client (get_jiffies clock) s))) (\<lambda>_ s.
      lift_run (lock_release TimerLock s)))) (\<lambda>_. handler_schedule new frame))
        (\<lambda>frame s. Done frame (s\<lparr>blocked := False\<rparr>))"
  have "signal_headler client clock new frame s = Switch u ?f"
    using hc a m tm by (simp add: signal_headler_def interrupt_timer_handler_def handler_timers_def
      run_timer_def Let_def)
  moreover have "?f v = bind_run (bind_run (run_timer client clock v) (\<lambda>_. handler_schedule new frame))
      (\<lambda>frame s. Done frame (s\<lparr>blocked := False\<rparr>))"
    if "locks v TimerLock = Some free_lock" "current_task v = Some c" "timer_manager (timers v)" for v
    using acquire_free_lock [OF that(1,2)] that(3) by (simp add: run_timer_def Let_def)
  ultimately show ?thesis
    using u(2-6) by (intro exI [of _ u] exI [of _ ?f]) auto
qed

section \<open>Inside create\_timer\<close>

text \<open>The stores of \<open>list_timer_insert\<close> at the end of a list.\<close>

lemma insert_tail_stores:
  assumes "link_at h a = Inr c"
  shows "list_timer_insert_tail new a h = stores (insert_stores new (pPrev c) a) h"
  using assms by (simp add: list_timer_insert_tail_def list_timer_insert_def)

lemma first_insert_store: "stores (take 1 (insert_stores new before after)) = put_prev after new"
  by (simp add: insert_stores_def fun_eq_iff)

lemma ring_one:
  assumes "ring h a [b]"
  shows "h a = Some \<lparr>pPrev = b, pNext = b\<rparr>" "h b = Some \<lparr>pPrev = a, pNext = a\<rparr>" "a \<noteq> b"
  using assms by (auto simp: ring_def lk_def nextf_def prevf_def split: option.splits)

text \<open>
  The timer is for the slot whose turn it is, in which there is one other timer. The walk over
  the timers of the slot leaves the list and takes the head of the slot for a timer.
\<close>

lemma half_linked_turn:
  assumes w: "wheel_ok (timers s) w" and m: "manager_mem (timers s) = Some \<lparr>uExitFlag = 0, uJiffies = j\<rparr>"
    and a: "a = Slot 1 (unat j mod 256)" "w a = [m]" "unat j mod 256 \<noteq> 0"
    and n: "n \<in> dom (tnodes (timers s))" "n \<notin> members w"
    and cm: "tnodes (timers s) m = Some cm" "uPeriod cm = 0"
    and cb: "\<And>u. cells u = cells s \<Longrightarrow> dom (tasks u) = dom (tasks s) \<Longrightarrow>
      \<exists>u'. run_callback client (timerFn cm) (pParam cm) u = Inr u' \<and> timers u' = timers u"
    and h: "put_prev a (Node n) (tlinks (timers s)) = Inr h"
  shows "timer_turn client (s\<lparr>timers := (timers s)\<lparr>tlinks := h\<rparr>\<rparr>) = Inl Bad_Access"
proof -
  let ?h0 = "tlinks (timers s)"
  have "ring ?h0 a [Node m]"
    using ringsD(1) [OF wheel_okD(1) [OF w], of a] a(1,2) by (simp add: wrefs_def)
  note r = ring_one [OF this]
  have "m \<in> members w" using slot_members [of a w] a by simp
  then have nm: "n \<noteq> m" using n(2) by blast
  obtain ln where ln: "?h0 (Node n) = Some ln" using wheel_okD(3) [OF w, of n] n(1) by auto
  have h': "h = ?h0(a \<mapsto> \<lparr>pPrev = Node n, pNext = Node m\<rparr>)" using h r(1) by (simp add: put_prev_def link_at_def)
  have mg: "timer_manager (timers s)" using w by (simp add: wheel_ok_def)
  have j: "j AND TVR_MASK \<noteq> 0" using tvr_0 a(3) by simp
  let ?h1 = "?h0(a \<mapsto> \<lparr>pPrev = a, pNext = a\<rparr>, Node m \<mapsto> \<lparr>pPrev = Local, pNext = a\<rparr>,
      Local \<mapsto> \<lparr>pPrev = Node n, pNext = Node m\<rparr>, Node n \<mapsto> ln\<lparr>pNext := Local\<rparr>)"
  have rep: "list_timer_replace_init a Local (h(Local \<mapsto> l)) = Inr ?h1" for l
    using r ln nm unfolding h' a(1)
    by (simp add: list_timer_replace_init_def list_timer_replace_def put_next_def put_prev_def link_at_def fun_eq_iff)
  let ?s = "s\<lparr>timers := (timers s)\<lparr>tlinks := ?h1\<rparr>\<rparr>"
  let ?rest = "on_timers (upd_manager (\<lambda>m. m\<lparr>uJiffies := uJiffies m + 1\<rparr>))"
  obtain u where u: "run_callback client (timerFn cm) (pParam cm) ?s = Inr u" "timers u = timers ?s"
    using cb [of ?s] by auto
  have cm': "node_at m (timers u) = Inr cm" using cm(1) u(2) by (simp add: node_at_def)
  obtain v where v: "on_timers (free_node m) u = Inr v"
    using cm' by (simp add: on_timers_def free_node_def)
  have "expire_step client (Node m) ?s = Inr (a, v)"
    using u(1) cm cm' v nm unfolding a(1) by (simp add: expire_step_def link_at_def node_at_def)
  moreover have "expire_loop client a v = Some (Inl Bad_Access)"
    unfolding a(1) by (subst expire_loop.simps) (simp add: expire_step_def)
  ultimately have "expire_loop client (Node m) ?s = Some (Inl Bad_Access)"
    by (subst expire_loop.simps) simp
  then have loop: "returns (expire_loop client (Node m) ?s) = Inl Bad_Access" by (simp add: returns_def)
  let ?t = "s\<lparr>timers := (timers s)\<lparr>tlinks := h\<rparr>\<rparr>"
  have m': "manager_at (timers ?t) = Inr \<lparr>uExitFlag = 0, uJiffies = j\<rparr>" using mg m by (simp add: manager_at_def)
  have "on_timers cascade_all ?t = Inr ?t" using m' j by (simp add: cascade_all_def on_timers_def)
  moreover have "on_timers (\<lambda>ts. on_links (list_timer_replace_init a Local) (new_local ts)) ?t = Inr ?s"
    using rep by (simp add: on_timers_def on_links_def new_local_def)
  moreover have "link_at (tlinks (timers ?s)) Local = Inr \<lparr>pPrev = Node n, pNext = Node m\<rparr>"
    using nm by (simp add: link_at_def)
  moreover have "Slot 1 (unat (j AND TVR_MASK)) = a" by (simp add: a(1) and_tvr)
  ultimately show ?thesis using m' loop by (simp only: timer_turn_def Let_def andthen_Inr andthen_Inl manager.simps list_timer.simps)
qed

lemma alarm_in_insert:
  assumes w: "wheel_ok (timers s) w" and m: "manager_mem (timers s) = Some \<lparr>uExitFlag = 0, uJiffies = j\<rparr>"
    and a: "a = Slot 1 (unat j mod 256)" "w a = [m]" "unat j mod 256 \<noteq> 0"
    and n: "tnodes (timers s) n = Some cn" "n \<notin> members w" "timer_slot (uExpires cn) j = a"
    and cm: "tnodes (timers s) m = Some cm" "uPeriod cm = 0"
    and cb: "\<And>u. cells u = cells s \<Longrightarrow> dom (tasks u) = dom (tasks s) \<Longrightarrow>
      \<exists>u'. run_callback client (timerFn cm) (pParam cm) u = Inr u' \<and> timers u' = timers u"
    and l: "locks s TimerLock = Some (held_lock c k)"
    and c: "current_task s = Some c" "tasks s c = Some ts" "stack_magic ts = 0x19991120"
    and now: "j \<le> get_jiffies clock"
  shows "\<exists>h. stores (take 1 (insert_stores (Node n) (Node m) a)) (tlinks (timers s)) = Inr h \<and>
    add_timer n (timers s) = on_links (stores (insert_stores (Node n) (Node m) a)) (timers s) \<and>
    signal_headler client clock new frame (s\<lparr>timers := (timers s)\<lparr>tlinks := h\<rparr>\<rparr>) = Fail Bad_Access"
proof -
  have "ring (tlinks (timers s)) a [Node m]"
    using ringsD(1) [OF wheel_okD(1) [OF w], of a] a(1,2) by (simp add: wrefs_def)
  note r = ring_one [OF this]
  obtain h where h: "put_prev a (Node n) (tlinks (timers s)) = Inr h" using r(1) by (simp add: put_prev_def link_at_def)
  have mg: "timer_manager (timers s)" using w by (simp add: wheel_ok_def)
  have "link_at (tlinks (timers s)) a = Inr \<lparr>pPrev = Node m, pNext = Node m\<rparr>" using r(1) by (simp add: link_at_def)
  from insert_tail_stores [OF this, of "Node n"]
  have add: "add_timer n (timers s) = on_links (stores (insert_stores (Node n) (Node m) a)) (timers s)"
    using n(1,3) m mg by (simp add: add_timer_def node_at_def manager_at_def on_links_def)
  let ?s = "s\<lparr>timers := (timers s)\<lparr>tlinks := h\<rparr>\<rparr>"
  let ?v = "s\<lparr>timers := (timers s)\<lparr>tlinks := h\<rparr>, blocked := True,
      tasks := (tasks s)(c \<mapsto> ts\<lparr>elapsed_ticks := elapsed_ticks ts + 1\<rparr>), total_ticks := total_ticks s + 1,
      locks := (locks s)(TimerLock \<mapsto> held_lock c (k + 1))\<rparr>"
  let ?b = "?v\<lparr>timers := timers s\<rparr>"
  have "?b\<lparr>timers := (timers ?b)\<lparr>tlinks := h\<rparr>\<rparr> = ?v" by simp
  moreover have "timer_turn client (?b\<lparr>timers := (timers ?b)\<lparr>tlinks := h\<rparr>\<rparr>) = Inl Bad_Access"
    by (rule half_linked_turn [where s = ?b and n = n and j = j and w = w, OF _ _ a _ _ _ _ cb])
      (use w m n(1,2) cm h c(2) in auto)
  ultimately have "timer_turn client ?v = Inl Bad_Access" by (simp only:)
  then have "run_loop client (get_jiffies clock) ?v = Some (Inl Bad_Access)"
    using m mg now by (subst run_loop.simps) (simp add: manager_at_def time_after_eq_le)
  moreover have "handler_count (?s\<lparr>blocked := True\<rparr>) =
      Inr (?v\<lparr>locks := locks s\<rparr>)"
    using c by (simp add: handler_count_def step_simps)
  moreover have "lock_acquire TimerLock (?v\<lparr>locks := locks s\<rparr>) = Done () ?v"
    using acquire_held_lock [of "?v\<lparr>locks := locks s\<rparr>" TimerLock c k] l c(1) by simp
  ultimately have "signal_headler client clock new frame ?s = Fail Bad_Access"
    using m mg by (simp add: signal_headler_def interrupt_timer_handler_def handler_timers_def manager_at_def
      run_timer_def Let_def returns_def)
  then show ?thesis unfolding first_insert_store using h add by blast
qed

text \<open>\<open>create_timer\<close>, interrupted there: the other timer of the slot wakes a sleeping task.\<close>

lemma helper_returns:
  assumes "linked_cells D T (cells u) q" and "ReadyList \<in> D" and "t \<in> T" and "off_lists D q ReadyList t"
    and "t \<in> dom (tasks u)"
  shows "\<exists>u'. collaborative_schedule_helper t u = Inr u' \<and> timers u' = timers u"
proof -
  obtain h where h: "list_append (list_at ReadyList) (GeneralTag t) (cells u) = Inr h"
    using linked_append [OF assms(1-4)] by auto
  have "t \<notin> set (q ReadyList)" using assms(2,4) by (auto simp: off_lists_def)
  then have "elem_find (list_at ReadyList) (GeneralTag t) (cells u) = Inr False"
    using linked_find [OF assms(1,2), of t] by simp
  then show ?thesis using h assms(5) by (auto simp: collaborative_schedule_helper_def step_simps)
qed

lemma create_timer_interrupted:
  assumes ok: "timers_ok s q w j" and c: "current_task s = Some c" "tasks s c = Some ts" "stack_magic ts = 0x19991120"
    and n: "n \<notin> dom (tnodes (timers s))"
    and due: "unat due < 2560" "unat due mod 256 = 0" "unat j + unat due < 2 ^ 32"
    and a: "a = Slot 1 (unat j mod 256)" "w a = [m]" "unat j mod 256 \<noteq> 0" "tnodes (timers s) m = Some (wake_node e t)"
    and now: "j \<le> get_jiffies clock"
  shows "\<exists>s1 u h. lock_acquire TimerLock (s\<lparr>timers := alloc_node n f p per (timers s)\<rparr>) = Done () s1 \<and>
    \<not> blocked s1 \<and> set_expiry n due (timers s1) = Inr u \<and>
    add_timer n u = on_links (stores (insert_stores (Node n) (Node m) a)) u \<and>
    stores (take 1 (insert_stores (Node n) (Node m) a)) (tlinks u) = Inr h \<and>
    signal_headler client clock new frame (s1\<lparr>timers := u\<lparr>tlinks := h\<rparr>\<rparr>) = Fail Bad_Access"
proof -
  note o = timers_okD [OF ok]
  obtain u where u: "set_expiry n due (alloc_node n f p per (timers s)) = Inr u" "wheel_ok u w"
      "manager_mem u = Some \<lparr>uExitFlag = 0, uJiffies = j\<rparr>"
      "tnodes u = (tnodes (timers s))(n \<mapsto> \<lparr>uExpires = j + due, uPeriod = per, timerFn = f, pParam = p\<rparr>)"
    using insert_timer_parts [OF o(1) n o(2), of due f p per] by auto
  let ?s = "s\<lparr>locks := (locks s)(TimerLock \<mapsto> held_lock c 1), blocked := False, timers := u\<rparr>"
  have "m \<in> members w" using slot_members [of a w] a(1,2) by simp
  then have nm: "n \<notin> members w" "n \<noteq> m" "m \<in> members w" using wheel_okD(2) [OF o(1)] n by auto
  have sl: "sleeping s q t"
    using sleep_okD(4) [OF o(4) nm(3)] a(4) by (simp add: calls_def wake_node_def)
  have uj: "unat j + unat due = unat (j + due)" using due(3) by (simp add: unat_word_ariths(1))
  then have "unat (j + due) mod 256 = unat j mod 256" using due(2) mod_add_right_eq [of "unat j" "unat due" 256] by simp
  then have slot: "timer_slot (j + due) j = a" using slot_place [OF uj] due(1) a(1) by simp
  have l: "linked_cells (valid_lists s) (dom (tasks s)) (cells s) q" using o(5) by (simp add: sched_ok_def linked_def)
  have cb: "\<exists>v'. run_callback client (timerFn (wake_node e t)) (pParam (wake_node e t)) v = Inr v' \<and> timers v' = timers v"
    if "cells v = cells ?s" "dom (tasks v) = dom (tasks ?s)" for v
    using helper_returns [of "valid_lists s" "dom (tasks s)" v q t] that sl l
    by (simp add: sleeping_def wake_node_def valid_lists_def)
  have "wheel_ok (timers ?s) w" "manager_mem (timers ?s) = Some \<lparr>uExitFlag = 0, uJiffies = j\<rparr>" using u by simp_all
  note in_insert = alarm_in_insert [where n = n and k = 1 and client = client and frame = frame and new = new and clock = clock,
      OF this a(1,2,3)]
  have "\<exists>h. stores (take 1 (insert_stores (Node n) (Node m) a)) (tlinks (timers ?s)) = Inr h \<and>
    add_timer n (timers ?s) = on_links (stores (insert_stores (Node n) (Node m) a)) (timers ?s) \<and>
    signal_headler client clock new frame (?s\<lparr>timers := (timers ?s)\<lparr>tlinks := h\<rparr>\<rparr>) = Fail Bad_Access"
    by (rule in_insert [OF _ nm(1) _ _ _ cb]) (use u(4) nm a(4) c slot now in \<open>auto simp: wake_node_def\<close>)
  then obtain h where h: "stores (take 1 (insert_stores (Node n) (Node m) a)) (tlinks u) = Inr h"
      "add_timer n u = on_links (stores (insert_stores (Node n) (Node m) a)) u"
      "signal_headler client clock new frame (?s\<lparr>timers := u\<lparr>tlinks := h\<rparr>\<rparr>) = Fail Bad_Access"
    by auto
  let ?a = "s\<lparr>timers := alloc_node n f p per (timers s)\<rparr>"
  let ?s1 = "?a\<lparr>locks := (locks s)(TimerLock \<mapsto> held_lock c 1), blocked := False\<rparr>"
  have lk: "lock_acquire TimerLock ?a = Done () ?s1"
    using acquire_free_lock(1) [of ?a TimerLock c] o(3) c(1) by simp
  have "?s1\<lparr>timers := u\<lparr>tlinks := h\<rparr>\<rparr> = ?s\<lparr>timers := u\<lparr>tlinks := h\<rparr>\<rparr>" by simp
  then have sg: "signal_headler client clock new frame (?s1\<lparr>timers := u\<lparr>tlinks := h\<rparr>\<rparr>) = Fail Bad_Access"
    using h(3) by (simp only:)
  have "set_expiry n due (timers ?s1) = Inr u" "\<not> blocked ?s1" using u(1) by simp_all
  then show ?thesis using lk h(1,2) sg by blast
qed

end
