(* ===== verification/Messages.thy ===== *)
theory Messages
  imports Console Alarm
begin

text \<open>
  What the library prints itself: \<open>lib/assert.c\<close>, \<open>task/debug.c\<close> with the macros of \<open>assert.h\<close> and
  \<open>debug.h\<close>, and \<open>print_task_info\<close>. A function that ends in \<open>while(1)\<close> is given by the state in which it
  stays, what it has written to \<open>stderr\<close>, and the error that stands for it.
\<close>

section \<open>Formats\<close>

text \<open>\<open>printf\<close> of a text; \<open>m\<close> of the characters that are held back go out.\<close>

definition print_text :: "nat \<Rightarrow> string \<Rightarrow> sys \<Rightarrow> sys" where
  "print_text m str s =
     (let buf = stdio_buf s @ str in
      s\<lparr>console_out := console_out s @ take m buf, stdio_buf := drop m buf\<rparr>)"

text \<open>\<open>%x\<close>.\<close>

definition hex_digit :: "nat \<Rightarrow> char" where
  "hex_digit d = (if d < 10 then char_of (48 + d) else char_of (87 + d))"

fun hex_digits :: "nat \<Rightarrow> string" where
  "hex_digits n = (if n < 16 then [hex_digit n] else hex_digits (n div 16) @ [hex_digit (n mod 16)])"

declare hex_digits.simps [simp del]

definition hexadecimal :: "32 word \<Rightarrow> string" where
  "hexadecimal w = hex_digits (unat w)"

section \<open>Assertions\<close>

definition user_spin :: "nat \<Rightarrow> string \<Rightarrow> 32 word \<Rightarrow> string \<Rightarrow> string \<Rightarrow> sys \<Rightarrow> sys \<times> error" where
  "user_spin m filename line func condition s =
     (print_text m (''\<newline>\<newline>\<newline>\<newline>filename '' @ filename @ ''\<newline>line '' @ decimal line @
        ''\<newline>function '' @ func @ ''\<newline>condition '' @ condition @ ''\<newline>'') s, Assert_Spin)"

text \<open>\<open>assert(CONDITION)\<close> at a place of the source, without \<open>NDEBUG\<close>; \<open>panic\<close> fills in the place.\<close>

record place =
  place_file :: string
  place_line :: "32 word"
  place_func :: string

definition user_panic :: "nat \<Rightarrow> place \<Rightarrow> string \<Rightarrow> sys \<Rightarrow> sys \<times> error" where
  "user_panic m p condition = user_spin m (place_file p) (place_line p) (place_func p) condition"

definition user_assert :: "nat \<Rightarrow> place \<Rightarrow> string \<Rightarrow> bool \<Rightarrow> sys \<Rightarrow> (sys \<times> error) + sys" where
  "user_assert m p text b s = (if \<not> b then Inl (user_panic m p text s) else Inr s)"

section \<open>Panics\<close>

definition panic_spin :: "string \<Rightarrow> 32 word \<Rightarrow> string \<Rightarrow> string \<Rightarrow> sys \<Rightarrow> sys \<times> string \<times> error" where
  "panic_spin filename line func condition s =
     (let s = interrupt_disable s;
          err = ''\<newline>\<newline>\<newline>!!!!!! error !!!!!!\<newline>'';
          err = err @ ''filename:'' @ filename @ ''\<newline>'';
          err = err @ ''line:0x'' @ hexadecimal line @ ''\<newline>'';
          err = err @ ''function:'' @ func @ ''\<newline>'';
          err = err @ ''condition:'' @ condition @ ''\<newline>'' in
      (s, err, Panic_Spin))"

definition PANIC :: "place \<Rightarrow> string \<Rightarrow> sys \<Rightarrow> sys \<times> string \<times> error" where
  "PANIC p condition = panic_spin (place_file p) (place_line p) (place_func p) condition"

definition ASSERT :: "place \<Rightarrow> string \<Rightarrow> bool \<Rightarrow> sys \<Rightarrow> (sys \<times> string \<times> error) + sys" where
  "ASSERT p text b s = (if b then Inr s else Inl (PANIC p text s))"

text \<open>
  The component theories use \<open>assert_c\<close> and the errors, without the texts: this is what is left of the
  macros.
\<close>

lemma user_assert_c: "(case user_assert m p text b s of Inl (_, e) \<Rightarrow> Inl e | Inr s \<Rightarrow> f s) = assert_c b (f s)"
  by (simp add: user_assert_def user_panic_def user_spin_def assert_c_def)

lemma panic_error: "(case PANIC p text s of (_, _, e) \<Rightarrow> e) = Panic_Spin"
  by (simp add: PANIC_def panic_spin_def Let_def)

text \<open>Only a panic keeps the alarm away: after a failed assertion the other tasks go on.\<close>

lemma spin_masks:
  "blocked (fst (PANIC p text s))" "blocked (fst (user_panic m p text s)) = blocked s"
  by (simp_all add: PANIC_def panic_spin_def user_panic_def user_spin_def print_text_def step_simps)

lemma spin_keeps_alarms:
  assumes "timers_ok s q w j"
  shows "timers_ok (fst (user_panic m p text s)) q w j"
proof -
  have "sched_ok (fst (user_panic m p text s)) q"
    using timers_okD(5) [OF assms]
    by (subst sched_ok_frame [of _ s]) (simp_all add: user_panic_def user_spin_def print_text_def Let_def)
  then show ?thesis
    by (rule timers_ok_frame [OF assms]) (simp_all add: user_panic_def user_spin_def print_text_def Let_def)
qed

section \<open>Information on a task\<close>

text \<open>A string ends at its \<open>NUL\<close>; the small integers are promoted to \<open>int\<close>.\<close>

definition print_task_info :: "nat \<Rightarrow> nat \<Rightarrow> sys \<Rightarrow> sys result" where
  "print_task_info m ptask s =
     andthen (task_at s ptask) (\<lambda>ts.
     Inr (print_text m
       (''tid = '' @ decimal (scast (tid ts)) @ ''\<newline>name = '' @ takeWhile (\<lambda>ch. ch \<noteq> CHR 0x00) (tname ts) @
        ''\<newline>priority = '' @ decimal (ucast (priority ts)) @
        ''\<newline>stack_magic = '' @ hexadecimal (stack_magic ts) @ ''\<newline>'') s))"

text \<open>No character is lost, wherever the buffer of \<open>stdio\<close> stands.\<close>

lemma print_text_out: "console_out (print_text m str s) @ stdio_buf (print_text m str s) = console_out s @ stdio_buf s @ str"
  by (simp add: print_text_def Let_def del: take_append drop_append)

lemma print_text_devices:
  "tasks (print_text m str s) = tasks s" "cells (print_text m str s) = cells s" "locks (print_text m str s) = locks s"
  by (simp_all add: print_text_def Let_def)

lemma magic_text: "hexadecimal 0x19991120 = ''19991120''"
  by (simp add: hexadecimal_def hex_digits.simps hex_digit_def) (simp_all add: char_of_def bit_0)

lemma scast_tid: "sint (scast (w :: 16 word) :: 32 word) = sint w"
  by (rule sint_up_scast) (simp add: is_up)

lemma priority_text: "decimal (ucast (w :: 8 word)) = digits (unat w)"
proof -
  have w: "0 \<le> uint w" "uint w < 256" using uint_bounded [of w] by simp_all
  have "take_bit 32 (uint w) = uint w" by (rule take_bit_int_eq_self) (use w in simp_all)
  moreover have "signed_take_bit 31 (uint w) = uint w" by (rule signed_take_bit_int_eq_self) (use w in \<open>simp_all, linarith\<close>)
  ultimately have "sint (ucast w :: 32 word) = int (unat w)"
    by (simp add: sint_uint unsigned_ucast_eq)
  then show ?thesis by (simp add: decimal_def)
qed

lemma print_task_info_run:
  assumes "tasks s t = Some ts" and "0 \<le> sint (tid ts)" and "stack_magic ts = 0x19991120" and "CHR 0x00 \<notin> set (tname ts)"
  shows "\<exists>u. print_task_info m t s = Inr u \<and> tasks u = tasks s \<and> console_out u @ stdio_buf u = console_out s @ stdio_buf s @
    ''tid = '' @ digits (nat (sint (tid ts))) @ ''\<newline>name = '' @ tname ts @ ''\<newline>priority = '' @ digits (unat (priority ts)) @
    ''\<newline>stack_magic = 19991120\<newline>''"
proof -
  have "takeWhile (\<lambda>ch. ch \<noteq> CHR 0x00) (tname ts) = tname ts"
    using assms(4) by (auto simp: takeWhile_eq_all_conv)
  then show ?thesis
    using assms(1-3)
    by (simp add: print_task_info_def step_simps print_text_devices print_text_out magic_text priority_text decimal_def [of "scast (tid ts)"] scast_tid)
qed

end
