(* ===== verification/Programs.thy ===== *)
theory Programs
  imports Init Messages
begin

text \<open>
  The programs that come with the library: \<open>main.c\<close>, \<open>example/test_sleep.c\<close> and
  \<open>example/test_timer.c\<close>. What the linker, \<open>malloc\<close>, the clock and the C library choose are
  arguments. A \<open>while(1)\<close> is given by its first turns, as many as one likes; no alarm comes during
  a run. The few calls before the last loop of the two examples take less than a time slice; the
  million calls of \<open>task_start\<close> of \<open>main.c\<close> do not, and its \<open>main\<close> is not modelled as one function.
\<close>

section \<open>Loops with a counter\<close>

text \<open>The first \<open>n\<close> turns of a loop whose body knows the number of its turn.\<close>

primrec for_loop :: "nat \<Rightarrow> (nat \<Rightarrow> 's \<Rightarrow> ('s, unit) run) \<Rightarrow> 's \<Rightarrow> ('s, unit) run" where
  "for_loop 0 body s = Done () s"
| "for_loop (Suc n) body s = bind_run (for_loop n body s) (\<lambda>_ s. body n s)"

text \<open>A call of \<open>task_start\<close> whose result is dropped.\<close>

definition start :: "alloc_env \<Rightarrow> string \<Rightarrow> 64 word \<Rightarrow> 64 word \<Rightarrow> sys \<Rightarrow> (sys, unit) run" where
  "start env nm func arg s = bind_run (task_start env nm 31 func arg s) (\<lambda>_ s. Done () s)"

text \<open>
  \<open>world\<close>: what \<open>init\<close> needs from outside, what \<open>malloc\<close> gives to the tasks that are started,
  and how many characters the calls of \<open>write\<close> take.
\<close>

record 'k world =
  main_env :: alloc_env
  manager_ok :: bool
  boot_clock :: timespec
  clean_node :: "nat option"
  timer_set :: "itimerval \<Rightarrow> 32 word"
  task_env :: "nat \<Rightarrow> alloc_env"
  written :: "nat \<Rightarrow> nat"
  replaced :: "'k libc"

definition start_library :: "'k world \<Rightarrow> sys \<Rightarrow> (sys, unit) run" where
  "start_library W = init (main_env W) (manager_ok W) (boot_clock W) (clean_node W) (timer_set W)"

text \<open>\<open>sleep(1); console_put_str(str);\<close>, the body of most of the loops.\<close>

definition sleep_and_put :: "'k world \<Rightarrow> 32 word \<Rightarrow> string \<Rightarrow> nat \<Rightarrow> sys \<Rightarrow> (sys, unit) run" where
  "sleep_and_put W seconds str i s =
     bind_run (sleep (replaced W) seconds s) (\<lambda>_ s. console_put_str (written W i) str s)"

lemma bind_run_assoc: "bind_run (bind_run m f) g = bind_run m (\<lambda>a s. bind_run (f a s) g)"
  by (coinduction arbitrary: m rule: run.coinduct_strong) (auto split: run.split simp: rel_fun_def)

lemma bind_run_done: "bind_run m Done = (m :: ('s, unit) run)"
  by (coinduction arbitrary: m rule: run.coinduct_strong) (auto split: run.split simp: rel_fun_def)

lemma for_loop_first: "for_loop (Suc n) b x = bind_run (b 0 x) (\<lambda>_. for_loop n (\<lambda>i. b (Suc i)))"
  for x :: 's
proof (induction n arbitrary: x)
  case (Suc n)
  show ?case unfolding for_loop.simps(2) [of "Suc n"] Suc by (simp add: bind_run_assoc)
next
  case 0
  have "for_loop 0 b = Done ()" for b :: "nat \<Rightarrow> 's \<Rightarrow> ('s, unit) run" by (simp add: fun_eq_iff)
  then show ?case by (simp add: bind_run_done)
qed

section \<open>main.c\<close>

definition main_test :: "'k world \<Rightarrow> string \<Rightarrow> sys \<Rightarrow> (sys, unit) run" where
  "main_test W str s = console_put_str (written W 0) str s"

definition main_test1 :: "'k world \<Rightarrow> string \<Rightarrow> nat \<Rightarrow> sys \<Rightarrow> (sys, unit) run" where
  "main_test1 W str n = for_loop n (sleep_and_put W 1 str)"

definition main_test2 :: "sys \<Rightarrow> (sys, unit) run" where
  "main_test2 s = Fail Diverges"

definition main_test3 :: "'k world \<Rightarrow> nat \<Rightarrow> sys \<Rightarrow> (sys, unit) run" where
  "main_test3 W n = for_loop n (sleep_and_put W 1 ''rrr\<newline>'')"

section \<open>test_sleep.c\<close>

text \<open>
  \<open>atoi\<close>: white space, a sign, digits. Beyond the range of \<open>int\<close> its result is undefined.
\<close>

definition is_space :: "char \<Rightarrow> bool" where
  "is_space ch \<longleftrightarrow> ch = CHR '' '' \<or> (9 \<le> (of_char ch :: nat) \<and> (of_char ch :: nat) \<le> 13)"

definition is_digit :: "char \<Rightarrow> bool" where
  "is_digit ch \<longleftrightarrow> 48 \<le> (of_char ch :: nat) \<and> (of_char ch :: nat) \<le> 57"

definition atoi :: "string \<Rightarrow> (32 word) result" where
  "atoi str =
     (let str = dropWhile is_space str;
          neg = (take 1 str = ''-'');
          str = (if take 1 str = ''-'' \<or> take 1 str = ''+'' then drop 1 str else str);
          v = int (undigits (takeWhile is_digit str));
          v = (if neg then - v else v) in
      if - (2 ^ 31) \<le> v \<and> v < 2 ^ 31 then Inr (word_of_int v) else Inl Out_Of_Bounds)"

text \<open>\<open>sprintf\<close> into an array of \<open>cap\<close> characters, one of which is for the \<open>NUL\<close>.\<close>

definition sprintf_in :: "nat \<Rightarrow> string \<Rightarrow> string result" where
  "sprintf_in cap str = (if length str < cap then Inr str else Inl Buffer_Overflow)"

definition sleep_test_arr :: "string \<Rightarrow> (32 word \<times> string) result" where
  "sleep_test_arr str =
     andthen (atoi str) (\<lambda>timeout.
     andthen (sprintf_in 30 (''test'' @ decimal timeout @ '' : '' @ decimal timeout @ ''.\<newline>'')) (\<lambda>arr.
     Inr (timeout, arr)))"

definition sleep_test1 :: "'k world \<Rightarrow> string \<Rightarrow> nat \<Rightarrow> sys \<Rightarrow> (sys, unit) run" where
  "sleep_test1 W str n s =
     bind_run (lift_run (co_enable_hook_sys s)) (\<lambda>_ s.
     case sleep_test_arr str of
       Inl e \<Rightarrow> Fail e
     | Inr (timeout, arr) \<Rightarrow> for_loop n (sleep_and_put W timeout arr) s)"

definition sleep_thread_number :: nat where
  "sleep_thread_number = 10"

text \<open>
  One turn of the loop of \<open>main\<close>; \<open>arr\<close> is the array \<open>malloc(30)\<close> gave, in which the number of
  the task is written. It is the name of the task, and its address the argument.
\<close>

definition start_sleeper :: "'k world \<Rightarrow> 64 word \<Rightarrow> (nat \<Rightarrow> (64 word) option) \<Rightarrow> nat \<Rightarrow> sys \<Rightarrow> (sys, unit) run" where
  "start_sleeper W fn arr i s =
     (case andthen (deref (arr i)) (\<lambda>a. andthen (sprintf_in 30 (decimal (of_nat (Suc i)))) (\<lambda>str. Inr (a, str))) of
        Inl e \<Rightarrow> Fail e
      | Inr (a, str) \<Rightarrow> start (task_env W (Suc i)) str fn a s)"

definition sleep_main :: "'k world \<Rightarrow> 64 word \<Rightarrow> 64 word \<Rightarrow> (nat \<Rightarrow> (64 word) option) \<Rightarrow> nat \<Rightarrow> sys \<Rightarrow> (sys, unit) run" where
  "sleep_main W fn str_1 arr n s =
     bind_run (start_library W s) (\<lambda>_ s.
     bind_run (start (task_env W 0) ''tast1'' fn str_1 s) (\<lambda>_ s.
     bind_run (for_loop sleep_thread_number (start_sleeper W fn arr) s) (\<lambda>_ s.
     for_loop n (\<lambda>i. console_put_str (written W i) []) s)))"

section \<open>test_timer.c\<close>

definition timer_test_task :: "'k world \<Rightarrow> string \<Rightarrow> nat \<Rightarrow> sys \<Rightarrow> (sys, unit) run" where
  "timer_test_task W str n s =
     bind_run (lift_run (co_enable_hook_sys s)) (\<lambda>_ s. for_loop n (sleep_and_put W 1 str) s)"

text \<open>The callback; its argument is the manager.\<close>

definition timer_test :: "nat \<Rightarrow> param \<Rightarrow> sys \<Rightarrow> sys result" where
  "timer_test m p s =
     (if p = Manager_Param then
        andthen (manager_at (timers s)) (\<lambda>mg.
        Inr (print_text m (''Timer expire! Jiffies: '' @ digits (unat (uJiffies mg)) @ ''\<newline>'') s))
      else Inl Bad_Access)"

definition timer_thread_number :: "64 word" where
  "timer_thread_number = 10"

text \<open>What is given to \<open>task_start\<close> as the function is the constant \<open>thread_number\<close>.\<close>

definition timer_main :: "'k world \<Rightarrow> nat option \<Rightarrow> 64 word \<Rightarrow> nat \<Rightarrow> sys \<Rightarrow> (sys, unit) run" where
  "timer_main W node arg n s =
     bind_run (start_library W s) (\<lambda>_ s.
     bind_run (create_timer (Some (Client 0)) Manager_Param 10000 10000 node s) (\<lambda>_ s.
     bind_run (for_loop 100 (\<lambda>i. start (task_env W i) ''abc'' timer_thread_number arg) s) (\<lambda>_ s.
     for_loop n (sleep_and_put W 1 ''maiN '') s)))"

section \<open>Numbers as text\<close>

lemma digits_wf: "digits n \<noteq> []" "ch \<in> set (digits n) \<Longrightarrow> is_digit ch"
proof (induction n rule: digits.induct)
  case (1 n)
  { case 1
    show ?case by (subst digits.simps) simp
  next
    case 2
    have d: "is_digit (digit k)" if "k < 10" for k using that by (simp add: is_digit_def digit_def)
    show ?case
    proof (cases "n < 10")
      case True
      then have "ch = digit n" using 2 by (simp add: digits.simps)
      then show ?thesis using d True by simp
    next
      case False
      then have "digits n = digits (n div 10) @ [digit (n mod 10)]" by (simp add: digits.simps)
      then have "ch \<in> set (digits (n div 10)) \<or> ch = digit (n mod 10)" using 2 by auto
      then show ?thesis using "1.IH"(2) [OF False] d [of "n mod 10"] by auto
    qed }
qed

lemma digit_not: "is_digit ch \<Longrightarrow> \<not> is_space ch \<and> ch \<noteq> CHR ''-'' \<and> ch \<noteq> CHR ''+''"
  by (auto simp: is_digit_def is_space_def)

lemma take_digits: "takeWhile is_digit (digits n) = digits n"
  using digits_wf(2) by (auto simp: takeWhile_eq_all_conv)

lemma length_digits: "n < 10 ^ k \<Longrightarrow> length (digits n) \<le> max 1 k"
proof (induction k arbitrary: n)
  case (Suc k)
  show ?case
  proof (cases "n < 10")
    case False
    then have "n div 10 < 10 ^ k" using Suc.prems by (simp add: div_less_iff_less_mult mult.commute)
    then have "length (digits (n div 10)) \<le> max 1 k" by (rule Suc.IH)
    moreover have "k \<noteq> 0" using False Suc.prems by (cases k) auto
    ultimately show ?thesis using False by (simp add: digits.simps [of n])
  qed (simp add: digits.simps)
qed (simp add: digits.simps)

lemma length_digits_ge: "10 ^ k \<le> n \<Longrightarrow> Suc k \<le> length (digits n)"
proof (induction k arbitrary: n)
  case 0
  then show ?case using digits_wf(1) [of n] by (cases "digits n") auto
next
  case (Suc k)
  then have "10 ^ k \<le> n div 10" by (simp add: less_eq_div_iff_mult_less_eq mult.commute)
  moreover have "(1 :: nat) \<le> 10 ^ k" by simp
  then have "\<not> n < 10" using Suc.prems unfolding power_Suc by linarith
  ultimately show ?case using Suc.IH by (simp add: digits.simps [of n])
qed

lemma decimal_pos: "0 \<le> sint w \<Longrightarrow> decimal w = digits (nat (sint w))"
  by (simp add: decimal_def)

lemma atoi_decimal: "atoi (decimal w) = Inr w"
proof -
  have b: "- (2 ^ 31) \<le> sint w" "sint w < 2 ^ 31"
    using sint_greater_eq [of w] sint_less [of w] by simp_all
  obtain d ds where d: "digits (nat \<bar>sint w\<bar>) = d # ds"
    using digits_wf(1) by (cases "digits (nat \<bar>sint w\<bar>)") auto
  have n: "\<not> is_space d" "d \<noteq> CHR ''-''" "d \<noteq> CHR ''+''"
    using digit_not [of d] digits_wf(2) [of d "nat \<bar>sint w\<bar>"] d by simp_all
  have v: "undigits (takeWhile is_digit (digits (nat \<bar>sint w\<bar>))) = nat \<bar>sint w\<bar>"
    by (simp only: take_digits undigits_digits)
  show ?thesis
  proof (cases "sint w < 0")
    case True
    then have "decimal w = CHR ''-'' # digits (nat \<bar>sint w\<bar>)" by (simp add: decimal_def)
    then show ?thesis using v b True by (simp add: atoi_def is_space_def)
  next
    case False
    then have "decimal w = digits (nat \<bar>sint w\<bar>)" by (simp add: decimal_def)
    then show ?thesis using v b n False d by (simp add: atoi_def)
  qed
qed

text \<open>What a task of \<open>test_sleep.c\<close> prints. The array is large enough for every number above \<open>-10 ^ 9\<close>.\<close>

definition sleep_message :: "32 word \<Rightarrow> string" where
  "sleep_message w = ''test'' @ decimal w @ '' : '' @ decimal w @ ''.\<newline>''"

lemma sleep_test_arr_run:
  "sleep_test_arr (decimal w) = (if - (10 ^ 9) < sint w then Inr (w, sleep_message w) else Inl Buffer_Overflow)"
proof -
  have b: "- (2 ^ 31) \<le> sint w" "sint w < 2 ^ 31"
    using sint_greater_eq [of w] sint_less [of w] by simp_all
  have "length (decimal w) \<le> 10" if "- (10 ^ 9) < sint w"
    using that b length_digits [of "nat (- sint w)" 9] length_digits [of "nat (sint w)" 10]
    by (auto simp: decimal_def)
  moreover have "11 \<le> length (decimal w)" if "\<not> - (10 ^ 9) < sint w"
    using that length_digits_ge [of 9 "nat (- sint w)"] by (auto simp: decimal_def)
  ultimately show ?thesis
    by (cases "- (10 ^ 9) < sint w") (simp_all add: sleep_test_arr_def atoi_decimal sprintf_in_def sleep_message_def)
qed

section \<open>The tasks of the programs\<close>

lemma put_free:
  assumes "sched_ok s q" and "locks s ConsoleLock = Some free_lock" and "current_task s = Some c"
  shows "\<exists>u. console_put_str n str s = Done () u \<and> sched_ok u (wake_queues ConsoleLock q) \<and>
    locks u = locks s \<and> console_out u = console_out s @ take n str \<and> current_task u = Some c"
  using put.when_free [OF assms, of n str] by (auto simp: console_put_str_def)

text \<open>
  The loop of a hooked task: it is taken off at its call of \<open>sleep\<close>, and when it runs again
  with its mark taken away and the console free, it prints and the next turn begins.
\<close>

lemma sleep_and_put_hooked:
  assumes "current_task s = Some c" and "tasks s c = Some ts" and "is_hook ts"
  shows "\<exists>k. sleep_and_put W n str i s =
      Switch (s\<lparr>tasks := (tasks s)(c \<mapsto> marked_asleep (n * 1000) ts)\<rparr>) k \<and>
    (\<forall>u q. sched_ok u q \<and> current_task u = Some c \<and> marks u c = Some False \<and>
       locks u ConsoleLock = Some free_lock \<longrightarrow>
       (\<exists>v. k u = Done () v \<and> sched_ok v (wake_queues ConsoleLock q) \<and> locks v = locks u \<and>
          current_task v = Some c \<and> console_out v = console_out u @ take (written W i) str))"
proof -
  let ?k = "\<lambda>u. bind_run (sleep_loop u) (\<lambda>_ s. console_put_str (written W i) str s)"
  have "sleep_and_put W n str i s = Switch (s\<lparr>tasks := (tasks s)(c \<mapsto> marked_asleep (n * 1000) ts)\<rparr>) ?k"
    using sleep_run(1) [OF assms, where lc = "replaced W"] by (simp add: sleep_and_put_def)
  moreover have "\<exists>v. ?k u = Done () v \<and> sched_ok v (wake_queues ConsoleLock q) \<and> locks v = locks u \<and>
      current_task v = Some c \<and> console_out v = console_out u @ take (written W i) str"
    if "sched_ok u q" "current_task u = Some c" "marks u c = Some False"
      "locks u ConsoleLock = Some free_lock" for u q
    using put_free [OF that(1,4,2)] sleep_loop_awake [OF that(2,3)] by auto
  ultimately show ?thesis by blast
qed

lemma co_enable_run:
  "current_task s = Some c \<Longrightarrow> tasks s c = Some ts \<Longrightarrow>
   co_enable_hook_sys s = Inr (s\<lparr>tasks := (tasks s)(c \<mapsto> ts\<lparr>is_hook := True\<rparr>)\<rparr>)"
  by (simp add: co_enable_hook_sys_def step_simps)

text \<open>
  A task of \<open>test_sleep.c\<close>: the first turn of its loop. The state in which it is taken off, and
  what is left of the loop when the line is out.
\<close>

lemma sleep_test_turn:
  assumes "current_task s = Some c" and "tasks s c = Some ts" and v: "- (10 ^ 9) < sint v"
  shows "\<exists>k. sleep_test1 W (decimal v) (Suc n) s =
      Switch (s\<lparr>tasks := (tasks s)(c \<mapsto> marked_asleep (v * 1000) (ts\<lparr>is_hook := True\<rparr>))\<rparr>) k \<and>
    (\<forall>u q. sched_ok u q \<and> current_task u = Some c \<and> marks u c = Some False \<and>
       locks u ConsoleLock = Some free_lock \<longrightarrow>
       (\<exists>u'. k u = for_loop n (\<lambda>i. sleep_and_put W v (sleep_message v) (Suc i)) u' \<and>
          sched_ok u' (wake_queues ConsoleLock q) \<and> locks u' = locks u \<and> current_task u' = Some c \<and>
          console_out u' = console_out u @ take (written W 0) (sleep_message v)))"
proof -
  let ?ts = "ts\<lparr>is_hook := True\<rparr>" and ?body = "sleep_and_put W v (sleep_message v)"
  let ?rest = "\<lambda>_. for_loop n (\<lambda>i. ?body (Suc i))"
  let ?s = "s\<lparr>tasks := (tasks s)(c \<mapsto> ?ts)\<rparr>"
  have "sleep_test1 W (decimal v) (Suc n) s = for_loop (Suc n) ?body ?s"
    using co_enable_run [OF assms(1,2)] v by (simp add: sleep_test1_def sleep_test_arr_run)
  then have run: "sleep_test1 W (decimal v) (Suc n) s = bind_run (?body 0 ?s) ?rest"
    unfolding for_loop_first .
  have s: "current_task ?s = Some c" "tasks ?s c = Some ?ts" "is_hook ?ts" using assms(1) by simp_all
  obtain k where k: "?body 0 ?s = Switch (?s\<lparr>tasks := (tasks ?s)(c \<mapsto> marked_asleep (v * 1000) ?ts)\<rparr>) k"
      "\<And>u q. sched_ok u q \<Longrightarrow> current_task u = Some c \<Longrightarrow> marks u c = Some False \<Longrightarrow>
        locks u ConsoleLock = Some free_lock \<Longrightarrow>
        \<exists>u'. k u = Done () u' \<and> sched_ok u' (wake_queues ConsoleLock q) \<and> locks u' = locks u \<and>
          current_task u' = Some c \<and> console_out u' = console_out u @ take (written W 0) (sleep_message v)"
    using sleep_and_put_hooked [OF s, of W v "sleep_message v" 0] by blast
  have "sleep_test1 W (decimal v) (Suc n) s =
      Switch (s\<lparr>tasks := (tasks s)(c \<mapsto> marked_asleep (v * 1000) ?ts)\<rparr>) (\<lambda>u. bind_run (k u) ?rest)"
    using run k(1) by simp
  moreover have "\<exists>u'. bind_run (k u) ?rest = for_loop n (\<lambda>i. ?body (Suc i)) u' \<and>
      sched_ok u' (wake_queues ConsoleLock q) \<and> locks u' = locks u \<and> current_task u' = Some c \<and>
      console_out u' = console_out u @ take (written W 0) (sleep_message v)"
    if "sched_ok u q" "current_task u = Some c" "marks u c = Some False"
      "locks u ConsoleLock = Some free_lock" for u q
    using k(2) [OF that] by auto
  ultimately show ?thesis by blast
qed

lemma sleep_test_overflows:
  assumes "current_task s = Some c" and "tasks s c = Some ts" and "sint v \<le> - (10 ^ 9)"
  shows "sleep_test1 W (decimal v) n s = Fail Buffer_Overflow"
  using co_enable_run [OF assms(1,2)] assms(3) by (simp add: sleep_test1_def sleep_test_arr_run)

text \<open>With nobody at the console a text is put out at once.\<close>

definition put_out :: "string \<Rightarrow> sys \<Rightarrow> sys" where
  "put_out str s = s\<lparr>console_out := console_out s @ str, blocked := False\<rparr>"

lemma put_out_simps [simp]:
  "console_out (put_out str s) = console_out s @ str" "tasks (put_out str s) = tasks s"
  "current_task (put_out str s) = current_task s" "locks (put_out str s) = locks s" "timers (put_out str s) = timers s"
  "task_all_nums (put_out str s) = task_all_nums s" "put_out y (put_out x s) = put_out (x @ y) s"
  by (simp_all add: put_out_def)

lemma sched_ok_put_out: "sched_ok s q \<Longrightarrow> sched_ok (put_out str s) q"
  by (subst sched_ok_frame [of _ s]) (simp_all add: put_out_def)

lemma timers_ok_put_out: "timers_ok s q w j \<Longrightarrow> timers_ok (put_out str s) q w j"
  by (rule timers_ok_frame [OF _ sched_ok_put_out]) (auto dest: timers_okD(5))

lemma put_quiet:
  assumes "sched_ok s q" and "q (Waiters ConsoleLock) = []" and l: "locks s ConsoleLock = Some free_lock"
    and c: "current_task s = Some c"
  shows "console_put_str n str s = Done () (put_out (take n str) s)"
proof -
  let ?s = "s\<lparr>locks := (locks s)(ConsoleLock \<mapsto> held_lock c 1), blocked := False, console_out := console_out s @ take n str\<rparr>"
  have "sched_ok ?s q" using assms(1) l by (subst sched_ok_frame [of _ s]) (auto simp: insert_absorb)
  from release_quiet [OF this _ _ assms(2), of c] c
  have "lock_release ConsoleLock ?s = Inr (?s\<lparr>locks := (locks s)(ConsoleLock \<mapsto> free_lock), blocked := False\<rparr>)" by simp
  then show ?thesis
    using acquire_free_lock(1) [OF l c] fun_upd_idem [of "locks s" ConsoleLock, OF l]
    by (simp add: console_put_str_def console_acquire_def console_release_def write_out_def put_out_def)
qed

section \<open>Starting many tasks\<close>

text \<open>The queues after the tasks \<open>ts\<close> have been started.\<close>

definition started :: "nat list \<Rightarrow> (list_id \<Rightarrow> nat list) \<Rightarrow> list_id \<Rightarrow> nat list" where
  "started ts q = q(ReadyList := q ReadyList @ ts, AllList := q AllList @ ts)"

lemma started_simps [simp]:
  "started [] q = q" "started ts q PoolList = q PoolList" "started ts q (Waiters k) = q (Waiters k)"
  "started ts q ReadyList = q ReadyList @ ts" "started ts q AllList = q AllList @ ts"
  "started us (started ts q) = started (ts @ us) q"
  by (simp_all add: started_def)

lemma start_queues_started: "q (Waiters TidLock) = [] \<Longrightarrow> start_queues t q = started [t] q"
proof -
  assume "q (Waiters TidLock) = []"
  then have "wake_queues TidLock q = q" by (auto simp: wake_queues_def)
  then show ?thesis by (simp add: start_queues_def started_def)
qed

text \<open>
  \<open>can_start s q b\<close>: the tasks and the lists are in order, nobody waits for the lock of the task ids,
  no task has ended, and the ids in use are the first \<open>b\<close>.
\<close>

definition can_start :: "sys \<Rightarrow> (list_id \<Rightarrow> nat list) \<Rightarrow> nat \<Rightarrow> bool" where
  "can_start s q b \<longleftrightarrow> sched_ok s q \<and> q PoolList = [] \<and> q (Waiters TidLock) = [] \<and>
     locks s TidLock = Some free_lock \<and> (\<exists>m. main_task s = Some m \<and> m \<in> dom (tasks s)) \<and>
     pool_map 1000800 (tid_bitmap s) \<and> (\<forall>i. bit_of (tid_bitmap s) i = (i < b))"

text \<open>The task that is started as number \<open>b\<close>.\<close>

definition started_task :: "sys \<Rightarrow> alloc_env \<Rightarrow> string \<Rightarrow> 64 word \<Rightarrow> 64 word \<Rightarrow> nat \<Rightarrow> task_struct" where
  "started_task s env nm func arg b =
     (fresh_task env nm 31 (ucast (of_nat b + tid_start s)) TASK_READY True)
       \<lparr>tcontext := first_context env (cpu s) func arg\<rparr>"

text \<open>What a start of tasks leaves as it is.\<close>

definition same_rest :: "sys \<Rightarrow> sys \<Rightarrow> bool" where
  "same_rest u s \<longleftrightarrow> current_task u = current_task s \<and> locks u = locks s \<and> main_task u = main_task s \<and>
     tid_start u = tid_start s \<and> cpu u = cpu s \<and> timers u = timers s"

lemma same_restD:
  assumes "same_rest u s"
  shows "current_task u = current_task s" "locks u = locks s" "main_task u = main_task s"
    "tid_start u = tid_start s" "cpu u = cpu s" "timers u = timers s"
  using assms by (simp_all add: same_rest_def)

lemma start_run:
  assumes ok: "can_start s q b" and b: "b < 1000800" and nm: "length nm < 32"
    and t: "new_task env = Some t" "t \<notin> dom (tasks s)"
  shows "\<exists>u. start env nm func arg s = Done () u \<and> can_start u (started [t] q) (Suc b) \<and> same_rest u s \<and>
    tasks u = (tasks s)(t \<mapsto> started_task s env nm func arg b) \<and> task_all_nums u = task_all_nums s + 1"
proof -
  have s: "sched_ok s q" "q PoolList = []" "q (Waiters TidLock) = []"
      "locks s TidLock = Some free_lock" "pool_map 1000800 (tid_bitmap s)"
      "\<forall>i. bit_of (tid_bitmap s) i = (i < b)"
    using ok by (simp_all add: can_start_def)
  have m: "Some t \<noteq> main_task s" "main_task s = Some (the (main_task s))" "the (main_task s) \<in> dom (tasks s)"
    using ok t(2) by (auto simp: can_start_def)
  obtain u bm where u: "task_start env nm 31 func arg s = Done t u" "sched_ok u (start_queues t q)"
      "current_task u = current_task s" "task_all_nums u = task_all_nums s + 1"
      "pool_map 1000800 bm" "\<forall>i. bit_of bm i = (i = b \<or> bit_of (tid_bitmap s) i)"
      "added_task s q bm t (started_task s env nm func arg b) u"
    using task_start_new [OF s(1,2,4) t m(1) nm s(5) b, of 31 func arg] s(6)
    unfolding started_task_def by auto
  have a: "tid_bitmap u = bm" "dom (tasks u) = insert t (dom (tasks s))" "same_rest u s"
      "tasks u = (tasks s)(t \<mapsto> started_task s env nm func arg b)"
    using u(3,7) s(3) by (auto simp: added_task_def fun_eq_iff same_rest_def)
  have "sched_ok u (started [t] q)" using u(2) start_queues_started [of q t] s(3) by simp
  then have "can_start u (started [t] q) (Suc b)"
    using s(2-4) m(2,3) a(1,2) same_restD [OF a(3)] u(5,6) s(6) unfolding can_start_def by auto
  then show ?thesis using u(1,4) a(3,4) by (simp add: start_def)
qed

text \<open>
  \<open>task_starts I\<close>: starting a task keeps the invariant \<open>I\<close>. A loop that starts one task in each turn
  keeps it too.
\<close>

locale task_starts =
  fixes I :: "sys \<Rightarrow> (list_id \<Rightarrow> nat list) \<Rightarrow> bool"
  assumes keeps: "I s q \<Longrightarrow> sched_ok u (started [t] q) \<Longrightarrow> t \<notin> dom (tasks s) \<Longrightarrow>
    dom (tasks u) = insert t (dom (tasks s)) \<Longrightarrow> q PoolList = [] \<Longrightarrow> same_rest u s \<Longrightarrow> I u (started [t] q)"
begin

lemma start_loop_run:
  assumes ok: "can_start s q b" "I s q" and "b + n \<le> 1000800"
    and nm: "\<And>i. i < n \<Longrightarrow> length (nm i) < 32"
    and t: "\<And>i. i < n \<Longrightarrow> new_task (env i) = Some (a i)" "inj_on a {..<n}" "a ` {..<n} \<inter> dom (tasks s) = {}"
    and body: "\<And>i u. i < n \<Longrightarrow> body i u = start (env i) (nm i) (func i) (arg i) u"
  shows "\<exists>u. for_loop n body s = Done () u \<and> can_start u (started (map a [0..<n]) q) (b + n) \<and>
    I u (started (map a [0..<n]) q) \<and> same_rest u s \<and> task_all_nums u = task_all_nums s + of_nat n \<and>
    (\<forall>i<n. tasks u (a i) = Some (started_task s (env i) (nm i) (func i) (arg i) (b + i))) \<and>
    dom (tasks u) = a ` {..<n} \<union> dom (tasks s) \<and> (\<forall>v. v \<notin> a ` {..<n} \<longrightarrow> tasks u v = tasks s v)"
  using assms(3-)
proof (induction n)
  case 0
  then show ?case using ok by (simp add: same_rest_def)
next
  case (Suc n)
  let ?q = "started (map a [0..<n]) q"
  have "inj_on a {..<n}" "a ` {..<n} \<inter> dom (tasks s) = {}"
    using Suc.prems(4,5) by (auto simp: lessThan_Suc)
  with Suc.IH Suc.prems obtain u where u: "for_loop n body s = Done () u" "can_start u ?q (b + n)" "I u ?q"
      "same_rest u s" "task_all_nums u = task_all_nums s + of_nat n"
      "\<forall>i<n. tasks u (a i) = Some (started_task s (env i) (nm i) (func i) (arg i) (b + i))"
      "dom (tasks u) = a ` {..<n} \<union> dom (tasks s)" "\<forall>v. v \<notin> a ` {..<n} \<longrightarrow> tasks u v = tasks s v"
    by auto
  have new: "a n \<notin> a ` {..<n}" "a n \<notin> dom (tasks s)"
    using Suc.prems(4,5) by (auto simp: lessThan_Suc)
  have "started_task u e m f x = started_task s e m f x" for e m f x
    using same_restD [OF u(4)] by (simp add: started_task_def fun_eq_iff)
  with start_run [OF u(2) _ Suc.prems(2) [of n] Suc.prems(3) [of n], of "func n" "arg n"] new Suc.prems(1)
  obtain v where v: "start (env n) (nm n) (func n) (arg n) u = Done () v"
      "can_start v (started [a n] ?q) (Suc (b + n))" "same_rest v u"
      "tasks v = (tasks u)(a n \<mapsto> started_task s (env n) (nm n) (func n) (arg n) (b + n))"
      "task_all_nums v = task_all_nums u + 1"
    by (auto simp: u(7))
  have "?q PoolList = []" "sched_ok v (started [a n] ?q)" using u(2) v(2) by (simp_all add: can_start_def)
  then have I: "I v (started [a n] ?q)" by (intro keeps [OF u(3) _ _ _ _ v(3)]) (use new u(7) v(4) in auto)
  have "tasks v (a i) = Some (started_task s (env i) (nm i) (func i) (arg i) (b + i))" if "i < Suc n" for i
  proof (cases "i = n")
    case False
    then have "i < n" using that by simp
    moreover from this have "a i \<noteq> a n" using new(1) by (metis imageI lessThan_iff)
    ultimately show ?thesis using u(6) v(4) by simp
  qed (simp add: v(4))
  moreover have "dom (tasks v) = a ` {..<Suc n} \<union> dom (tasks s)" using u(7) v(4) by (auto simp: lessThan_Suc)
  moreover have "\<forall>x. x \<notin> a ` {..<Suc n} \<longrightarrow> tasks v x = tasks s x"
    using u(8) v(4) by (auto simp: lessThan_Suc)
  moreover have "same_rest v s" using u(4) v(3) by (simp add: same_rest_def)
  ultimately show ?case
    using u(1,5) v(1,2,5) I Suc.prems(6) [of n] by (intro exI [of _ v]) (simp add: add.assoc)
qed

end

interpretation plain: task_starts sched_ok
  by unfold_locales

interpretation with_alarms: task_starts "\<lambda>s q. timers_ok s q w j" for w j
proof unfold_locales
  fix s q u t
  assume ok: "timers_ok s q w j" and u: "sched_ok u (started [t] q)"
    and t: "t \<notin> dom (tasks s)" "dom (tasks u) = insert t (dom (tasks s))" and p: "q PoolList = []" and f: "same_rest u s"
  have "sleeping u (started [t] q) v" if "sleeping s q v" for v
    using that t same_restD [OF f] by (auto simp: sleeping_def off_lists_ready)
  then have "sleep_ok (calls (tnodes (timers s))) (members w) u (started [t] q)"
    using timers_okD(4,6) [OF ok] u p unfolding sleep_ok_def by auto
  then show "timers_ok u (started [t] q) w j"
    using timers_okD(1-3) [OF ok] same_restD [OF f] by (simp add: timers_ok_def)
qed

section \<open>After init\<close>

text \<open>
  \<open>fresh_start s W t n a m\<close>: before \<open>main\<close> nothing exists, \<open>malloc\<close> gives the main task \<open>t\<close>, the
  timer \<open>n\<close> and then \<open>m\<close> more tasks at different addresses, and the alarm can be set.
\<close>

definition fresh_start :: "sys \<Rightarrow> 'k world \<Rightarrow> nat \<Rightarrow> nat \<Rightarrow> (nat \<Rightarrow> nat) \<Rightarrow> nat \<Rightarrow> bool" where
  "fresh_start s W t n a m \<longleftrightarrow> boot_state s \<and> ConsoleLock \<notin> dom (locks s) \<and> TimerLock \<notin> dom (locks s) \<and>
     tnodes (timers s) = Map.empty \<and> (\<forall>n. tlinks (timers s) (Node n) = None) \<and>
     new_task (main_env W) = Some t \<and> manager_ok W \<and> clean_node W = Some n \<and>
     (\<forall>v. timer_set W v \<noteq> - 1) \<and> (\<forall>i<m. new_task (task_env W i) = Some (a i)) \<and>
     inj_on a {..<m} \<and> t \<notin> a ` {..<m}"

lemma start_library_run:
  assumes f: "fresh_start s W t n a m"
  defines "j \<equiv> get_jiffies (boot_clock W)"
  shows "\<exists>u. start_library W s = Done () u \<and> can_start u (main_queues t) 1 \<and>
    timers_ok u (main_queues t) (first_wheel j n) j \<and> dom (tnodes (timers u)) = {n} \<and>
    tasks u = [t \<mapsto> fresh_task (main_env W) ''main'' 3 1 TASK_RUNNING False] \<and>
    current_task u = Some t \<and> main_task u = Some t \<and> tid_start u = 1 \<and> task_all_nums u = 1 \<and>
    locks u ConsoleLock = Some free_lock"
proof -
  have i: "boot_state s" "ConsoleLock \<notin> dom (locks s)" "TimerLock \<notin> dom (locks s)"
      "tnodes (timers s) = Map.empty" "\<forall>n. tlinks (timers s) (Node n) = None"
      "new_task (main_env W) = Some t" "manager_ok W" "clean_node W = Some n"
    using f by (simp_all add: fresh_start_def)
  have v: "timer_set W v \<noteq> - 1" for v using f by (simp add: fresh_start_def)
  obtain u where u: "init (main_env W) True (boot_clock W) (Some n) (timer_set W) s = Done () u"
      "timers_ok u (main_queues t) (first_wheel j n) j" "current_task u = Some t"
      "locks u ConsoleLock = Some free_lock" "locks u TidLock = Some free_lock"
      "tasks u = [t \<mapsto> fresh_task (main_env W) ''main'' 3 1 TASK_RUNNING False]"
      "main_task u = Some t" "tid_start u = 1" "task_all_nums u = 1"
      "pool_map 1000800 (tid_bitmap u)" "\<forall>i. bit_of (tid_bitmap u) i = (i = 0)"
      "tnodes (timers u) = [n \<mapsto> \<lparr>uExpires = j + 150000, uPeriod = 150000,
        timerFn = Clean_Dead_Task, pParam = Manager_Param\<rparr>]"
    using init_run [where setitimer = "timer_set W" and clock = "boot_clock W" and n = n, OF i(1-6) v, folded j_def]
    by (elim exE conjE) (rule that; assumption)
  then show ?thesis
    using i(7,8) timers_okD(5) [OF u(2)]
    by (intro exI [of _ u]) (simp add: start_library_def can_start_def main_queues_def)
qed

section \<open>Starting the examples\<close>

lemma for_loop_cong: "(\<And>i x. i < n \<Longrightarrow> b i x = c i x) \<Longrightarrow> for_loop n b x = for_loop n c x"
  by (induction n) auto

lemma decimal_small:
  assumes "k < 100"
  shows "decimal (of_nat k) = digits k" "length (digits k) \<le> 2"
proof -
  have "sint (of_nat k :: 32 word) = signed_take_bit 31 (int k)" by (simp add: signed_of_nat)
  then have "sint (of_nat k :: 32 word) = int k" using assms by (simp add: signed_take_bit_int_eq_self)
  then show "decimal (of_nat k) = digits k" by (simp add: decimal_def)
  show "length (digits k) \<le> 2" using length_digits [of k 2] assms by simp
qed

lemma start_sleeper_run:
  assumes "arr i = Some v" and "i < 10"
  shows "start_sleeper W fn arr i x = start (task_env W (Suc i)) (digits (Suc i)) fn v x"
  using decimal_small [of "Suc i"] assms by (simp add: start_sleeper_def sprintf_in_def del: of_nat_Suc)

lemma sleep_main_run:
  assumes f: "fresh_start s W t n a 11" and arr: "\<forall>i<10. arr i = Some (v i)"
  defines "j \<equiv> get_jiffies (boot_clock W)"
  shows "\<exists>u. sleep_main W fn str_1 arr k s = for_loop k (\<lambda>i. console_put_str (written W i) []) u \<and>
    timers_ok u (started (map a [0..<11]) (main_queues t)) (first_wheel j n) j \<and> current_task u = Some t \<and>
    (\<forall>i<11. \<exists>ts. tasks u (a i) = Some ts \<and> status ts = TASK_READY \<and> rdi (tcontext ts) = fn \<and>
       (if i = 0 then tname ts = ''tast1'' \<and> rsi (tcontext ts) = str_1
        else tname ts = digits i \<and> rsi (tcontext ts) = v (i - 1)))"
proof -
  let ?arg = "\<lambda>i. if i = 0 then str_1 else v (i - 1)"
  let ?nm = "\<lambda>i. if i = 0 then ''tast1'' else digits i"
  let ?body = "\<lambda>i. start (task_env W i) (?nm i) fn (?arg i)"
  obtain u where u: "start_library W s = Done () u" "can_start u (main_queues t) 1"
      "timers_ok u (main_queues t) (first_wheel j n) j"
      "tasks u = [t \<mapsto> fresh_task (main_env W) ''main'' 3 1 TASK_RUNNING False]" "current_task u = Some t"
    using start_library_run [OF f] unfolding j_def by blast
  have a: "new_task (task_env W i) = Some (a i)" "length (?nm i) < 32" if "i < 11" for i
    using f that decimal_small(2) [of i] by (auto simp: fresh_start_def)
  have d: "inj_on a {..<11}" "a ` {..<11} \<inter> dom (tasks u) = {}"
    using f by (auto simp: fresh_start_def u(4))
  obtain w where w: "for_loop 11 ?body u = Done () w"
      "timers_ok w (started (map a [0..<11]) (main_queues t)) (first_wheel j n) j" "same_rest w u"
      "\<forall>i<11. tasks w (a i) = Some (started_task u (task_env W i) (?nm i) fn (?arg i) (1 + i))"
    using with_alarms.start_loop_run [where nm = ?nm and body = ?body and func = "\<lambda>_. fn" and arg = ?arg,
        OF u(2,3) _ a(2,1) d refl] by auto
  have loop: "for_loop 10 (start_sleeper W fn arr) = for_loop 10 (\<lambda>i. ?body (Suc i))"
    by (rule ext, rule for_loop_cong) (simp add: start_sleeper_run [OF arr [rule_format]])
  have "bind_run (?body 0 u) (\<lambda>_. for_loop 10 (start_sleeper W fn arr)) = Done () w"
    unfolding loop using for_loop_first [of 10 ?body u] w(1) by simp
  then have "sleep_main W fn str_1 arr k s = for_loop k (\<lambda>i. console_put_str (written W i) []) w"
    using u(1) by (simp add: sleep_main_def sleep_thread_number_def bind_run_assoc [symmetric])
  then show ?thesis
    using w(2,4) same_restD(1) [OF w(3)] u(5)
    by (intro exI [of _ w]) (simp add: started_task_def fresh_task_def head_task_def first_context_def)
qed

lemma timer_main_run:
  assumes f: "fresh_start s W t n a 100" and m: "m \<noteq> n"
  defines "j \<equiv> get_jiffies (boot_clock W)"
  shows "\<exists>u. timer_main W (Some m) arg k s = for_loop k (sleep_and_put W 1 ''maiN '') u \<and>
    sched_ok u (started (map a [0..<100]) (main_queues t)) \<and> current_task u = Some t \<and>
    wheel_ok (timers u) (put (\<lambda>_. j + 10000) j m (first_wheel j n)) \<and>
    tnodes (timers u) m = Some \<lparr>uExpires = j + 10000, uPeriod = 10000, timerFn = Client 0, pParam = Manager_Param\<rparr> \<and>
    (\<forall>i<100. \<exists>ts. tasks u (a i) = Some ts \<and> status ts = TASK_READY \<and>
       rdi (tcontext ts) = 10 \<and> rsi (tcontext ts) = arg)"
proof -
  let ?body = "\<lambda>i. start (task_env W i) ''abc'' timer_thread_number arg"
  obtain u where u: "start_library W s = Done () u" "can_start u (main_queues t) 1"
      "timers_ok u (main_queues t) (first_wheel j n) j" "dom (tnodes (timers u)) = {n}"
      "tasks u = [t \<mapsto> fresh_task (main_env W) ''main'' 3 1 TASK_RUNNING False]" "current_task u = Some t"
    using start_library_run [OF f] unfolding j_def by blast
  note o = timers_okD [OF u(3)]
  obtain ts where ts: "create_timer (Some (Client 0)) Manager_Param 10000 10000 (Some m) u =
        Done (Some m) (u\<lparr>timers := ts, blocked := False\<rparr>)"
      "wheel_ok ts (put (\<lambda>_. j + 10000) j m (first_wheel j n))"
      "tnodes ts m = Some \<lparr>uExpires = j + 10000, uPeriod = 10000, timerFn = Client 0, pParam = Manager_Param\<rparr>"
    using create_timer_run [OF o(1,2) _ o(5,6,3) u(6), of m "Client 0" Manager_Param 10000 10000] u(4) m by auto
  let ?u = "u\<lparr>timers := ts, blocked := False\<rparr>"
  have "sched_ok ?u (main_queues t)" using o(5) by (subst sched_ok_frame [of _ u]) simp_all
  then have c: "can_start ?u (main_queues t) 1" "sched_ok ?u (main_queues t)" using u(2) by (simp_all add: can_start_def)
  have a: "new_task (task_env W i) = Some (a i)" if "i < 100" for i
    using f that by (simp add: fresh_start_def)
  have d: "inj_on a {..<100}" "a ` {..<100} \<inter> dom (tasks ?u) = {}"
    using f by (auto simp: fresh_start_def u(5))
  obtain w where w: "for_loop 100 ?body ?u = Done () w" "sched_ok w (started (map a [0..<100]) (main_queues t))"
      "same_rest w ?u" "\<forall>i<100. tasks w (a i) = Some (started_task ?u (task_env W i) ''abc'' timer_thread_number arg (1 + i))"
    using plain.start_loop_run [where nm = "\<lambda>_. ''abc''" and body = ?body and func = "\<lambda>_. timer_thread_number" and arg = "\<lambda>_. arg",
        OF c _ _ a d refl] by auto
  have "timer_main W (Some m) arg k s = for_loop k (sleep_and_put W 1 ''maiN '') w"
    using u(1) ts(1) w(1) by (simp add: timer_main_def)
  then show ?thesis
    using w(2,4) same_restD [OF w(3)] u(6) ts(2,3)
    by (intro exI [of _ w])
      (simp add: started_task_def fresh_task_def head_task_def first_context_def timer_thread_number_def)
qed

end
