(* ===== verification/Runs.thy ===== *)
theory Runs
  imports Programs
begin

text \<open>
  The library over a whole run: a sequence of alarms and of calls of the tasks, each call of
  the task that runs. What the clock shows, what \<open>malloc\<close> gives and which calls are made is
  a part of the events; an event is one handler or one function of the library, whole.
\<close>

section \<open>Events and runs\<close>

datatype event =
    On_Alarm timespec "nat option" sigcontext
  | Call_Sleep "32 word"
  | Call_Usleep "32 word"
  | Call_Nanosleep timespec
  | Call_Put nat string
  | Call_Hook
  | Call_Start alloc_env string "32 word" "64 word" "64 word"
  | Call_Exit

text \<open>The state in which a call returns, or leaves the processor to another task.\<close>

definition after_run :: "(sys, 'a) run \<Rightarrow> sys result" where
  "after_run m = (case m of Done _ s \<Rightarrow> Inr s | Switch s _ \<Rightarrow> Inr s | Leave s \<Rightarrow> Inr s | Fail e \<Rightarrow> Inl e)"

lemma after_run_simps [simp]:
  "after_run (Done a s) = Inr s" "after_run (Switch s k) = Inr s" "after_run (Leave s) = Inr s"
  "after_run (Fail e) = Inl e"
  by (simp_all add: after_run_def)

fun event_step :: "'k libc \<Rightarrow> clients \<Rightarrow> event \<Rightarrow> sys \<Rightarrow> sys result" where
  "event_step lc client (On_Alarm clock new frame) s = after_run (signal_headler client clock new frame s)"
| "event_step lc client (Call_Sleep seconds) s = after_run (sleep lc seconds s)"
| "event_step lc client (Call_Usleep usec) s = after_run (usleep lc usec s)"
| "event_step lc client (Call_Nanosleep req) s = after_run (nanosleep lc req s)"
| "event_step lc client (Call_Put n str) s = after_run (console_put_str n str s)"
| "event_step lc client Call_Hook s = co_enable_hook_sys s"
| "event_step lc client (Call_Start env nm prio func arg) s = after_run (task_start env nm prio func arg s)"
| "event_step lc client Call_Exit s = andthen (current s) (\<lambda>c. after_run (task_exit c s))"

primrec run_events :: "'k libc \<Rightarrow> clients \<Rightarrow> event list \<Rightarrow> sys \<Rightarrow> sys result" where
  "run_events lc client [] s = Inr s"
| "run_events lc client (e # es) s = andthen (event_step lc client e s) (run_events lc client es)"

text \<open>
  What the environment and the tasks have to keep to. The clock does not run backwards and has
  not wrapped. \<open>malloc\<close> gives fresh memory. A task that has asked to sleep makes no call until it
  is woken. When the running task goes to sleep or ends, another task is ready; a task that ends
  leaves at least eight, and its id is in the pool; tasks are started while no task has ended,
  with a name that fits and a priority of at most \<open>P\<close>.
\<close>

definition dozing :: "sys \<Rightarrow> bool" where
  "dozing s = (case current_task s of None \<Rightarrow> False | Some c \<Rightarrow> marks s c = Some True)"

definition running_tid :: "sys \<Rightarrow> 32 word" where
  "running_tid s = (case current_task s of None \<Rightarrow> 0 | Some c \<Rightarrow>
     (case tasks s c of None \<Rightarrow> 0 | Some ts \<Rightarrow> scast (tid ts)))"

fun event_ok :: "nat \<Rightarrow> event \<Rightarrow> sys \<Rightarrow> bool" where
  "event_ok P (On_Alarm clock new frame) s \<longleftrightarrow>
     (case manager_mem (timers s) of None \<Rightarrow> False | Some m \<Rightarrow> unat (uJiffies m) \<le> Suc (unat (get_jiffies clock))) \<and>
     Suc (unat (get_jiffies clock)) < 2 ^ 32 \<and>
     (dozing s \<longrightarrow> is_empty ReadyList s = Inr False \<and>
        (case new of None \<Rightarrow> False | Some n \<Rightarrow> tnodes (timers s) n = None))"
| "event_ok P (Call_Sleep seconds) s \<longleftrightarrow> \<not> dozing s"
| "event_ok P (Call_Usleep usec) s \<longleftrightarrow> \<not> dozing s"
| "event_ok P (Call_Nanosleep req) s \<longleftrightarrow> \<not> dozing s"
| "event_ok P (Call_Put n str) s \<longleftrightarrow> \<not> dozing s"
| "event_ok P Call_Hook s \<longleftrightarrow> \<not> dozing s"
| "event_ok P (Call_Start env nm prio func arg) s \<longleftrightarrow> \<not> dozing s \<and>
     (case new_task env of None \<Rightarrow> False | Some t \<Rightarrow> tasks s t = None) \<and> length nm < 32 \<and>
     unat (ucast prio :: uint8_t) \<le> P \<and> is_empty PoolList s = Inr True \<and>
     (\<exists>i<nbits (tid_bitmap s). \<not> bit_of (tid_bitmap s) i)"
| "event_ok P Call_Exit s \<longleftrightarrow> \<not> dozing s \<and> is_empty ReadyList s = Inr False \<and>
     8 \<le> sint (task_all_nums s - 1) \<and> unat (running_tid s - tid_start s) < nbits (tid_bitmap s)"

primrec events_ok :: "'k libc \<Rightarrow> clients \<Rightarrow> nat \<Rightarrow> event list \<Rightarrow> sys \<Rightarrow> bool" where
  "events_ok lc client P [] s \<longleftrightarrow> True"
| "events_ok lc client P (e # es) s \<longleftrightarrow> event_ok P e s \<and>
     (case event_step lc client e s of Inl _ \<Rightarrow> True | Inr u \<Rightarrow> events_ok lc client P es u)"

definition is_alarm :: "event \<Rightarrow> bool" where
  "is_alarm e = (case e of On_Alarm _ _ _ \<Rightarrow> True | _ \<Rightarrow> False)"

definition alarm_count :: "event list \<Rightarrow> nat" where
  "alarm_count es = length (filter is_alarm es)"

lemma alarm_count_simps [simp]:
  "alarm_count [] = 0" "alarm_count (e # es) = (if is_alarm e then 1 else 0) + alarm_count es"
  "alarm_count (es @ fs) = alarm_count es + alarm_count fs"
  by (simp_all add: alarm_count_def)

lemma run_events_append:
  "run_events lc client (es @ fs) s = andthen (run_events lc client es s) (run_events lc client fs)"
  by (induction es arbitrary: s) (auto simp: andthen_def split: sum.split)

section \<open>The state between two events\<close>

text \<open>The tasks that can still run: the running task, the ready ones and those a timer wakes.\<close>

definition live :: "sys \<Rightarrow> (list_id \<Rightarrow> nat list) \<Rightarrow> (timer_ref \<Rightarrow> nat list) \<Rightarrow> nat set" where
  "live s q w = set_option (current_task s) \<union> set (q ReadyList) \<union>
     {t. \<exists>n\<in>members w. wakes (calls (tnodes (timers s))) n t}"

text \<open>No slice is longer than \<open>P\<close>, and no stack has run over.\<close>

definition slices_le :: "nat \<Rightarrow> slices \<Rightarrow> bool" where
  "slices_le P m \<longleftrightarrow> (\<forall>t k p g. m t = Some (k, p, g) \<longrightarrow> unat k \<le> P \<and> unat p \<le> P \<and> g = 0x19991120)"

definition in_order ::
  "nat \<Rightarrow> sys \<Rightarrow> (list_id \<Rightarrow> nat list) \<Rightarrow> (timer_ref \<Rightarrow> nat list) \<Rightarrow> 32 word \<Rightarrow> bool" where
  "in_order P s q w j \<longleftrightarrow> timers_ok s q w j \<and>
     (\<forall>k\<in>{TidLock, ConsoleLock}. locks s k = Some free_lock \<and> q (Waiters k) = []) \<and>
     (\<exists>m. main_task s = Some m \<and> m \<in> dom (tasks s)) \<and> wf_bitmap (tid_bitmap s) \<and>
     live s q w \<subseteq> set (q AllList) - set (q PoolList) \<and>
     slices_le P (slices s) \<and> (\<forall>t\<in>set (q ReadyList). marks s t = Some False)"

lemma in_orderD:
  assumes "in_order P s q w j"
  shows "timers_ok s q w j" "sched_ok s q" "locks s TidLock = Some free_lock" "locks s ConsoleLock = Some free_lock"
    "q (Waiters TidLock) = []" "q (Waiters ConsoleLock) = []" "\<exists>m. main_task s = Some m \<and> m \<in> dom (tasks s)"
    "pool_map (nbits (tid_bitmap s)) (tid_bitmap s)" "live s q w \<subseteq> set (q AllList) - set (q PoolList)"
    "slices_le P (slices s)" "t \<in> set (q ReadyList) \<Longrightarrow> marks s t = Some False"
  using assms by (auto simp: in_order_def pool_map_def dest: timers_okD(5))

text \<open>The running task and what the scheduler knows of it.\<close>

lemma running:
  assumes "in_order P s q w j"
  obtains c ts where "current_task s = Some c" "tasks s c = Some ts" "stack_magic ts = 0x19991120"
    "unat (ticks ts) \<le> P" "unat (priority ts) \<le> P" "c \<in> set (q AllList)" "c \<notin> set (q PoolList)"
    "c \<notin> set (q ReadyList)" "dozing s = is_collaborative_schedule ts"
proof -
  obtain c ts where c: "current_task s = Some c" "tasks s c = Some ts" "c \<notin> set (q ReadyList)"
    using in_orderD(2) [OF assms] by (auto simp: sched_ok_def off_lists_ready)
  moreover have "slices s c = Some (ticks ts, priority ts, stack_magic ts)" using c by (simp add: slices_def)
  moreover have "c \<in> live s q w" using c by (simp add: live_def)
  ultimately show ?thesis
    using that in_orderD(9,10) [OF assms] c by (auto simp: dozing_def marks_def slices_le_def)
qed

lemma lists_empty: "sched_ok s q \<Longrightarrow> is_empty ReadyList s = Inr (q ReadyList = [])"
  "sched_ok s q \<Longrightarrow> is_empty PoolList s = Inr (q PoolList = [])"
  using linked_empty [of "valid_lists s" "dom (tasks s)" "cells s" q ReadyList]
    linked_empty [of "valid_lists s" "dom (tasks s)" "cells s" q PoolList]
  by (simp_all add: sched_ok_def linked_def is_empty_def)

section \<open>Progress of a ready task\<close>

text \<open>
  The ticks that are left of the running task's slice, and what one event does to the place of
  every ready task: it runs, or keeps its place with no more slices before it; an alarm takes
  away a tick.
\<close>

definition ticks_left :: "sys \<Rightarrow> nat" where
  "ticks_left s = (case current_task s of None \<Rightarrow> 0 | Some c \<Rightarrow>
     (case slices s c of None \<Rightarrow> 0 | Some (k, _) \<Rightarrow> unat k))"

definition queue_moves :: "nat \<Rightarrow> nat \<Rightarrow> sys \<Rightarrow> nat list \<Rightarrow> sys \<Rightarrow> nat list \<Rightarrow> bool" where
  "queue_moves P d s rs s' rs' \<longleftrightarrow> (\<forall>xs t ys. rs = xs @ t # ys \<longrightarrow>
     current_task s' = Some t \<or>
     (\<exists>xs' ys'. rs' = xs' @ t # ys' \<and>
        ticks_left s' + length xs' * Suc P + d \<le> ticks_left s + length xs * Suc P))"

lemma queue_same:
  assumes "ticks_left s' + d \<le> ticks_left s" shows "queue_moves P d s rs s' (rs @ ns)"
  using assms unfolding queue_moves_def by fastforce

text \<open>The first ready task takes over.\<close>

lemma queue_next:
  assumes "current_task s' = Some (hd (rs @ ns))" and "ticks_left s' \<le> P" and "d \<le> 1"
  shows "queue_moves P d s rs s' (tl (rs @ ns))"
  unfolding queue_moves_def
proof (intro allI impI)
  fix xs t ys assume rs: "rs = xs @ t # ys"
  show "current_task s' = Some t \<or> (\<exists>xs' ys'. tl (rs @ ns) = xs' @ t # ys' \<and>
      ticks_left s' + length xs' * Suc P + d \<le> ticks_left s + length xs * Suc P)"
  proof (cases xs)
    case (Cons x xs')
    then have "tl (rs @ ns) = xs' @ t # (ys @ ns)" using rs by simp
    moreover have "ticks_left s' + length xs' * Suc P + d \<le> ticks_left s + length xs * Suc P"
      using assms(2,3) Cons by simp
    ultimately show ?thesis by blast
  qed (use rs assms(1) in simp)
qed


section \<open>What one event does\<close>

text \<open>
  The state is in order again, the time of the wheel does not go back, and no ready task loses
  ground; a task that was awake and did not run stays awake; and a timer that wakes a task runs
  when the wheel passes its time.
\<close>

definition event_moves ::
  "nat \<Rightarrow> event \<Rightarrow> sys \<Rightarrow> (list_id \<Rightarrow> nat list) \<Rightarrow> (timer_ref \<Rightarrow> nat list) \<Rightarrow> 32 word \<Rightarrow>
   sys \<Rightarrow> (list_id \<Rightarrow> nat list) \<Rightarrow> (timer_ref \<Rightarrow> nat list) \<Rightarrow> 32 word \<Rightarrow> bool" where
  "event_moves P e s q w j s' q' w' j' \<longleftrightarrow> in_order P s' q' w' j' \<and> unat j \<le> unat j' \<and>
     queue_moves P (if is_alarm e then 1 else 0) s (q ReadyList) s' (q' ReadyList) \<and>
     dom (tasks s) \<subseteq> dom (tasks s') \<and>
     (\<forall>t. marks s' t = Some True \<longrightarrow> marks s t = Some True \<or> current_task s = Some t \<and> \<not> is_alarm e) \<and>
     (\<forall>n t e r. pending n (wake_node e t) r j (tnodes (timers s), w) \<longrightarrow>
        (if unat j + r < unat j'
         then (t \<in> set (q' ReadyList) \<or> current_task s' = Some t) \<and> marks s' t = Some False
         else pending n (wake_node e t) (unat j + r - unat j') j' (tnodes (timers s'), w')))"

lemma slices_le_steps:
  assumes "slices_le P m"
  shows "slices_le P (refill T m)" "m c = Some (k, p, g) \<Longrightarrow> k \<noteq> 0 \<Longrightarrow> slices_le P (spend c m)"
proof -
  show "slices_le P (refill T m)" using assms by (auto simp: slices_le_def refill_def)
  assume m: "m c = Some (k, p, g)" "k \<noteq> 0"
  have b: "unat k \<le> P \<and> unat p \<le> P \<and> g = 0x19991120" using assms m(1) unfolding slices_le_def by blast
  show "slices_le P (spend c m)"
    unfolding slices_le_def
  proof (intro allI impI)
    fix t a b' d assume t: "spend c m t = Some (a, b', d)"
    show "unat a \<le> P \<and> unat b' \<le> P \<and> d = 0x19991120"
    proof (cases "t = c")
      case True
      then show ?thesis using t b m by (auto simp: spend_def unat_minus_one)
    next
      case False
      then show ?thesis using t assms unfolding slices_le_def by (simp add: spend_def)
    qed
  qed
qed

lemma slices_dom:
  "dom (slices s) = dom (tasks s)" "dom (refill T m) = dom m" "dom (spend c m) = dom m"
  "dom (next_slices b k c m) = dom m"
proof -
  show r: "dom (refill T m) = dom m" for T by (auto simp: refill_def split: if_splits)
  show p: "dom (spend c m) = dom m" by (auto simp: spend_def)
  show "dom (slices s) = dom (tasks s)" by (auto simp: slices_def)
  show "dom (next_slices b k c m) = dom m" using r [of "{c}"] p by (simp add: next_slices_def)
qed

lemma slices_le_next: "slices_le P m \<Longrightarrow> m c = Some (k, p, g) \<Longrightarrow> slices_le P (next_slices b k c m)"
  using slices_le_steps(1) [of P m "{c}"] slices_le_steps(2) [of P m c k p g] by (simp add: next_slices_def)

lemma ticks_left_le: "in_order P s q w j \<Longrightarrow> ticks_left s \<le> P"
  by (erule running) (simp add: ticks_left_def slices_def)

text \<open>An event that is not an alarm leaves the wheel and the time as they are.\<close>

lemma calm_event:
  assumes "in_order P s' q' w j" and "\<not> is_alarm e"
    and "queue_moves P 0 s (q ReadyList) s' (q' ReadyList)" and "timers s' = timers s"
    and "dom (tasks s) \<subseteq> dom (tasks s')"
    and "\<And>t. marks s' t = Some True \<Longrightarrow> marks s t = Some True \<or> current_task s = Some t"
  shows "event_moves P e s q w j s' q' w j"
  using assms by (auto simp: event_moves_def)

text \<open>A change of the running task's structure, and of what no list holds.\<close>

lemma in_order_same:
  assumes ok: "in_order P s q w j" and t: "timers_ok s' q w j"
    and f: "current_task s' = current_task s" "timers s' = timers s" "locks s' = locks s" "same_ids s' s"
      "dom (tasks s') = dom (tasks s)" "slices s' = slices s"
      "\<And>t. current_task s \<noteq> Some t \<Longrightarrow> marks s' t = marks s t"
  shows "in_order P s' q w j" "ticks_left s' = ticks_left s"
proof -
  have "current_task s \<noteq> Some t" if "t \<in> set (q ReadyList)" for t
    using that by (auto intro: running [OF ok])
  then have "\<forall>t\<in>set (q ReadyList). marks s' t = Some False" using in_orderD(11) [OF ok] f(7) by simp
  moreover have "live s' q w = live s q w" using f(1,2) by (simp add: live_def)
  ultimately show "in_order P s' q w j"
    using ok t f(3-6) same_idsD(1,3) [OF f(4)] by (simp add: in_order_def)
  show "ticks_left s' = ticks_left s" by (simp only: ticks_left_def f(1,6))
qed

lemma upd_running:
  assumes ok: "in_order P s q w j" and c: "current_task s = Some c" "tasks s c = Some ts" and e: "\<not> is_alarm e"
    and u: "status ts' = status ts" "ticks ts' = ticks ts" "priority ts' = priority ts"
      "stack_magic ts' = stack_magic ts"
  shows "event_moves P e s q w j (s\<lparr>tasks := (tasks s)(c \<mapsto> ts')\<rparr>) q w j"
proof -
  let ?s = "s\<lparr>tasks := (tasks s)(c \<mapsto> ts')\<rparr>"
  have t: "timers_ok ?s q w j" by (rule timers_ok_upd [OF in_orderD(1) [OF ok] c(2) u(1)])
  have "slices ?s = slices s" "dom (tasks ?s) = dom (tasks s)" "same_ids ?s s"
    using c(2) u(2-4) by (auto simp: slices_def fun_eq_iff same_ids_def)
  moreover have "marks ?s t = marks s t" if "current_task s \<noteq> Some t" for t
    using that c by (simp add: marks_def)
  ultimately have i: "in_order P ?s q w j" "ticks_left ?s = ticks_left s"
    using in_order_same [OF ok t] by simp_all
  show ?thesis
  proof (rule calm_event [OF i(1) e])
    show "queue_moves P 0 s (q ReadyList) ?s (q ReadyList)"
      using queue_same [of ?s 0 s P "q ReadyList" "[]"] i(2) by simp
    show "marks s t = Some True \<or> current_task s = Some t" if "marks ?s t = Some True" for t
      using that c(1) by (cases "t = c") (simp_all add: marks_def)
  qed auto
qed

text \<open>The three ways to sleep.\<close>

lemma doze_moves:
  assumes ok: "in_order P s q w j" and e: "\<not> is_alarm e"
    and hooked: "\<And>c ts. current_task s = Some c \<Longrightarrow> tasks s c = Some ts \<Longrightarrow> is_hook ts \<Longrightarrow>
      \<exists>ms k. m = Switch (s\<lparr>tasks := (tasks s)(c \<mapsto> marked_asleep ms ts)\<rparr>) k"
    and plain: "\<And>c ts. current_task s = Some c \<Longrightarrow> tasks s c = Some ts \<Longrightarrow> \<not> is_hook ts \<Longrightarrow> \<exists>a. m = Done a s"
  shows "\<exists>s'. after_run m = Inr s' \<and> event_moves P e s q w j s' q w j"
proof -
  obtain c ts where c: "current_task s = Some c" "tasks s c = Some ts" by (rule running [OF ok])
  show ?thesis
  proof (cases "is_hook ts")
    case True
    then obtain ms k where m: "m = Switch (s\<lparr>tasks := (tasks s)(c \<mapsto> marked_asleep ms ts)\<rparr>) k"
      using hooked [OF c] by blast
    have "event_moves P e s q w j (s\<lparr>tasks := (tasks s)(c \<mapsto> marked_asleep ms ts)\<rparr>) q w j"
      by (rule upd_running [OF ok c e]) (simp_all add: marked_asleep_def)
    then show ?thesis using m by simp
  next
    case False
    have "event_moves P e s q w j (s\<lparr>tasks := (tasks s)(c \<mapsto> ts)\<rparr>) q w j"
      by (rule upd_running [OF ok c e]) simp_all
    moreover have "s\<lparr>tasks := (tasks s)(c \<mapsto> ts)\<rparr> = s" using fun_upd_idem [of "tasks s" c, OF c(2)] by simp
    ultimately show ?thesis using plain [OF c False] by auto
  qed
qed

lemma sleep_moves:
  assumes ok: "in_order P s q w j"
  shows "\<exists>s'. after_run (sleep lc n s) = Inr s' \<and> event_moves P (Call_Sleep n) s q w j s' q w j"
    and "\<exists>s'. after_run (usleep lc n s) = Inr s' \<and> event_moves P (Call_Usleep n) s q w j s' q w j"
    and "\<exists>s'. after_run (nanosleep lc req s) = Inr s' \<and> event_moves P (Call_Nanosleep req) s q w j s' q w j"
  by (rule doze_moves [OF ok];
      use sleep_run [of s] hooked [of s] in \<open>fastforce simp: is_alarm_def sleep_def usleep_def nanosleep_def\<close>)+

lemma hook_moves:
  assumes ok: "in_order P s q w j"
  shows "\<exists>s'. co_enable_hook_sys s = Inr s' \<and> event_moves P Call_Hook s q w j s' q w j"
proof -
  obtain c ts where c: "current_task s = Some c" "tasks s c = Some ts" by (rule running [OF ok])
  have "event_moves P Call_Hook s q w j (s\<lparr>tasks := (tasks s)(c \<mapsto> ts\<lparr>is_hook := True\<rparr>)\<rparr>) q w j"
    by (rule upd_running [OF ok c]) (simp_all add: is_alarm_def)
  then show ?thesis using co_enable_run [OF c] by simp
qed

lemma put_moves:
  assumes ok: "in_order P s q w j"
  shows "\<exists>s'. after_run (console_put_str n str s) = Inr s' \<and> event_moves P (Call_Put n str) s q w j s' q w j"
proof -
  obtain c ts where c: "current_task s = Some c" "tasks s c = Some ts" by (rule running [OF ok])
  let ?s = "put_out (take n str) s"
  have f: "same_ids ?s s" "dom (tasks ?s) = dom (tasks s)" "slices ?s = slices s" "marks ?s = marks s"
    by (simp_all add: same_ids_def slices_def marks_def fun_eq_iff put_out_def)
  from in_order_same [OF ok timers_ok_put_out [OF in_orderD(1) [OF ok]] _ _ _ f(1-3)]
  have i: "in_order P ?s q w j" "ticks_left ?s = ticks_left s" by (simp_all add: f(4))
  have "queue_moves P 0 s (q ReadyList) ?s (q ReadyList)"
    using queue_same [of ?s 0 s P "q ReadyList" "[]"] i(2) by simp
  from calm_event [where q = q, OF i(1) _ this] have "event_moves P (Call_Put n str) s q w j ?s q w j"
    using f(4) by (simp add: is_alarm_def)
  then show ?thesis using put_quiet [OF in_orderD(2,6,4) [OF ok] c(1), of n str] by simp
qed


section \<open>The alarm\<close>

lemma alarm_queue:
  assumes nt: "nt = next_task b k c (rs @ wk)" and "b \<Longrightarrow> rs @ wk \<noteq> []"
    and s: "current_task s = Some c" "slices s c = Some (k, p, g)"
    and s': "current_task s' = Some (fst nt)" "ticks_left s' \<le> P"
    and t: "\<not> b \<Longrightarrow> k \<noteq> 0 \<Longrightarrow> slices s' c = Some (k - 1, p, g)"
  shows "queue_moves P 1 s rs s' (snd nt)" "insert (fst nt) (set (snd nt)) \<subseteq> (if b then {} else {c}) \<union> (set rs \<union> set wk)"
proof -
  let ?goal = "queue_moves P 1 s rs s' (snd nt) \<and>
    insert (fst nt) (set (snd nt)) \<subseteq> (if b then {} else {c}) \<union> (set rs \<union> set wk)"
  consider (ask) b | (over) "\<not> b" "k = 0" | (on) "\<not> b" "k \<noteq> 0" by blast
  then have ?goal
  proof cases
    case ask
    then have "nt = (hd (rs @ wk), tl (rs @ wk))" using nt by (simp add: next_task_def)
    moreover obtain x xs where "rs @ wk = x # xs" using assms(2) ask by (cases "rs @ wk") auto
    moreover from this have "insert x (set xs) = set rs \<union> set wk" by (metis list.simps(15) set_append)
    ultimately show ?thesis using queue_next [of s' rs wk P 1 s] s' ask by auto
  next
    case over
    then have "nt = (hd (rs @ wk @ [c]), tl (rs @ wk @ [c]))" using nt by (simp add: next_task_def)
    moreover obtain x xs where "rs @ wk @ [c] = x # xs" by (cases "rs @ wk @ [c]") auto
    moreover from this have "insert x (set xs) = insert c (set rs \<union> set wk)"
      by (metis Un_assoc Un_insert_right list.simps(15) set_append list.set(1) sup_bot_right)
    ultimately show ?thesis using queue_next [of s' rs "wk @ [c]" P 1 s] s' over by simp
  next
    case on
    then have nt: "nt = (c, rs @ wk)" using nt by (simp add: next_task_def)
    then have "ticks_left s' = unat k - 1" "ticks_left s = unat k"
      using s s'(1) t [OF on] on(2) by (simp_all add: ticks_left_def unat_minus_one)
    moreover have "0 < unat k" using on(2) by (simp add: unat_gt_0)
    ultimately show ?thesis using queue_same [of s' 1 s P rs wk] nt on by auto
  qed
  then show "queue_moves P 1 s rs s' (snd nt)"
    "insert (fst nt) (set (snd nt)) \<subseteq> (if b then {} else {c}) \<union> (set rs \<union> set wk)" by blast+
qed

lemma alarm_moves:
  assumes ok: "in_order P s q w j" and e: "event_ok P (On_Alarm clock new frame) s"
  defines "j' \<equiv> get_jiffies clock + 1"
  shows "\<exists>s' q' w'. after_run (signal_headler client clock new frame s) = Inr s' \<and>
    event_moves P (On_Alarm clock new frame) s q w j s' q' w' j' \<and> \<not> dozing s' \<and>
    dom (tasks s') = dom (tasks s) \<and>
    (\<forall>c ts ms. current_task s = Some c \<and> tasks s c = Some ts \<and> is_collaborative_schedule ts \<and>
       sleep_millisecond ts = ms \<and> unat j' + unat ms < 2 ^ 32 \<longrightarrow>
       pending (the new) (wake_node (j' + ms) c) (fires_after (unat (j' + ms)) (unat ms)) j' (tnodes (timers s'), w'))"
proof -
  note o = in_orderD [OF ok] and t = timers_okD [OF in_orderD(1) [OF ok]]
  obtain c ts where c: "current_task s = Some c" "tasks s c = Some ts" "stack_magic ts = 0x19991120"
      "c \<in> set (q AllList)" "c \<notin> set (q PoolList)" and a: "dozing s = is_collaborative_schedule ts"
    by (rule running [OF ok])
  let ?b = "is_collaborative_schedule ts" and ?k = "Suc (unat (get_jiffies clock)) - unat j"
  have cl: "unat j \<le> Suc (unat (get_jiffies clock))" "Suc (unat (get_jiffies clock)) < 2 ^ 32"
    using e t(2) by simp_all
  have k: "unat j + ?k = Suc (unat (get_jiffies clock))" using cl(1) by simp
  have j': "unat j' = Suc (unat (get_jiffies clock))" using cl(2) by (simp add: j'_def unat_word_ariths(1))
  have new: "?b \<longrightarrow> (\<exists>n. new = Some n \<and> n \<notin> dom (tnodes (timers s))) \<and> q ReadyList \<noteq> []"
    using e a lists_empty(1) [OF o(2)] by (cases new) auto
  define x where "x = turns ?k j (tnodes (timers s), w)"
  obtain frame' s' w' wk nt where r: "signal_headler client clock new frame s = Done frame' s'"
      "set wk = {t. \<exists>n\<in>members w - members (snd x). wakes (calls (tnodes (timers s))) n t}"
      "nt = next_task ?b (ticks ts) c (q ReadyList @ wk)"
      "timers_ok s' (q(ReadyList := snd nt)) w' j'" "current_task s' = Some (fst nt)"
      "marks s' = (\<lambda>t. if t \<in> set wk then Some False else marks s t)"
      "slices s' = next_slices ?b (ticks ts) c (refill (set wk) (slices s))"
      "(tnodes (timers s'), w') = (if ?b then set_wake j' (the new) c (sleep_millisecond ts) x else x)"
      "locks s' = locks s" "same_ids s' s" "c \<notin> set wk" "members (snd x) \<subseteq> members w"
      "\<forall>n\<in>members (snd x). calls (fst x) n = calls (tnodes (timers s)) n"
    using interrupt_run [OF o(1) c(1-3) k cl(2) new, where client = client and frame = frame]
    unfolding x_def [symmetric] j'_def [symmetric] by (elim exE conjE) (rule that; assumption)
  let ?q = "q(ReadyList := snd nt)"
  have sc: "slices s c = Some (ticks ts, priority ts, stack_magic ts)" using c(2) by (simp add: slices_def)
  have sl: "slices_le P (slices s')"
    unfolding r(7) by (rule slices_le_next [OF slices_le_steps(1) [OF o(10)]])
      (use sc r(11) in \<open>simp add: refill_def\<close>)
  have tl: "ticks_left s' \<le> P" using sl r(5) by (auto simp: ticks_left_def slices_le_def split: option.split)
  have "\<not> ?b \<Longrightarrow> ticks ts \<noteq> 0 \<Longrightarrow> slices s' c = Some (ticks ts - 1, priority ts, stack_magic ts)"
    using sc r(11) by (simp add: r(7) next_slices_def spend_def refill_def)
  from alarm_queue [OF r(3) _ c(1) sc r(5) tl this] new
  have m: "queue_moves P 1 s (q ReadyList) s' (snd nt)"
      "insert (fst nt) (set (snd nt)) \<subseteq> (if ?b then {} else {c}) \<union> (set (q ReadyList) \<union> set wk)" by auto
  have awake: "marks s' u = Some False" if "u \<in> insert (fst nt) (set (snd nt))" for u
    using that m(2) o(11) c(1,2) by (auto simp: r(6) marks_def split: if_splits)
  have wakes: "wakes (calls (tnodes (timers s))) n u \<and> n \<in> members w \<or> u = c"
    if "n \<in> members w'" "wakes (calls (tnodes (timers s'))) n u" for n u
  proof -
    have "n \<in> members (snd x) \<and> wakes (calls (fst x)) n u \<or> u = c"
      using that r(8) by (auto simp: set_wake_def wake_node_def calls_def members_put split: if_splits prod.splits)
    then show ?thesis using r(12,13) by auto
  qed
  have "live s' ?q w' \<subseteq> live s q w"
    using m(2) wakes r(5) c(1) by (auto simp: live_def r(2) split: if_splits)
  moreover have dom: "dom (tasks s') = dom (tasks s)"
    using arg_cong [OF r(7), of dom] by (simp add: slices_dom)
  ultimately have i: "in_order P s' ?q w' j'"
    using o(3-9) r(4,9) sl awake same_idsD(1,3) [OF r(10)] by (auto simp: in_order_def pool_map_def)
  have keeps: "u = fst nt \<or> u \<in> set (snd nt)" if "u \<in> set wk" for u
    using that new next_task_keeps [of ?b "q ReadyList @ wk" "ticks ts" c] unfolding r(3) by (cases ?b) auto
  have pend: "if unat j + i < unat j' then (u \<in> set (?q ReadyList) \<or> current_task s' = Some u) \<and> marks s' u = Some False
      else pending n (wake_node e u) (unat j + i - unat j') j' (tnodes (timers s'), w')"
    if p: "pending n (wake_node e u) i j (tnodes (timers s), w)" for n u e i
  proof -
    have "?b \<Longrightarrow> the new \<notin> dom (tnodes (timers s))" using new by auto
    from pending_alarm [OF o(1) k cl(2) this p, where c = c and ms = "sleep_millisecond ts"] r(12)
    have "if i < ?k then u \<in> set wk
        else pending n (wake_node e u) (i - ?k) j' (tnodes (timers s'), w')"
      unfolding r(2,8) x_def [symmetric] j'_def [symmetric] by simp
    moreover have "i < ?k \<longleftrightarrow> unat j + i < unat j'" "i - ?k = unat j + i - unat j'"
      using k j' by auto
    ultimately show ?thesis using r(5,6) keeps by (auto split: if_splits)
  qed
  have "event_moves P (On_Alarm clock new frame) s q w j s' ?q w' j'"
    unfolding event_moves_def
  proof (intro conjI allI impI)
    show "unat j \<le> unat j'" using cl(1) j' by simp
    show "queue_moves P (if is_alarm (On_Alarm clock new frame) then 1 else 0) s (q ReadyList) s' (?q ReadyList)"
      using m(1) by (simp add: is_alarm_def)
    show "dom (tasks s) \<subseteq> dom (tasks s')" by (simp add: dom)
    show "marks s u = Some True \<or> current_task s = Some u \<and> \<not> is_alarm (On_Alarm clock new frame)"
      if "marks s' u = Some True" for u
      using that by (simp add: r(6) split: if_splits)
  qed (rule i, rule pend)
  moreover have "pending (the new) (wake_node (j' + sleep_millisecond ts) c)
      (fires_after (unat (j' + sleep_millisecond ts)) (unat (sleep_millisecond ts))) j' (tnodes (timers s'), w')"
    if "?b" "unat j' + unat (sleep_millisecond ts) < 2 ^ 32"
    by (rule set_wake_pending [OF timers_okD(1) [OF r(4)] _ that(2)]) (use r(8) that(1) in simp)
  moreover have "\<not> dozing s'" using awake [of "fst nt"] r(5) by (simp add: dozing_def)
  ultimately show ?thesis
    using r(1) c(1,2) dom by (intro exI [of _ s'] exI [of _ ?q] exI [of _ w']) auto
qed


section \<open>Starting and ending tasks\<close>

lemma wake_queues_none: "q (Waiters k) = [] \<Longrightarrow> wake_queues k q = q"
  by (simp add: wake_queues_def)

lemma start_moves:
  assumes ok: "in_order P s q w j" and e: "event_ok P (Call_Start env nm prio func arg) s"
  shows "\<exists>s' q'. after_run (task_start env nm prio func arg s) = Inr s' \<and>
    event_moves P (Call_Start env nm prio func arg) s q w j s' q' w j"
proof -
  note o = in_orderD [OF ok]
  obtain c ts where c: "current_task s = Some c" "tasks s c = Some ts" "c \<in> set (q AllList)"
    by (rule running [OF ok])
  obtain t where t: "new_task env = Some t" "t \<notin> dom (tasks s)" using e by (auto split: option.splits)
  have nm: "length nm < 32" and prio: "unat (ucast prio :: uint8_t) \<le> P" using e by simp_all
  have pl: "q PoolList = []" using e lists_empty(2) [OF o(2)] by simp
  have tm: "Some t \<noteq> main_task s" using o(7) t(2) by auto
  define m where "m = (LEAST i. \<not> bit_of (tid_bitmap s) i)"
  obtain i where i: "i < nbits (tid_bitmap s)" "\<not> bit_of (tid_bitmap s) i" using e by auto
  have "m \<le> i" unfolding m_def by (rule Least_le [of "\<lambda>i. \<not> bit_of (tid_bitmap s) i", OF i(2)])
  then have m: "m < nbits (tid_bitmap s)" "\<not> bit_of (tid_bitmap s) m" "\<forall>i<m. bit_of (tid_bitmap s) i"
    using i LeastI [of "\<lambda>i. \<not> bit_of (tid_bitmap s) i", OF i(2)] unfolding m_def by (auto dest: not_less_Least)
  let ?n = "(fresh_task env nm prio (ucast (of_nat m + tid_start s)) TASK_READY True)
    \<lparr>tcontext := first_context env (cpu s) func arg\<rparr>"
  obtain s' b where r: "task_start env nm prio func arg s = Done t s'" "sched_ok s' (start_queues t q)"
      "current_task s' = current_task s" "task_all_nums s' = task_all_nums s + 1" "pool_map (nbits (tid_bitmap s)) b"
      "added_task s q b t ?n s'"
    using task_start_new [OF o(2) pl o(3) t tm nm o(8) m] by blast
  have q: "start_queues t q = started [t] q" by (rule start_queues_started [of q, OF o(5)])
  have f: "locks s' = locks s" "main_task s' = main_task s" "tid_start s' = tid_start s" "timers s' = timers s"
      "tid_bitmap s' = b" "tasks s' = (tasks s)(t \<mapsto> ?n)" "cpu s' = cpu s"
    using r(6) o(5) by (auto simp: added_task_def fun_eq_iff)
  have T: "timers_ok s' (started [t] q) w j"
    by (rule with_alarms.keeps [OF o(1) _ t(2)]) (use r(2) q f r(3) pl in \<open>auto simp: same_rest_def\<close>)
  have sl: "slices s' = (slices s)(t \<mapsto> (ucast prio, ucast prio, 0x19991120))"
    by (simp add: f(6) slices_def fun_eq_iff fresh_task_def head_task_def)
  have "slices_le P (slices s')" using o(10) prio by (simp add: sl slices_le_def)
  moreover have "live s' (started [t] q) w = insert t (live s q w)" using r(3) f(4) by (auto simp: live_def)
  ultimately have i: "in_order P s' (started [t] q) w j"
    using o(3-9,11) T f pl r(5) by (auto simp: in_order_def pool_map_def marks_def fresh_task_def head_task_def)
  have ct: "c \<noteq> t" using c(2) t(2) by auto
  then have "ticks_left s' = ticks_left s" using r(3) c(1) by (simp add: ticks_left_def sl)
  then have "queue_moves P 0 s (q ReadyList) s' (started [t] q ReadyList)"
    using queue_same [of s' 0 s P "q ReadyList" "[t]"] by simp
  moreover have "dom (tasks s) \<subseteq> dom (tasks s')" by (auto simp: f(6))
  moreover have "marks s u = Some True" if "marks s' u = Some True" for u
    using that by (cases "u = t") (simp_all add: marks_def f(6) fresh_task_def head_task_def)
  ultimately have "event_moves P (Call_Start env nm prio func arg) s q w j s' (started [t] q) w j"
    using f(4) by (intro calm_event [OF i]) (simp_all add: is_alarm_def)
  then show ?thesis using r(1) by auto
qed

lemma exit_moves:
  assumes ok: "in_order P s q w j" and e: "event_ok P Call_Exit s"
  shows "\<exists>s' q'. event_step lc client Call_Exit s = Inr s' \<and> event_moves P Call_Exit s q w j s' q' w j"
proof -
  note o = in_orderD [OF ok] and t = timers_okD [OF in_orderD(1) [OF ok]]
  obtain c ts where c: "current_task s = Some c" "tasks s c = Some ts" "c \<in> set (q AllList)" "c \<notin> set (q PoolList)"
      "c \<notin> set (q ReadyList)"
    by (rule running [OF ok])
  obtain u us where u: "q ReadyList = u # us" using e lists_empty(1) [OF o(2)] by (cases "q ReadyList") auto
  have bit: "unat (scast (tid ts) - tid_start s) < nbits (tid_bitmap s)" using e c(1,2) by (simp add: running_tid_def)
  define q' where "q' = (exit_queues (Some c = main_task s) c q)(ReadyList := us)"
  have wq: "wake_queues TidLock q ReadyList = u # us" using u by (simp add: wake_queues_none [of q TidLock, OF o(5)])
  have eq: "wake_queues TidLock (exit_queues b c q) = exit_queues b c q" for b
    by (rule wake_queues_none) (simp add: o(5))
  obtain s' b tv where r: "task_exit c s = Leave s'" "sched_ok s' q'" "current_task s' = Some u"
      "task_all_nums s' = task_all_nums s - 1" "tid_bitmap s' = b" "pool_map (nbits (tid_bitmap s)) b" "locks s' = locks s"
      "main_task s' = main_task s" "timers s' = timers s" "dom (tasks s') = dom (tasks s)" "tasks s u = Some tv"
      "tasks s' = (tasks s)(c \<mapsto> ts\<lparr>status := TASK_DIED\<rparr>, u \<mapsto> tv\<lparr>status := TASK_RUNNING\<rparr>)"
    using task_exit_run [OF o(2) c(1-4) o(3,8) bit wq, unfolded eq, folded q'_def]
    by (elim exE conjE impE) (rule o(5), (rule that; assumption))
  have qs: "q' ReadyList = us" "q' (Waiters k) = q (Waiters k)" "q' AllList = remove1 c (q AllList)"
      "set (q' PoolList) \<subseteq> insert c (set (q PoolList))" for k
    by (auto simp: q'_def exit_queues_def Let_def)
  have sleeps: "sleeping s' q' v" if "sleeping s q v" for v
    using that u r(3,7,10) by (auto simp: sleeping_def off_lists_ready qs(1,2))
  have nc: "\<not> wakes (calls (tnodes (timers s))) n c" if "n \<in> members w" for n
    using sleep_okD(4) [OF t(4) that] c(1) by (auto simp: sleeping_def)
  have "8 \<le> sint (task_all_nums s')" using e r(4) by simp
  then have "sleep_ok (calls (tnodes (timers s))) (members w) s' q'"
    using t(4) r(2) sleeps qs(2) unfolding sleep_ok_def by (simp; blast)
  then have T: "timers_ok s' q' w j" using t(1-3) r(7,9) by (simp add: timers_ok_def)
  have "distinct (q AllList)"
    using o(2) linked_distinct [of "valid_lists s" _ _ q AllList] by (auto simp: sched_ok_def linked_def)
  moreover have "live s' q' w \<subseteq> live s q w - {c}"
    using u r(3,9) c(5) nc by (auto simp: live_def qs(1))
  ultimately have l: "live s' q' w \<subseteq> set (q' AllList) - set (q' PoolList)"
    using o(9) qs(3,4) by (auto simp: set_remove1_eq)
  have sl: "slices s' = slices s" using c(2) r(11) by (auto simp: r(12) slices_def fun_eq_iff)
  have mk: "marks s' = marks s" using c(2) r(11) by (auto simp: marks_def r(12) fun_eq_iff)
  have i: "in_order P s' q' w j"
    using o(3-8,10,11) T r(5-8,10) l sl qs(1,2) u mk by (auto simp: in_order_def pool_map_def)
  have "queue_moves P 0 s (q ReadyList) s' (q' ReadyList)"
    using queue_next [of s' "q ReadyList" "[]" P 0 s] u r(3) ticks_left_le [OF i] by (simp add: qs(1))
  then have "event_moves P Call_Exit s q w j s' q' w j"
    using r(9,10) mk by (intro calm_event [OF i]) (simp_all add: is_alarm_def)
  then show ?thesis using r(1) c(1) by (auto simp: current_def)
qed

end
