(* ===== verification/Fairness.thy ===== *)
theory Fairness
  imports Runs
begin

text \<open>
  What holds over a whole run: the state stays in order, a ready task runs after a bounded
  number of alarms, and a call of \<open>sleep\<close> returns.
\<close>

section \<open>Whole runs\<close>

lemma event_run:
  assumes ok: "in_order P s q w j" and e: "event_ok P e s"
  shows "\<exists>s' q' w' j'. event_step lc client e s = Inr s' \<and> event_moves P e s q w j s' q' w' j'"
proof (cases e)
  case (On_Alarm clock new frame)
  then show ?thesis using alarm_moves [OF ok] e by fastforce
next
  case (Call_Start env nm prio func arg)
  then show ?thesis using start_moves [OF ok] e by fastforce
next
  case Call_Exit
  then show ?thesis using exit_moves [OF ok, of lc client] e by blast
next
  case Call_Sleep
  then show ?thesis using sleep_moves(1) [OF ok, of lc] by fastforce
next
  case Call_Usleep
  then show ?thesis using sleep_moves(2) [OF ok, of lc] by fastforce
next
  case Call_Nanosleep
  then show ?thesis using sleep_moves(3) [OF ok, of lc] by fastforce
next
  case Call_Put
  then show ?thesis using put_moves [OF ok] by fastforce
next
  case Call_Hook
  then show ?thesis using hook_moves [OF ok] by fastforce
qed

text \<open>Who is awake and does not call stays awake.\<close>

lemma stays_awake:
  assumes "event_moves P e s q w j s' q' w' j'" and "marks s t = Some False"
    and "current_task s \<noteq> Some t \<or> is_alarm e"
  shows "marks s' t = Some False"
proof -
  have "t \<in> dom (tasks s')" using assms(1,2) by (auto simp: event_moves_def marks_def)
  moreover have "marks s' t \<noteq> Some True" using assms by (auto simp: event_moves_def)
  ultimately show ?thesis by (auto simp: marks_def)
qed


lemma events_run:
  assumes "in_order P s q w j" and "events_ok lc client P es s"
  shows "\<exists>s' q' w' j'. run_events lc client es s = Inr s' \<and> in_order P s' q' w' j' \<and> unat j \<le> unat j' \<and>
    dom (tasks s) \<subseteq> dom (tasks s')"
  using assms
proof (induction es arbitrary: s q w j)
  case (Cons e es)
  have "event_ok P e s" using Cons.prems(2) by simp
  from event_run [OF Cons.prems(1) this, of lc client]
  obtain u q1 w1 j1 where u: "event_step lc client e s = Inr u" "event_moves P e s q w j u q1 w1 j1" by blast
  then have "in_order P u q1 w1 j1" "events_ok lc client P es u" "unat j \<le> unat j1"
      "dom (tasks s) \<subseteq> dom (tasks u)"
    using Cons.prems(2) by (simp_all add: event_moves_def)
  from Cons.IH [OF this(1,2)] this(3,4) u(1) show ?case by fastforce
qed auto

lemma events_ok_append:
  "events_ok lc client P (es @ fs) s \<longleftrightarrow> events_ok lc client P es s \<and>
     (case run_events lc client es s of Inl _ \<Rightarrow> True | Inr u \<Rightarrow> events_ok lc client P fs u)"
  by (induction es arbitrary: s) (auto split: sum.split)

text \<open>
  A ready task runs after as many alarms as there are ticks before it, and then it is awake.
\<close>

lemma ready_runs:
  assumes "in_order P s q w j" and "events_ok lc client P es s" and "q ReadyList = xs @ t # ys"
    and "ticks_left s + length xs * Suc P < alarm_count es"
  shows "\<exists>fs gs u. es = fs @ gs \<and> alarm_count fs \<le> Suc (ticks_left s + length xs * Suc P) \<and>
    run_events lc client fs s = Inr u \<and> current_task u = Some t \<and> marks u t = Some False"
  using assms
proof (induction es arbitrary: s q w j xs ys)
  case (Cons e es)
  have e: "event_ok P e s" using Cons.prems(2) by simp
  from event_run [OF Cons.prems(1) e, of lc client]
  obtain u q1 w1 j1 where u: "event_step lc client e s = Inr u" "event_moves P e s q w j u q1 w1 j1" by blast
  have nt: "current_task s \<noteq> Some t"
    using Cons.prems(3) by (auto intro: running [OF Cons.prems(1)])
  have m: "in_order P u q1 w1 j1" "events_ok lc client P es u" "marks u t = Some False"
      "queue_moves P (if is_alarm e then 1 else 0) s (q ReadyList) u (q1 ReadyList)"
    using u Cons.prems(2,3) stays_awake [OF u(2) in_orderD(11) [OF Cons.prems(1)]] nt by (simp_all add: event_moves_def)
  show ?case
  proof (cases "current_task u = Some t")
    case True
    then show ?thesis
      using u(1) m(3) by (intro exI [of _ "[e]"] exI [of _ es] exI [of _ u]) simp
  next
    case False
    then obtain xs' ys' where q1: "q1 ReadyList = xs' @ t # ys'"
        "ticks_left u + length xs' * Suc P + (if is_alarm e then 1 else 0) \<le> ticks_left s + length xs * Suc P"
      using m(4) Cons.prems(3) unfolding queue_moves_def by blast
    then have "ticks_left u + length xs' * Suc P < alarm_count es" using Cons.prems(4) by (simp split: if_splits)
    from Cons.IH [OF m(1,2) q1(1) this] obtain fs gs v where v: "es = fs @ gs"
        "alarm_count fs \<le> Suc (ticks_left u + length xs' * Suc P)" "run_events lc client fs u = Inr v"
        "current_task v = Some t" "marks v t = Some False"
      by blast
    have "alarm_count (e # fs) \<le> Suc (ticks_left s + length xs * Suc P)" using v(2) q1(2) by (simp split: if_splits)
    then show ?thesis using u(1) v m(3) by (intro exI [of _ "e # fs"] exI [of _ gs] exI [of _ v]) simp
  qed
qed simp

text \<open>A sleeping task is ready, or runs, when the wheel has passed the time of its timer.\<close>

lemma sleeper_ready:
  assumes "in_order P s q w j" and "events_ok lc client P es s" and "pending n (wake_node e t) r j (tnodes (timers s), w)"
    and "run_events lc client es s = Inr u" and "in_order P u qu wu ju" and "unat j + r < unat ju"
  shows "\<exists>fs gs v q' w' j'. es = fs @ gs \<and> run_events lc client fs s = Inr v \<and> in_order P v q' w' j' \<and>
    (t \<in> set (q' ReadyList) \<or> current_task v = Some t) \<and> marks v t = Some False"
  using assms
proof (induction es arbitrary: s q w j r)
  case Nil
  then have "j = ju"
    using timers_okD(2) [OF in_orderD(1) [OF Nil(1)]] timers_okD(2) [OF in_orderD(1) [OF Nil(5)]] by simp
  then show ?case using Nil(6) by simp
next
  case (Cons x es)
  have x: "event_ok P x s" using Cons.prems(2) by simp
  from event_run [OF Cons.prems(1) x, of lc client]
  obtain v q1 w1 j1 where v: "event_step lc client x s = Inr v" "event_moves P x s q w j v q1 w1 j1" by blast
  have m: "in_order P v q1 w1 j1" "events_ok lc client P es v" "run_events lc client es v = Inr u"
      "if unat j + r < unat j1 then (t \<in> set (q1 ReadyList) \<or> current_task v = Some t) \<and> marks v t = Some False
       else pending n (wake_node e t) (unat j + r - unat j1) j1 (tnodes (timers v), w1)"
    using v Cons.prems(2-4) by (simp_all add: event_moves_def)
  show ?case
  proof (cases "unat j + r < unat j1")
    case True
    then show ?thesis using v(1) m(1,4)
      by (intro exI [of _ "[x]"] exI [of _ es] exI [of _ v] exI [of _ q1] exI [of _ w1] exI [of _ j1]) simp
  next
    case False
    then have "unat j1 + (unat j + r - unat j1) < unat ju" using Cons.prems(6) by simp
    from Cons.IH [OF m(1,2) _ m(3) Cons.prems(5) this] m(4) False
    obtain fs gs z q' w' j' where "es = fs @ gs" "run_events lc client fs v = Inr z" "in_order P z q' w' j'"
        "t \<in> set (q' ReadyList) \<or> current_task z = Some t" "marks z t = Some False"
      by auto
    then show ?thesis using v(1)
      by (intro exI [of _ "x # fs"] exI [of _ gs] exI [of _ z] exI [of _ q'] exI [of _ w'] exI [of _ j']) simp
  qed
qed


text \<open>There are fewer ready tasks than tasks.\<close>

lemma ready_card:
  assumes "in_order P s q w j" and "finite (dom (tasks s))"
  shows "Suc (length (q ReadyList)) \<le> card (dom (tasks s))"
proof -
  note o = in_orderD(2) [OF assms(1)]
  obtain c ts where c: "current_task s = Some c" "tasks s c = Some ts" "c \<notin> set (q ReadyList)"
    by (rule running [OF assms(1)])
  have "distinct (q ReadyList)" "set (q ReadyList) \<subseteq> dom (tasks s)"
    using o linked_distinct [of "valid_lists s" "dom (tasks s)" "cells s" q ReadyList]
      linked_subset [of "valid_lists s" "dom (tasks s)" "cells s" q ReadyList]
    by (simp_all add: sched_ok_def linked_def)
  then have "card (insert c (set (q ReadyList))) = Suc (length (q ReadyList))"
      "insert c (set (q ReadyList)) \<subseteq> dom (tasks s)"
    using c distinct_card [of "q ReadyList"] by auto
  then show ?thesis using card_mono [OF assms(2)] by metis
qed

text \<open>
  A sleeping task runs again: its timer has run when the wheel is past its time, and then its
  turn comes.
\<close>

lemma sleeper_runs:
  assumes ok: "in_order P s q w j" and es: "events_ok lc client P (es1 @ es2) s"
    and p: "pending n (wake_node e t) r j (tnodes (timers s), w)"
    and u: "run_events lc client es1 s = Inr u" "manager_mem (timers u) = Some m" "unat j + r < unat (uJiffies m)"
    and fin: "finite (dom (tasks u))" and a: "Suc P * card (dom (tasks u)) \<le> alarm_count es2"
  shows "\<exists>fs gs v. es1 @ es2 = fs @ gs \<and> run_events lc client fs s = Inr v \<and> current_task v = Some t \<and>
    marks v t = Some False"
proof -
  have es1: "events_ok lc client P es1 s" using es by (simp add: events_ok_append)
  obtain qu wu ju where iu: "in_order P u qu wu ju" using events_run [OF ok es1] u(1) by auto
  then have "ju = uJiffies m" using timers_okD(2) [OF in_orderD(1) [OF iu]] u(2) by simp
  then have "unat j + r < unat ju" using u(3) by simp
  from sleeper_ready [OF ok es1 p u(1) iu this] obtain fs gs v q' w' j' where v: "es1 = fs @ gs"
      "run_events lc client fs s = Inr v" "in_order P v q' w' j'"
      "t \<in> set (q' ReadyList) \<or> current_task v = Some t" "marks v t = Some False"
    by blast
  show ?thesis
  proof (cases "current_task v = Some t")
    case True
    then show ?thesis using v by (intro exI [of _ fs] exI [of _ "gs @ es2"] exI [of _ v]) simp
  next
    case False
    then obtain xs ys where q': "q' ReadyList = xs @ t # ys" using v(4) split_list by fast
    have rest: "events_ok lc client P (gs @ es2) v"
      using es v(2) by (simp add: v(1) events_ok_append [of lc client P fs])
    then have gs: "events_ok lc client P gs v" by (simp add: events_ok_append)
    have "run_events lc client gs v = Inr u" using u(1) v(1,2) by (simp add: run_events_append)
    then have d: "dom (tasks v) \<subseteq> dom (tasks u)" using events_run [OF v(3) gs] by auto
    then have "Suc (length (q' ReadyList)) \<le> card (dom (tasks v))" "card (dom (tasks v)) \<le> card (dom (tasks u))"
      using ready_card [OF v(3) finite_subset [OF d fin]] card_mono [OF fin d] by simp_all
    then have "Suc (length xs) * Suc P \<le> card (dom (tasks u)) * Suc P"
      by (intro mult_le_mono) (simp_all add: q')
    moreover have "ticks_left v \<le> P" by (rule ticks_left_le [OF v(3)])
    ultimately have "ticks_left v + length xs * Suc P < alarm_count (gs @ es2)"
      using a by (simp add: mult.commute)
    from ready_runs [OF v(3) rest q' this] v(5) obtain fs' gs' z where z: "gs @ es2 = fs' @ gs'"
        "run_events lc client fs' v = Inr z" "current_task z = Some t" "marks z t = Some False"
      by blast
    have "run_events lc client (fs @ fs') s = Inr z" using v(2) z(2) by (simp add: run_events_append)
    then show ?thesis using v(1) z by (intro exI [of _ "fs @ fs'"] exI [of _ gs'] exI [of _ z]) simp
  qed
qed

text \<open>From the call of \<open>sleep\<close> to its return.\<close>

lemma sleep_call_runs:
  assumes ok: "in_order P s q w j" and c: "current_task s = Some c" "tasks s c = Some ts" "is_hook ts"
    and nap_def: "nap = [Call_Sleep n, On_Alarm clock new frame]"
    and es: "events_ok lc client P (nap @ es1 @ es2) s"
    and ms: "Suc (unat (get_jiffies clock)) + unat (n * 1000) < 2 ^ 32"
    and u: "run_events lc client (nap @ es1) s = Inr u" "manager_mem (timers u) = Some m"
      "Suc (unat (get_jiffies clock)) + unat (n * 1000) < unat (uJiffies m)"
    and fin: "finite (dom (tasks u))" and a: "Suc P * card (dom (tasks u)) \<le> alarm_count es2"
  shows "\<exists>fs gs v. es1 @ es2 = fs @ gs \<and> run_events lc client (nap @ fs) s = Inr v \<and> current_task v = Some c \<and>
    marks v c = Some False"
proof -
  let ?ms = "n * 1000" and ?j = "get_jiffies clock + 1"
  let ?s = "s\<lparr>tasks := (tasks s)(c \<mapsto> marked_asleep ?ms ts)\<rparr>"
  have 1: "event_step lc client (Call_Sleep n) s = Inr ?s" using sleep_run(1) [OF c, of lc n] by simp
  then have m: "in_order P ?s q w j" using sleep_moves(1) [OF ok, of lc n] by (auto simp: event_moves_def)
  have e: "event_ok P (On_Alarm clock new frame) ?s" using es 1 by (simp add: nap_def del: event_step.simps event_ok.simps)
  have j: "unat ?j = Suc (unat (get_jiffies clock))" using e by (simp add: unat_word_ariths(1))
  obtain s2 q2 w2 where s2: "after_run (signal_headler client clock new frame ?s) = Inr s2"
      "in_order P s2 q2 w2 ?j"
      "pending (the new) (wake_node (?j + ?ms) c) (fires_after (unat (?j + ?ms)) (unat ?ms)) ?j (tnodes (timers s2), w2)"
    using alarm_moves [OF m e, of client] c(1) j ms by (auto simp: marked_asleep_def event_moves_def)
  have 2: "event_step lc client (On_Alarm clock new frame) ?s = Inr s2" using s2(1) by simp
  have run: "run_events lc client (nap @ fs) s = run_events lc client fs s2" for fs
    by (simp add: nap_def 1 2 del: event_step.simps)
  have es2: "events_ok lc client P (es1 @ es2) s2"
    using es by (simp add: nap_def 1 2 del: event_step.simps event_ok.simps)
  have "unat ?j + fires_after (unat (?j + ?ms)) (unat ?ms) < unat (uJiffies m)"
    using u(3) j by (simp add: fires_after_def)
  from sleeper_runs [OF s2(2) es2 s2(3) u(1) [unfolded run] u(2) this fin a] show ?thesis
    by (auto simp: run)
qed

section \<open>The first run\<close>

lemma started_in_order:
  assumes f: "fresh_start s W t n a m" and P: "3 \<le> P"
  defines "j \<equiv> get_jiffies (boot_clock W)"
  shows "\<exists>u. start_library W s = Done () u \<and> in_order P u (main_queues t) (first_wheel j n) j"
proof -
  obtain u where u: "start_library W s = Done () u" "can_start u (main_queues t) 1"
      "timers_ok u (main_queues t) (first_wheel j n) j"
      "tasks u = [t \<mapsto> fresh_task (main_env W) ''main'' 3 1 TASK_RUNNING False]" "current_task u = Some t"
      "locks u ConsoleLock = Some free_lock"
    using start_library_run [OF f] unfolding j_def by blast
  have w: "\<not> wakes (calls (tnodes (timers u))) n' v" if "n' \<in> members (first_wheel j n)" for n' v
    using sleep_okD(4) [OF timers_okD(4) [OF u(3)] that] u(4,5) by (auto simp: sleeping_def)
  have "slices_le P (slices u)"
    using P by (auto simp: slices_le_def slices_def u(4) fresh_task_def head_task_def)
  moreover have "live u (main_queues t) (first_wheel j n) \<subseteq> {t}"
    using w u(5) by (auto simp: live_def main_queues_def)
  ultimately have "in_order P u (main_queues t) (first_wheel j n) j"
    using u(2,3,6) by (auto simp: in_order_def can_start_def pool_map_def main_queues_def)
  then show ?thesis using u(1) by blast
qed

section \<open>Alarms alone\<close>

text \<open>While the running task computes, alarms may come as they like.\<close>

lemma alarms_alone:
  assumes "in_order P s q w j" and "\<not> dozing s"
    and "unat j \<le> Suc (unat (get_jiffies clock))" and "Suc (unat (get_jiffies clock)) < 2 ^ 32"
  shows "events_ok lc client P (replicate n (On_Alarm clock new frame)) s"
    and "\<exists>u q' w' j'. run_events lc client (replicate n (On_Alarm clock new frame)) s = Inr u \<and>
      in_order P u q' w' j' \<and> \<not> dozing u \<and> dom (tasks u) = dom (tasks s) \<and>
      (0 < n \<longrightarrow> j' = get_jiffies clock + 1)"
proof -
  let ?e = "On_Alarm clock new frame" and ?j = "get_jiffies clock + 1"
  have "events_ok lc client P (replicate n ?e) s \<and>
    (\<exists>u q' w' j'. run_events lc client (replicate n ?e) s = Inr u \<and> in_order P u q' w' j' \<and> \<not> dozing u \<and>
       dom (tasks u) = dom (tasks s) \<and> (0 < n \<longrightarrow> j' = ?j) \<and> (n = 0 \<longrightarrow> j' = j))"
    using assms(1-3)
  proof (induction n arbitrary: s q w j)
    case (Suc n)
    have e: "event_ok P ?e s"
      using Suc.prems(2,3) assms(4) timers_okD(2) [OF in_orderD(1) [OF Suc.prems(1)]] by simp
    obtain s' q' w' where s': "after_run (signal_headler client clock new frame s) = Inr s'"
        "event_moves P ?e s q w j s' q' w' ?j" "\<not> dozing s'" "dom (tasks s') = dom (tasks s)"
      using alarm_moves [OF Suc.prems(1) e, of client] by blast
    have "in_order P s' q' w' ?j" using s'(2) by (simp add: event_moves_def)
    moreover have "unat ?j \<le> Suc (unat (get_jiffies clock))"
      using assms(4) by (simp add: unat_word_ariths(1))
    ultimately have "events_ok lc client P (replicate n ?e) s' \<and>
      (\<exists>u q' w' j'. run_events lc client (replicate n ?e) s' = Inr u \<and> in_order P u q' w' j' \<and> \<not> dozing u \<and>
         dom (tasks u) = dom (tasks s') \<and> (0 < n \<longrightarrow> j' = ?j) \<and> (n = 0 \<longrightarrow> j' = ?j))"
      by (rule Suc.IH [OF _ s'(3)])
    then show ?case using e s'(1,4) by (cases n) (auto simp del: event_ok.simps)
  qed auto
  then show "events_ok lc client P (replicate n ?e) s"
    "\<exists>u q' w' j'. run_events lc client (replicate n ?e) s = Inr u \<and> in_order P u q' w' j' \<and> \<not> dozing u \<and>
      dom (tasks u) = dom (tasks s) \<and> (0 < n \<longrightarrow> j' = ?j)" by blast+
qed

lemma alarm_count_replicate [simp]: "alarm_count (replicate n (On_Alarm clock new frame)) = n"
  by (simp add: alarm_count_def is_alarm_def)

end
