(* ===== verification/Spec2Isabelle.thy ===== *)
theory Spec2Isabelle
  imports Overtake Demo Trial Periodic Reentry Programs Messages Fairness
begin

text \<open>
  A model of LUTF, a library of preemptive user-level tasks in C (\<open>src/\<close>): tasks are C stacks
  inside one Linux process, an interval timer plays the timer interrupt, and \<open>SIGALRM\<close> is masked
  where a kernel would disable interrupts.

  \<^bold>\<open>The parts and the theories\<close>
  \<^item> \<open>Prelude\<close>: the errors, results \<open>error + 'a\<close> for the functions that cannot give the processor
    away, and the coinductive type \<open>run\<close> for those that can. \<open>Switch s k\<close> says that
    \<open>context_swap\<close> was called, that the next task runs in the state \<open>s\<close>, and that \<open>k\<close> is the
    rest of the function, run in whatever state the caller is resumed in.
  \<^item> \<open>CList\<close>: \<open>lib/list.c\<close>, doubly linked lists with two sentinels, on an explicit store of list
    elements. \<open>dll h l xs\<close> abstracts a list to the cells in it; \<open>heap_lists\<close> is a family of
    lists that share no cell.
  \<^item> \<open>Bitmap\<close>: \<open>lib/bitmap.c\<close>, at the width of its integers, against the reading of the bytes as
    a map from positions to bits.
  \<^item> \<open>State\<close>: \<open>include/task.h\<close>, \<open>include/sync.h\<close>, \<open>include/ioqueue.h\<close>, the global variables of
    \<open>task/task.c\<close> and the signal mask (\<open>interrupt/analog_interrupt.c\<close>) as the record \<open>sys\<close>.
  \<^item> \<open>Queues\<close>: the ready list, the list of all tasks, the pool and the wait lists of the locks as
    lists of tasks. \<open>linked s q\<close>: the cells of \<open>s\<close> are linked as the lists \<open>q\<close>.
  \<^item> \<open>Context\<close>: the assembly routines of \<open>task/context_swap.asm\<close>, \<open>task/died_context_swap.asm\<close> and
    \<open>task/get_reg.asm\<close> on registers, stack memory and saved contexts.
  \<^item> \<open>Sched\<close>: the scheduling functions of \<open>task/task.c\<close>. \<open>sched_ok s q\<close> is their invariant: the
    running task is on no list it must not be on, the tasks on the ready list are ready, those on
    a wait list are blocked.
  \<^item> \<open>Sync\<close>: \<open>task/sync.c\<close>, binary semaphores and re-entrant locks, composed of one definition for
    each statement that can be executed with the alarm unmasked.
  \<^item> \<open>Protocol\<close>: tasks that acquire and release locks, with a place in the code for each (\<open>phase\<close>). The
    coarse relation \<open>turn_step\<close> executes parts of the functions at a time; it serves to build runs and for
    the facts that hold as long as no alarm comes into the turn of a resumed waiter.
  \<^item> \<open>Interleave\<close>: the interleavings statement by statement. \<open>stmt\<close> executes the statement at a place,
    \<open>step\<close> is a statement of the running task, the begin of a call, or an alarm; \<open>access_step\<close> also
    lets \<open>value--\<close> be a load and a store. Every run of \<open>turn_step\<close> is one of \<open>step\<close>.
  \<^item> \<open>Exclusion\<close>: the invariant \<open>steady\<close> of \<open>step\<close>, by counting: the value of a semaphore is one less the
    number of the tasks that have decremented it and not given it back.
  \<^item> \<open>Overtake\<close>: runs of \<open>step\<close> and \<open>access_step\<close> in which a waiter that was resumed with the alarm unmasked
    is overtaken, shares the lock, or gets on two lists.
  \<^item> \<open>Tid\<close>: the pool of task ids of \<open>task/task.c\<close> over the bitmap, against the contract \<open>id_pool\<close>.
  \<^item> \<open>Task\<close>: the life of a task: \<open>init_task\<close>, \<open>task_create\<close>, \<open>task_start\<close>, \<open>task_exit\<close>,
    \<open>clean_dead_task\<close>, \<open>tid2task\<close>, \<open>task_init\<close> and what they call.
  \<^item> \<open>Ioqueue\<close>: \<open>device/ioqueue.c\<close>, a ring buffer between tasks, against the list of bytes in it.
  \<^item> \<open>Console\<close>: \<open>device/console.c\<close>, output and input under a lock.
  \<^item> \<open>Ring\<close>: the circular lists of \<open>interrupt/timer.c\<close>. \<open>ring h a xs\<close>: the elements \<open>xs\<close> are linked in
    a circle with the head \<open>a\<close>; \<open>rings\<close> is a family of circles that share no element.
  \<^item> \<open>Wheel\<close>: the five arrays of rings of \<open>interrupt/timer.c\<close>, the place of a timer in them, cascading,
    making and emptying the arrays. \<open>wheel_ok ts w\<close>: the rings of \<open>ts\<close> hold the nodes \<open>w\<close>.
  \<^item> \<open>Timer\<close>: the functions of \<open>interrupt/timer.c\<close> on the whole state, the interrupt handler, and
    \<open>signal_headler\<close> of \<open>interrupt/analog_interrupt.c\<close>. The locale \<open>timer_calls\<close> is the contract of the
    callbacks, under which \<open>run_timer\<close> does what the abstract \<open>turns\<close> of the wheel do.
  \<^item> \<open>Firing\<close>: the way of one timer through the turns and the five arrays, to the turn it runs in
    (\<open>pending\<close>), and how many milliseconds that is before its expiry (\<open>early\<close>).
  \<^item> \<open>Periodic\<close>: timers with a period: \<open>interval\<close> is the number of turns from one run to the next.
  \<^item> \<open>Sleep\<close>: the callbacks of the library, \<open>collaborative_schedule_helper\<close> and \<open>clean_dead_task\<close>, keep
    the contract (\<open>interpretation sl\<close>).
  \<^item> \<open>Alarm\<close>: the steps of the handler and the invariant \<open>timers_ok\<close> they keep; the abstract scheduler
    (\<open>next_task\<close>, \<open>next_slices\<close>, \<open>set_wake\<close>) and the alarm as a step of it.
  \<^item> \<open>Hook\<close>: \<open>hook.c\<close>, the calls of the C library that are replaced: \<open>fcntl\<close>, \<open>socket\<close>, \<open>sleep\<close>,
    \<open>nanosleep\<close> and \<open>usleep\<close>.
  \<^item> \<open>Init\<close>: \<open>task/init.c\<close>, \<open>interrupt_init\<close>, \<open>include/set_ticker.h\<close>, and the end of the timers.
  \<^item> \<open>Reentry\<close>: alarms inside the handler itself and inside \<open>create_timer\<close>, and the handler that waits
    for the lock of the timers. \<open>schedule_tail\<close> is what is left of \<open>schedule\<close> at the point of the alarm;
    \<open>stores (take 1 fs)\<close> is what has been done of the stores \<open>fs\<close> of a function when the alarm comes.
  \<^item> \<open>Messages\<close>: \<open>lib/assert.c\<close>, \<open>task/debug.c\<close>, the macros of \<open>include/assert.h\<close> and \<open>include/debug.h\<close>, and
    \<open>print_task_info\<close>, with the texts they print. A panic masks the alarm; a failed assertion does not,
    and the invariant of the alarms still holds where it spins, so that the other tasks go on.
  \<^item> \<open>Programs\<close>: the tasks of \<open>main.c\<close>, and \<open>example/test_sleep.c\<close> and \<open>example/test_timer.c\<close>, without alarms
    inside them. \<open>world\<close> is what a program gets from outside. The locale \<open>task_starts\<close> is the contract of an invariant that starting a task keeps,
    under which a loop of starts keeps it; \<open>timers_ok\<close> and \<open>sched_ok\<close> are such. The first \<open>n\<close> turns of a
    \<open>while(1)\<close> are \<open>for_loop n\<close>; a theorem for every \<open>n\<close> is about all of them.
  \<^item> \<open>Runs\<close>: the library as a whole: a sequence of events, each an alarm or a call of the running
    task (\<open>sleep\<close>, \<open>usleep\<close>, \<open>nanosleep\<close>, \<open>console_put_str\<close>, \<open>co_enable_hook_sys\<close>, \<open>task_start\<close>,
    \<open>task_exit\<close>). \<open>event_ok\<close> is what an event has to keep to, \<open>in_order\<close> the invariant of the whole state,
    and \<open>event_moves\<close> what one event does to it, to the place of a ready task and to a timer.
  \<^item> \<open>Fairness\<close>: whole runs: the invariant, how long a ready task waits, and a call of \<open>sleep\<close> from its
    beginning to its return.
  \<^item> \<open>Demo\<close>, \<open>Trial\<close>: concrete states on which the theorems are tried.

  \<^bold>\<open>How they interact.\<close> A task gives the processor away in \<open>task_block\<close> (called by \<open>sema_down\<close>
  and \<open>ioq_wait\<close>), in \<open>task_exit\<close>, and when the timer's handler calls \<open>schedule\<close>. All of them
  take the next task from the ready list; \<open>task_unblock\<close> (called by \<open>sema_up\<close> and \<open>wakeup\<close>)
  and \<open>task_start\<close> put tasks on it. Locks use the semaphore and the wait list; the pool of task
  ids, the console, the I/O queues and the timers use locks. A hooked \<open>sleep\<close> marks its task and
  loops; the next alarm makes a timer and takes the task off the processor
  (\<open>collaborative_schedule\<close>), and the timer's callback, called by \<open>run_timer\<close> in a later alarm,
  takes the mark away and puts the task on the ready list.

  \<^bold>\<open>What the properties show\<close>
  \<^item> C1 to C8: the locks in every interleaving of their statements: at most one task inside a lock
    and the right recursion count, when each statement is executed as a whole (C1, C2); what decides the
    assertions of \<open>task/sync.c\<close> (C6); and how the mask, which is neither nested nor saved per task, lets two
    tasks into a lock when \<open>value--\<close> is two accesses (C3), a waiter be overtaken (C4) or get on two
    lists (C5), a wake-up be lost (C7) and an assertion of a correct release fail (C8).
  \<^item> C9 to C12: the library as a whole, for every sequence of alarms and calls that keeps to
    \<open>event_ok\<close>: from the start of the library on nothing fails and the invariant holds; a ready task
    with \<open>n\<close> others before it runs after at most \<open>(P + 1) * (n + 1)\<close> alarms, \<open>P\<close> being the largest
    priority; a hooked \<open>sleep\<close> returns; and the alarm refines the abstract scheduler.
  \<^item> C13 to C22: when a timer runs, who is woken, how a sleep begins and ends; the wheel against its
    abstract counterpart; and where the timers go wrong: early, at the wrap of the clock, in a race.
  \<^item> C23: the replaced system calls. C24: timers with a period, while the clock does not wrap.
  \<^item> C25 to C27: alarms inside \<open>create_timer\<close>, inside the handler, and while the lock of the timers is
    taken.
  \<^item> C28, C29: a task of \<open>example/test_sleep.c\<close> from its start to what it prints, and what the tasks of
    \<open>example/test_timer.c\<close> are started with.
  \<^item> C30 to C32: round robin over any number of calls of \<open>schedule\<close>, contexts survive being preempted and
    being blocked.
  \<^item> C33 to C35: the life cycle of a task, from \<open>task_start\<close> to \<open>task_exit\<close> and its cleaning up.
  \<^item> C36: allocation of task ids. C37, C38: the bitmap and the lists.
  \<^item> C39, C40: the hand-over between two tasks through an I/O queue, and a race in it.
  \<^item> The theorems between them without a number are further facts about single functions.

  \<^bold>\<open>Steps and atomicity.\<close> In \<open>Interleave\<close> any task may begin \<open>lock_acquire\<close> or \<open>lock_release\<close> of any lock, the
  running task executes one statement, and while the alarm is not masked it may come between any two
  statements; it stands for one that finds the time slice used up, and is a call of \<open>schedule\<close>. What
  runs with the alarm masked is one step: \<open>sema_down\<close> from its \<open>interrupt_disable\<close> to the first switch or
  the return, and \<open>sema_up\<close> up to the return of \<open>task_unblock\<close>. In the turn of a task resumed inside
  \<open>sema_down\<close> the test, the assertion with its \<open>elem_find\<close>, the check for the panic, \<open>list_append\<close>,
  \<open>task_block\<close>, \<open>value--\<close>, the last assertion and \<open>interrupt_enable\<close> are a step each, with the alarm as
  the code leaves it; an alarm inside \<open>elem_find\<close>, \<open>list_append\<close> or \<open>task_block\<close> is left out. C1, C2 and C6
  are about at most 256 tasks, because the semaphore has 8 bits and the number of tasks that have
  decremented it is read from it.

  The functions of the other theories run without a timer interrupt inside them, except where a
  theorem puts one: C22 after the first store of \<open>sleep\<close>, C25 after the first store of
  \<open>list_timer_insert\<close>, C26 inside the handler, C40 between the two parts of \<open>ioq_wait\<close>. These state that
  the alarm is not masked at that point in the state the code reaches. An alarm itself is one step, and
  the invariant of the alarms has the lock of the timers free when the alarm comes, that is, no task is
  inside \<open>create_timer\<close> or \<open>delete_timer\<close>. The events of \<open>Runs\<close> are whole calls and whole handlers in the
  same way: an alarm comes between two calls of the library, or while the running task computes.
  A task that sleeps is in its loop in \<open>sleep\<close> and makes no call. That a task waits for a lock does
  not happen in these runs; \<open>Interleave\<close> covers it.

  \<^bold>\<open>Arguments of the model.\<close> \<open>alloc_env\<close>: what \<open>malloc\<close> gives \<open>task_create\<close>, and the address
  of \<open>task_entrance\<close>. The signal frame of the handler is an argument and a result of \<open>schedule\<close>.
  The registers and the stack memory at a call of an assembly routine are those of the state.
  What \<open>write\<close>, \<open>printf\<close> and \<open>read\<close> do with the characters outside the program is an argument, and so
  are what the monotonic clock shows, the nodes \<open>malloc\<close> gives \<open>create_timer\<close>, the callbacks of a
  program that uses the library, the calls \<open>dlsym\<close> finds behind the replaced ones, and what
  \<open>setitimer\<close> returns. \<open>init\<close> is called once: the slots of the wheel are named without the address
  of the manager. The local list head of \<open>cascade_timer\<close>, \<open>run_timer\<close> and \<open>delete_array_list_timer\<close>
  is one element, \<open>Local\<close>; the three functions do not use theirs at the same time.

  \<^bold>\<open>Fuel and termination.\<close> There is no fuel. Loops over lists and bitmaps are partial functions
  or recursive over an argument, and the lemmas about them show that they return. The
  loops that wait for other tasks, and the loop of a sleeping task, are corecursive. The loop of
  \<open>run_timer\<close> returns unless the clock is at its largest value. The times in the theorems about
  timers are below the wrap of the 32-bit clock.

  \<^bold>\<open>Not modelled\<close>: the call of \<open>signal\<close>, which has no effect on the state, the look-up of the
  replaced functions with \<open>dlsym\<close>, and the function types at the head of \<open>hook.c\<close> that nothing uses.
  In the components an assertion that fails ends the run with an error; \<open>Messages\<close> has the text it
  prints. The functions of \<open>Programs\<close> have no alarm inside them; \<open>main\<close> of \<open>main.c\<close>, whose million and one
  calls of \<open>task_start\<close> take far more than a time slice, is therefore not modelled as one function.
\<close>

section \<open>Definitions the properties use\<close>

text \<open>\<open>n\<close> calls of \<open>lock_acquire\<close>, or of \<open>lock_release\<close>, by a task that is not switched away.\<close>

primrec acquires :: "lock_id \<Rightarrow> nat \<Rightarrow> sys \<Rightarrow> (sys, unit) run" where
  "acquires k 0 s = Done () s"
| "acquires k (Suc n) s = bind_run (acquires k n s) (\<lambda>_ t. lock_acquire k t)"

primrec releases :: "lock_id \<Rightarrow> nat \<Rightarrow> sys \<Rightarrow> sys result" where
  "releases k 0 s = Inr s"
| "releases k (Suc n) s = andthen (lock_release k s) (releases k n)"

text \<open>\<open>n\<close> calls of \<open>schedule\<close> in a row, one for each used-up slice; the contexts the interrupted code is in are arbitrary.\<close>

primrec schedules :: "nat \<Rightarrow> (nat \<Rightarrow> sigcontext) \<Rightarrow> sys \<Rightarrow> sys result" where
  "schedules 0 frame s = Inr s"
| "schedules (Suc n) frame s = andthen (schedules n frame s) (\<lambda>t. andthen (schedule (frame n) t) (\<lambda>(_, u). Inr u))"

lemma acquires_run:
  assumes "locks s k = Some free_lock" and c: "current_task s = Some c" and "n < 2 ^ 32 - 1"
  shows "acquires k (Suc n) s =
    Done () (s\<lparr>locks := (locks s)(k \<mapsto> held_lock c (of_nat (Suc n))), blocked := False\<rparr>)"
  using assms(3)
proof (induction n)
  case 0
  show ?case using acquire_free_lock(1) [OF assms(1) c] by (simp del: fun_upd_apply)
next
  case (Suc n)
  then show ?case
    using acquire_held_lock [where k = k and c = c] c by (simp add: add.commute fun_upd_same del: fun_upd_apply)
qed

lemma of_nat_nested:
  assumes "Suc n < 2 ^ 32 - 1"
  shows "(1 :: 32 word) < of_nat (Suc (Suc n))" "(of_nat (Suc (Suc n)) :: 32 word) - 1 = of_nat (Suc n)"
  using assms by (simp_all add: word_less_nat_alt unsigned_of_nat take_bit_nat_eq_self del: of_nat_Suc)
    (simp only: of_nat_Suc; simp)

lemma releases_run:
  assumes "sched_ok s q" and "locks s k = Some (held_lock c (of_nat (Suc n)))"
    and "current_task s = Some c" and "n < 2 ^ 32 - 1"
  shows "\<exists>t. releases k (Suc n) s = Inr t \<and> sched_ok t (wake_queues k q) \<and>
    locks t = (locks s)(k \<mapsto> free_lock) \<and> current_task t = Some c \<and> \<not> blocked t"
  using assms
proof (induction n arbitrary: s)
  case 0
  then show ?case using release_last [of s q k c] by (auto simp del: fun_upd_apply)
next
  case (Suc n)
  let ?s1 = "s\<lparr>locks := (locks s)(k \<mapsto> held_lock c (of_nat (Suc n)))\<rparr>"
  have rel: "lock_release k s = Inr ?s1"
    using release_nested [OF Suc.prems(2,3)] of_nat_nested [of n] Suc.prems(4)
    by (simp del: of_nat_Suc)
  have "sched_ok ?s1 q"
    using Suc.prems(1,2) by (subst sched_ok_frame [of _ s]) (auto simp: insert_absorb)
  moreover have "locks ?s1 k = Some (held_lock c (of_nat (Suc n)))" "current_task ?s1 = Some c"
      "n < 2 ^ 32 - 1"
    using Suc.prems(3,4) by simp_all
  ultimately obtain t where t: "releases k (Suc n) ?s1 = Inr t" "sched_ok t (wake_queues k q)"
      "locks t = (locks ?s1)(k \<mapsto> free_lock)" "current_task t = Some c" "\<not> blocked t"
    using Suc.IH by blast
  have "releases k (Suc (Suc n)) s = Inr t"
    using rel t(1) by (simp del: releases.simps add: releases.simps(2) [of k "Suc n" s])
  moreover have "locks t = (locks s)(k \<mapsto> free_lock)" using t(3) by simp
  ultimately show ?case using t(2,4,5) by blast
qed

lemma schedules_run:
  assumes "sched_ok s q" and "current_task s = Some c"
  shows "\<exists>t. schedules n frame s = Inr t \<and>
    current_task t = Some (hd (rotate n (c # q ReadyList))) \<and>
    sched_ok t (q(ReadyList := tl (rotate n (c # q ReadyList)))) \<and> locks t = locks s"
proof (induction n)
  case 0
  then show ?case using assms by simp
next
  case (Suc n)
  let ?r = "rotate n (c # q ReadyList)"
  obtain t where t: "schedules n frame s = Inr t" "current_task t = Some (hd ?r)"
      "sched_ok t (q(ReadyList := tl ?r))" "locks t = locks s"
    using Suc by blast
  have r: "rotate (Suc n) (c # q ReadyList) = tl ?r @ [hd ?r]"
    by (metis hd_Cons_tl rotate1.simps(2) rotate_Suc rotate_is_Nil_conv list.distinct(1))
  obtain f u where "schedule (frame n) t = Inr (f, u)"
      "sched_ok u ((q(ReadyList := tl ?r))(ReadyList := tl (tl ?r @ [hd ?r])))"
      "current_task u = Some (hd (tl ?r @ [hd ?r]))" "locks u = locks t"
    using schedule_ok [OF t(3,2), of "frame n"] by auto
  then show ?case using t unfolding r by (simp del: fun_upd_apply)
qed

section \<open>Concurrent use of the locks\<close>

text \<open>C1: Any of at most 256 tasks call \<open>lock_acquire\<close> and \<open>lock_release\<close> on any locks, and the alarm may
come before every statement that is executed with the alarm unmasked, also in a resumed turn of
the loop of \<open>sema_down\<close>. At most one task is inside a lock, that is, past the assertion
\<open>value == 0\<close> of \<open>sema_down\<close> and not past \<open>value++\<close> of \<open>sema_up\<close>. It is this assertion that
excludes the second task: a task that passed the test of the loop on a value another task then
took stays in it. Each statement is executed as a whole, \<open>value--\<close> as one instruction (see
the property after the next one) and \<open>list_append\<close> and \<open>task_block\<close> without an alarm inside.\<close>

theorem mutual_exclusion:
  assumes "quiet s q" and "finite (dom (tasks s))" and "card (dom (tasks s)) \<le> 256"
    and "reachable (begin_conf s) x" and "inside x b k" and "inside x c k"
  shows "b = c"
  by (rule inside_alone [OF reachable_steady [OF assms(4) steady_quiet [OF assms(1)] assms(2,3)]
      assms(5,6)])

theorem mutual_exclusion_witness:
  "\<exists>x. reachable (begin_conf s2) x \<and> inside x 3 ConsoleLock \<and> \<not> inside x 2 ConsoleLock \<and>
     phase_of x 2 = Lowered ConsoleLock"
proof -
  obtain s d where x: "reachable (begin_conf s2) \<lparr>machine = s,
        phase_of = (\<lambda>_. Running)(2 := Lowered ConsoleLock), depth = d\<rparr>" (is "reachable _ ?x")
      and l: "locks s ConsoleLock = Some (held_lock 3 1\<lparr>sema := \<lparr>sema_value = - 1\<rparr>\<rparr>)"
    using demo_overtaken by (auto simp: fine_at_def)
  have "inside ?x 3 ConsoleLock" by (simp add: inside_def l)
  then show ?thesis using x mutual_exclusion [OF s2_quiet s2_few x, of 3 ConsoleLock 2] by fastforce
qed

text \<open>C2: In every state of these interleavings \<open>holder_repeat_nr\<close> is the number of times the holder has
acquired the lock and not released it, and no other task counts as having acquired it. A task
that holds a lock 2^32 - 1 times does not acquire it again in the runs considered.\<close>

theorem recursion_count:
  assumes "quiet s q" and "finite (dom (tasks s))" and "card (dom (tasks s)) \<le> 256"
    and "reachable (begin_conf s) x" and "locks (machine x) k = Some l"
  shows "depth x c k = (if holder l = Some c then unat (holder_repeat_nr l) else 0)"
  by (rule steady_depth [OF reachable_steady [OF assms(4) steady_quiet [OF assms(1)] assms(2,3)]
      assms(5)])

theorem recursion_count_witness:
  "\<exists>x. reachable (begin_conf s2) x \<and> phase_of x 2 = Lowered ConsoleLock \<and>
     depth x 3 ConsoleLock = 1 \<and> depth x 2 ConsoleLock = 0"
proof -
  let ?l = "held_lock 3 1\<lparr>sema := \<lparr>sema_value = - 1\<rparr>\<rparr>"
  obtain s d where x: "reachable (begin_conf s2) \<lparr>machine = s,
        phase_of = (\<lambda>_. Running)(2 := Lowered ConsoleLock), depth = d\<rparr>" (is "reachable _ ?x")
      and l: "locks s ConsoleLock = Some ?l"
    using demo_overtaken by (auto simp: fine_at_def)
  have "locks (machine ?x) ConsoleLock = Some ?l" by (simp add: l)
  from recursion_count [OF s2_quiet s2_few x this, of 3] recursion_count [OF s2_quiet s2_few x this, of 2] x
  show ?thesis by (intro exI [of _ ?x]) auto
qed

text \<open>C3: When \<open>value--\<close> is a load and a store, which is what the compiler makes of it without
optimisation, mutual exclusion fails. Three tasks reach a state in which tasks 2 and 3 have
both returned from \<open>lock_acquire\<close> of the console and released nothing. Task 2 was resumed
in the loop of \<open>sema_down\<close> with the alarm unmasked and loaded 1; the alarm came, task 3 took the
lock; task 2 stored 0, and its assertion held.\<close>

theorem exclusion_lost:
  "\<exists>x. access_reachable (begin_conf s2) x \<and> phase_of x 2 = Running \<and> phase_of x 3 = Running \<and>
     depth x 2 ConsoleLock = 1 \<and> depth x 3 ConsoleLock = 1 \<and>
     locks (machine x) ConsoleLock = Some (held_lock 2 1) \<and> current_task (machine x) = Some 3 \<and>
     lock_release ConsoleLock (machine x) = Inl Assert_Spin"
proof -
  obtain s d q where s: "fine_at access_reachable (begin_conf s2) s (\<lambda>_. Running) d q 3"
      "d 2 ConsoleLock = 1" "d 3 ConsoleLock = 1" "locks s ConsoleLock = Some (held_lock 2 1)"
    using demo_both by blast
  have "lock_release ConsoleLock s = Inl Assert_Spin"
    by (rule release_not_holder [OF s(4)]) (use s(1) in \<open>simp add: fine_at_def\<close>)
  with s show ?thesis
    by (intro exI [of _ "\<lparr>machine = s, phase_of = \<lambda>_. Running, depth = d\<rparr>"]) (simp add: fine_at_def)
qed

text \<open>C4: The loop test of a resumed \<open>sema_down\<close> and \<open>value--\<close> can be apart by an alarm. Task 2 passes the
test, task 3 takes the free lock, task 2 decrements the semaphore from 0 to 255 and spins in the
assertion; the release of task 3 spins in the first assertion of \<open>sema_up\<close>.\<close>

theorem waiter_overtaken:
  "\<exists>x l. reachable (begin_conf s2) x \<and> current_task (machine x) = Some 2 \<and>
     phase_of x 2 = Lowered ConsoleLock \<and> locks (machine x) ConsoleLock = Some l \<and>
     holder l = Some 3 \<and> sema_value (sema l) = 255 \<and>
     sema_down_check ConsoleLock (machine x) = Inl Assert_Spin \<and>
     lock_release ConsoleLock (machine x\<lparr>current_task := Some 3\<rparr>) = Inl Assert_Spin"
proof -
  let ?l = "held_lock 3 1\<lparr>sema := \<lparr>sema_value = - 1\<rparr>\<rparr>" and ?p = "(\<lambda>_. Running)(2 := Lowered ConsoleLock)"
  obtain s d q where s: "fine_at reachable (begin_conf s2) s ?p d q 2" and l: "locks s ConsoleLock = Some ?l"
    using demo_overtaken by blast
  have "sema_down_check ConsoleLock s = Inl Assert_Spin"
    using l by (simp add: sema_down_check_def lock_at_def)
  moreover have "lock_release ConsoleLock (s\<lparr>current_task := Some 3\<rparr>) = Inl Assert_Spin"
    using l by (simp add: lock_release_def drop_defs sema_up_def sema_up_wake_def step_simps)
  moreover have "sema_value (sema ?l) = 255" by simp
  ultimately show ?thesis using s l
    by (intro exI [of _ "\<lparr>machine = s, phase_of = ?p, depth = d\<rparr>"] exI [of _ ?l])
      (simp add: fine_at_def)
qed


text \<open>C6: In every state of the interleavings the value of the semaphore of a lock is one less the
number of tasks that have decremented it and not given it back (modulo 256), and so the
assertions the running task comes to are decided: \<open>holder_repeat_nr == 0\<close> of \<open>lock_acquire\<close> and
\<open>holder_repeat_nr == 1\<close> of \<open>lock_release\<close> hold; \<open>value == 0\<close> of \<open>sema_down\<close> holds exactly when the
task is the only such task; \<open>value == 0\<close> of \<open>sema_up\<close> fails when it is not; \<open>value == 1\<close> of \<open>sema_up\<close>
holds exactly when there is no such task.\<close>

theorem lock_assertions:
  assumes "quiet s q" and "finite (dom (tasks s))" and "card (dom (tasks s)) \<le> 256"
    and "reachable (begin_conf s) x" and "current_task (machine x) = Some c"
  shows "(\<forall>k l. locks (machine x) k = Some l \<longrightarrow> sema_value (sema l) = 1 - of_nat (card (lowered x k))) \<and>
    (\<forall>k. phase_of x c = Owned k \<longrightarrow> stmt (Owned k) (machine x) = Inr (Fresh k, machine x)) \<and>
    (\<forall>k. phase_of x c = Last k \<longrightarrow> stmt (Last k) (machine x) = Inr (Sole k, machine x)) \<and>
    (\<forall>k. phase_of x c = Lowered k \<longrightarrow> stmt (Lowered k) (machine x) =
       (if lowered x k = {c} then Inr (Checked k, machine x) else Inl Assert_Spin)) \<and>
    (\<forall>k. phase_of x c = Gone k \<and> lowered x k \<noteq> {c} \<longrightarrow> stmt (Gone k) (machine x) = Inl Assert_Spin) \<and>
    (\<forall>k. phase_of x c = Raised k \<longrightarrow> stmt (Raised k) (machine x) =
       (if lowered x k = {} then Inr (Upped k, machine x) else Inl Assert_Spin))"
proof -
  have x: "steady (dom (tasks s)) x" by (rule reachable_steady [OF assms(4) steady_quiet [OF assms(1)] assms(2,3)])
  show ?thesis
    using steady_value(1) [OF x] counts_pass [OF x assms(5)] down_check_passes [OF x assms(2,3)]
      up_wake_spins [OF x assms(2,3), of c] up_check_passes [OF x assms(2,3,5)]
    by (intro conjI) auto
qed

theorem lock_assertions_witness:
  "\<exists>x. reachable (begin_conf s2) x \<and> phase_of x 2 = Lowered ConsoleLock \<and>
     lowered x ConsoleLock \<noteq> {2} \<and> stmt (Lowered ConsoleLock) (machine x) = Inl Assert_Spin"
proof -
  obtain s d where x: "reachable (begin_conf s2) \<lparr>machine = s,
        phase_of = (\<lambda>_. Running)(2 := Lowered ConsoleLock), depth = d\<rparr>" (is "reachable _ ?x")
      and l: "locks s ConsoleLock = Some (held_lock 3 1\<lparr>sema := \<lparr>sema_value = - 1\<rparr>\<rparr>)"
      and c: "current_task s = Some 2"
    using demo_overtaken by (auto simp: fine_at_def)
  have "3 \<in> lowered ?x ConsoleLock" by (simp add: lowered_def inside_def l)
  then have n: "lowered ?x ConsoleLock \<noteq> {2}" by auto
  have cx: "current_task (machine ?x) = Some 2" using c by simp
  from lock_assertions [OF s2_quiet s2_few x cx] n have "stmt (Lowered ConsoleLock) (machine ?x) = Inl Assert_Spin"
    by simp
  with x n show ?thesis by (intro exI [of _ ?x]) simp
qed

text \<open>No waiting task is lost from the lists, as long as no alarm comes into the turn of a task that
was resumed in the loop of \<open>sema_down\<close>: in every state that is reached with each such turn as one
step, a task inside the wait of a lock runs, is ready, or is on the wait list of that lock, and
every task on a wait list is inside the wait of its lock. Without the restriction this is false, see
\<open>waiter_on_two_lists\<close>. Whether the task is ever woken is another matter, see \<open>lost_wakeup\<close>.\<close>

theorem waiting_tasks_kept:
  assumes "quiet s q" and "turn_reachable (begin_conf s) x"
  shows "\<exists>q'. sched_ok (machine x) q' \<and>
    (\<forall>c k. phase_of x c = Waiting k \<longrightarrow>
       current_task (machine x) = Some c \<or> c \<in> set (q' ReadyList) \<or> c \<in> set (q' (Waiters k))) \<and>
    (\<forall>k\<in>dom (locks (machine x)). \<forall>c\<in>set (q' (Waiters k)). phase_of x c = Waiting k)"
  using turn_reachable_inv [OF assms(2) inv_quiet [OF assms(1)]] unfolding inv_def by blast

theorem waiting_tasks_kept_witness:
  "\<exists>(x :: conf) q'. phase_of x 2 = Waiting ConsoleLock \<and> sched_ok (machine x) q' \<and>
     (2 \<in> set (q' ReadyList) \<or> 2 \<in> set (q' (Waiters ConsoleLock)))"
proof -
  obtain s d where x: "turn_reachable (begin_conf s2) \<lparr>machine = s,
        phase_of = (\<lambda>_. Running)(2 := Waiting ConsoleLock), depth = d\<rparr>" (is "turn_reachable _ ?x")
      and c: "current_task s = Some 3"
    using demo_waiting by (auto simp: run_at_def)
  from waiting_tasks_kept [OF s2_quiet x] obtain q' where q: "sched_ok (machine ?x) q'"
      "current_task (machine ?x) = Some 2 \<or> 2 \<in> set (q' ReadyList) \<or>
         2 \<in> set (q' (Waiters ConsoleLock))"
    by fastforce
  then show ?thesis using c by (intro exI [of _ ?x] exI [of _ q']) simp
qed

text \<open>C7: A wake-up can be lost. \<open>task_unblock\<close> unmasks the alarm before \<open>sema_up\<close> has incremented the
semaphore: when the releasing task is preempted there, the woken task finds the semaphore at
zero and waits again. From three tasks and free locks a state can be reached in which the
console lock is free, task 2 is on its wait list, and no other task is in a call on a lock.\<close>

theorem lost_wakeup:
  "\<exists>x q. reachable (begin_conf s2) x \<and> sched_ok (machine x) q \<and>
     locks (machine x) ConsoleLock = Some free_lock \<and> q (Waiters ConsoleLock) = [2] \<and>
     phase_of x = (\<lambda>_. Running)(2 := Waiting ConsoleLock)"
proof -
  let ?x = "begin_conf s2" and ?k = ConsoleLock
  let ?p = "(\<lambda>_. Running)(2 := Waiting ?k, 1 := Woke ?k)" and ?q = "demo_q q2"
  obtain t0 where 0: "run_at ?x t0 ?p (?q(ReadyList := [2, 3])) 1" "\<not> blocked t0"
      "locks t0 ?k = Some taking_lock"
    using demo_woken by force
  from run_preempt [OF 0(1) _ 0(2), of 2 "[3]"] obtain t1 where
    1: "run_at ?x t1 ?p (?q(ReadyList := [3, 1])) 2" "\<not> blocked t1" "locks t1 ?k = Some taking_lock"
    using 0(3) by auto
  from run_wait_again [OF 1(1) _ 1(3), of 3 "[1]"] obtain t2 where
    2: "run_at ?x t2 ?p (?q(ReadyList := [1], Waiters ?k := [2])) 3" "\<not> blocked t2"
      "locks t2 ?k = Some taking_lock"
    using 1(2,3) by (auto simp: demo_q_def q2_def)
  from run_preempt [OF 2(1) _ 2(2), of 1 "[]"] obtain t3 where
    3: "run_at ?x t3 ?p (?q(ReadyList := [1], Waiters ?k := [2], ReadyList := [3])) 1"
      "locks t3 ?k = Some taking_lock"
    using 2(3) by auto
  from run_raise [OF 3(1) _ 3(2)] obtain t4 where
    4: "run_at ?x t4 (?p(1 := Raised ?k)) (?q(ReadyList := [1], Waiters ?k := [2], ReadyList := [3])) 1"
      "locks t4 ?k = Some free_lock"
    by auto
  from run_done [OF 4(1) _ 4(2)] obtain t5 where
    5: "run_at ?x t5 (?p(1 := Raised ?k, 1 := Running))
         (?q(ReadyList := [1], Waiters ?k := [2], ReadyList := [3])) 1" "locks t5 ?k = Some free_lock"
    using 4(2) by auto
  have "?p(1 := Raised ?k, 1 := Running) = (\<lambda>_. Running)(2 :: nat := Waiting ?k)" by auto
  with 5 obtain d where "turn_reachable ?x \<lparr>machine = t5, phase_of = (\<lambda>_. Running)(2 := Waiting ?k), depth = d\<rparr>"
      "sched_ok t5 (?q(ReadyList := [1], Waiters ?k := [2], ReadyList := [3]))"
    by (auto simp: run_at_def)
  then show ?thesis
    using 5(2) turn_reachable_reachable by (intro exI [of _ "\<lparr>machine = t5, phase_of = (\<lambda>_. Running)(2 := Waiting ?k), depth = d\<rparr>"]
        exI [of _ "?q(ReadyList := [1], Waiters ?k := [2], ReadyList := [3])"]) simp
qed

text \<open>C8: The last assertion of \<open>sema_up\<close> can fail in a correct program: when the alarm comes between the
increment and the check, the woken task takes the semaphore, and the task that released the
lock spins for ever.\<close>

theorem release_can_spin:
  "\<exists>x. reachable (begin_conf s2) x \<and> current_task (machine x) = Some 1 \<and>
     phase_of x 1 = Raised ConsoleLock \<and> phase_of x 2 = Got ConsoleLock \<and>
     sema_up_done ConsoleLock (machine x) = Inl Assert_Spin"
proof -
  let ?x = "begin_conf s2" and ?k = ConsoleLock
  let ?p = "(\<lambda>_. Running)(2 := Waiting ?k, 1 := Woke ?k, 1 := Raised ?k)" and ?q = "demo_q q2"
  obtain t0 where "run_at ?x t0 ((\<lambda>_. Running)(2 := Waiting ?k, 1 := Woke ?k)) (?q(ReadyList := [2, 3])) 1"
      "\<not> blocked t0" "locks t0 ?k = Some taking_lock"
    using demo_woken by force
  from run_raise [OF this(1) _ this(3)] this(2) obtain t1 where
    1: "run_at ?x t1 ?p (?q(ReadyList := [2, 3])) 1" "\<not> blocked t1" "locks t1 ?k = Some free_lock"
    by auto
  from run_preempt [OF 1(1) _ 1(2), of 2 "[3]"] obtain t2 where
    2: "run_at ?x t2 ?p (?q(ReadyList := [3, 1])) 2" "locks t2 ?k = Some free_lock"
    using 1(3) by auto
  from run_resume [OF 2(1) _ 2(2)] obtain t3 where
    3: "run_at ?x t3 (?p(2 := Got ?k)) (?q(ReadyList := [3, 1])) 2" "\<not> blocked t3"
      "locks t3 ?k = Some taking_lock"
    by auto
  from run_preempt [OF 3(1) _ 3(2), of 3 "[1]"] obtain t4 where
    4: "run_at ?x t4 (?p(2 := Got ?k)) (?q(ReadyList := [1, 2])) 3" "\<not> blocked t4"
      "locks t4 ?k = Some taking_lock"
    using 3(3) by auto
  from run_preempt [OF 4(1) _ 4(2), of 1 "[2]"] obtain t5 where
    5: "run_at ?x t5 (?p(2 := Got ?k)) (?q(ReadyList := [2, 3])) 1" "locks t5 ?k = Some taking_lock"
    using 4(3) by auto
  obtain d where "reachable ?x \<lparr>machine = t5, phase_of = ?p(2 := Got ?k), depth = d\<rparr>"
    using run_atD(3) [OF 5(1)] turn_reachable_reachable by blast
  then show ?thesis
    using run_atD(2) [OF 5(1)] sema_up_done_run [OF 5(2)]
    by (intro exI [of _ "\<lparr>machine = t5, phase_of = ?p(2 := Got ?k), depth = d\<rparr>"]) simp
qed

text \<open>The mask belongs to the process, not to the task: a task that \<open>sema_down\<close> switched away with the
alarm masked can be resumed inside its loop, which relies on the mask, with the alarm unmasked.\<close>

theorem wait_resumed_unmasked:
  "\<exists>x. reachable (begin_conf s2) x \<and> current_task (machine x) = Some 2 \<and>
     phase_of x 2 = Waiting ConsoleLock \<and> \<not> blocked (machine x)"
proof -
  let ?p = "(\<lambda>_. Running)(2 := Waiting ConsoleLock, 1 := Woke ConsoleLock)"
  obtain t0 where 0: "run_at (begin_conf s2) t0 ?p ((demo_q q2)(ReadyList := [2, 3])) 1" "\<not> blocked t0"
    using demo_woken by blast
  from run_preempt [OF 0(1) _ 0(2), of 2 "[3]"] obtain t1 q where
    1: "run_at (begin_conf s2) t1 ?p q 2" "\<not> blocked t1"
    by auto
  obtain d where "reachable (begin_conf s2) \<lparr>machine = t1, phase_of = ?p, depth = d\<rparr>"
    using run_atD(3) [OF 1(1)] turn_reachable_reachable by blast
  then show ?thesis
    using run_atD(2) [OF 1(1)] 1(2)
    by (intro exI [of _ "\<lparr>machine = t1, phase_of = ?p, depth = d\<rparr>"]) simp
qed

text \<open>In every reachable state each part of a call that the running task can make or continue
succeeds, with two exceptions: \<open>sema_down\<close> spins in the idle loop when it has to wait and no
task is ready, and the last check of \<open>sema_up\<close> spins exactly when the lock is no longer free.\<close>

theorem lock_calls_return:
  assumes "quiet s q" and "turn_reachable (begin_conf s) x" and "current_task (machine x) = Some c"
  shows "(\<forall>k. phase_of x c = Got k \<longrightarrow> (\<exists>s'. lock_taken k (machine x) = Inr s')) \<and>
    (\<forall>k. phase_of x c = Gone k \<longrightarrow> (\<exists>s'. sema_up_wake k (machine x) = Inr s')) \<and>
    (\<forall>k. phase_of x c = Woke k \<longrightarrow> (\<exists>s'. sema_up_raise k (machine x) = Inr s')) \<and>
    (\<forall>k. phase_of x c = Raised k \<longrightarrow> (if locks (machine x) k = Some free_lock
       then \<exists>s'. sema_up_done k (machine x) = Inr s'
       else sema_up_done k (machine x) = Inl Assert_Spin)) \<and>
    (\<forall>k. phase_of x c = Waiting k \<longrightarrow> down_ok (machine x) (sema_down_loop k (machine x))) \<and>
    (\<forall>k\<in>dom (locks (machine x)). down_ok (machine x) (sema_down k (machine x))) \<and>
    (\<forall>k l. locks (machine x) k = Some l \<and> holder l = Some c \<longrightarrow>
       (\<exists>s'. lock_release k (machine x) = Inr s'))"
proof -
  obtain q' where "inv x q'" using turn_reachable_inv [OF assms(2) inv_quiet [OF assms(1)]] by blast
  note runs = protocol_runs [OF this assms(3)]
  show ?thesis by (intro conjI) (fact runs)+
qed

theorem lock_calls_return_witness:
  "\<exists>x. turn_reachable (begin_conf s2) x \<and> phase_of x 1 = Woke ConsoleLock \<and>
     (\<exists>s'. sema_up_raise ConsoleLock (machine x) = Inr s')"
proof -
  obtain s d where x: "turn_reachable (begin_conf s2) \<lparr>machine = s,
        phase_of = (\<lambda>_. Running)(2 := Waiting ConsoleLock, 1 := Woke ConsoleLock), depth = d\<rparr>"
        (is "turn_reachable _ ?x")
      and c1: "current_task s = Some 1"
    using demo_woken by (auto simp: run_at_def)
  then have c: "current_task (machine ?x) = Some 1" by simp
  from lock_calls_return [OF s2_quiet x c]
  have "\<forall>k. phase_of ?x 1 = Woke k \<longrightarrow> (\<exists>s'. sema_up_raise k (machine ?x) = Inr s')" by blast
  then show ?thesis using x by (intro exI [of _ ?x]) simp
qed

section \<open>Locks one call at a time\<close>

text \<open>A task that acquires a lock held by another task goes to the end of the wait list, is marked
blocked, and the first ready task runs, still with the alarm masked. The lock does not change,
and what is left of the call is the wait loop.\<close>

theorem lock_acquire_waits:
  assumes "sched_ok s q" and "locks s k = Some (held_lock b n)" and "current_task s = Some c"
    and "b \<noteq> c" and "q ReadyList = r # rs"
  shows "\<exists>t. lock_acquire k s = Switch t (acquire_rest k) \<and>
    sched_ok t (q(ReadyList := rs, Waiters k := q (Waiters k) @ [c])) \<and>
    current_task t = Some r \<and> has_status t c TASK_BLOCKED \<and> locks t = locks s \<and> blocked t"
proof -
  let ?s = "interrupt_disable s"
  have "lock_acquire k s = acquire_rest k ?s"
    by (rule lock_acquire_other [OF assms(2)]) (use assms(3,4) in simp)
  moreover have "sched_ok ?s q"
    using assms(1) by (subst sched_ok_frame [of _ s]) (auto simp: interrupt_disable_def)
  from acquire_rest_blocks [OF this, of k "held_lock b n" r rs c] assms(2,3,5)
  obtain t where "acquire_rest k ?s = Switch t (acquire_rest k)"
      "sched_ok t (q(ReadyList := rs, Waiters k := q (Waiters k) @ [c]))" "current_task t = Some r"
      "has_status t c TASK_BLOCKED" "locks t = locks s" "blocked t"
    by (auto simp: interrupt_disable_def)
  ultimately show ?thesis by metis
qed

theorem lock_acquire_waits_witness:
  "\<exists>t. lock_acquire ConsoleLock (s1\<lparr>locks := (locks s1)(ConsoleLock \<mapsto> held_lock 2 1)\<rparr>) =
     Switch t (acquire_rest ConsoleLock) \<and> current_task t = Some 2"
proof -
  let ?s = "s1\<lparr>locks := (locks s1)(ConsoleLock \<mapsto> held_lock 2 1)\<rparr>"
  have "sched_ok ?s (demo_q q1)"
    using s1_ok by (subst sched_ok_frame [of _ s1]) (auto simp: s1_def demo_def insert_absorb)
  from lock_acquire_waits [OF this, of ConsoleLock 2 1 1 2 "[3]"] show ?thesis
    by (auto simp: s1_def demo_def demo_q_def q1_def)
qed

text \<open>The last release frees the lock, takes the task that has waited longest from the wait list and
puts it, marked ready, at the front of the ready list; with no task waiting the lists stay.\<close>

theorem lock_release_wakes:
  assumes "sched_ok s q" and "locks s k = Some (held_lock c 1)" and "current_task s = Some c"
  shows "\<exists>t. lock_release k s = Inr t \<and> locks t = (locks s)(k \<mapsto> free_lock) \<and>
    current_task t = Some c \<and> \<not> blocked t \<and>
    sched_ok t (case q (Waiters k) of [] \<Rightarrow> q
      | w # ws \<Rightarrow> q(Waiters k := ws, ReadyList := w # q ReadyList))"
  using release_last [OF assms] assms(3) unfolding wake_queues_def by auto

theorem lock_release_wakes_witness:
  "\<exists>t. lock_release ConsoleLock s1 = Inr t \<and> locks t ConsoleLock = Some free_lock \<and>
     has_status t 4 TASK_READY"
proof -
  have "locks s1 ConsoleLock = Some (held_lock 1 1)" "current_task s1 = Some 1"
    by (simp_all add: s1_def demo_def)
  from lock_release_wakes [OF s1_ok this] obtain t where t: "lock_release ConsoleLock s1 = Inr t"
      "locks t = (locks s1)(ConsoleLock \<mapsto> free_lock)"
      "sched_ok t ((demo_q q1)(Waiters ConsoleLock := [], ReadyList := [4, 2, 3]))"
    by (auto simp: demo_q_def q1_def)
  from t(3) have "has_status t 4 TASK_READY" by (simp add: sched_ok_def)
  with t(1,2) show ?thesis by auto
qed

text \<open>The lock is re-entrant: a task that acquires a free lock \<open>n\<close> times holds it with count \<open>n\<close>, and
after \<open>n\<close> releases it is free again, up to the largest count of 32 bits.\<close>

theorem lock_nesting:
  assumes "sched_ok s q" and "locks s k = Some free_lock" and "current_task s = Some c"
    and "0 < n" and "n < 2 ^ 32"
  shows "\<exists>t u. acquires k n s = Done () t \<and> locks t = (locks s)(k \<mapsto> held_lock c (of_nat n)) \<and>
    sched_ok t q \<and> releases k n t = Inr u \<and> locks u = locks s \<and> sched_ok u (wake_queues k q)"
proof -
  obtain m where m: "n = Suc m" "m < 2 ^ 32 - 1" using assms(4,5) by (cases n) auto
  let ?t = "s\<lparr>locks := (locks s)(k \<mapsto> held_lock c (of_nat n)), blocked := False\<rparr>"
  have a: "acquires k n s = Done () ?t"
    using acquires_run [OF assms(2,3) m(2)] m(1) by simp
  have ok: "sched_ok ?t q"
    using assms(1,2) by (subst sched_ok_frame [of _ s]) (auto simp: insert_absorb)
  have "locks ?t k = Some (held_lock c (of_nat (Suc m)))" "current_task ?t = Some c"
    using m(1) assms(3) by simp_all
  from releases_run [OF ok this m(2)] obtain u where u: "releases k n ?t = Inr u"
      "sched_ok u (wake_queues k q)" "locks u = (locks ?t)(k \<mapsto> free_lock)"
    using m(1) by auto
  have "(locks ?t)(k \<mapsto> free_lock) = locks s" using assms(2) by auto
  then show ?thesis using a ok u by (intro exI [of _ ?t] exI [of _ u]) simp
qed

theorem lock_nesting_witness:
  "\<exists>t u. acquires ConsoleLock 3 s2 = Done () t \<and> releases ConsoleLock 3 t = Inr u \<and>
     locks u ConsoleLock = Some free_lock"
proof -
  have l: "locks s2 ConsoleLock = Some free_lock" "current_task s2 = Some 1"
    by (simp_all add: s2_def demo_def)
  from lock_nesting [OF s2_ok l, of 3] l(1) show ?thesis by auto
qed

text \<open>The count is not guarded: an acquisition at the largest count wraps it to zero, and the next
release of the holder spins in a failed assertion, with the lock still held.\<close>

theorem lock_count_wraps:
  assumes "locks s k = Some (held_lock c (- 1))" and "current_task s = Some c"
  shows "\<exists>t. lock_acquire k s = Done () t \<and> locks t k = Some (held_lock c 0) \<and>
    lock_release k t = Inl Assert_Spin"
  using acquire_held_lock [OF assms] assms(2) by (simp add: lock_release_def step_simps)

theorem lock_count_wraps_witness:
  "\<exists>t. lock_acquire ConsoleLock (s1\<lparr>locks := [ConsoleLock \<mapsto> held_lock 1 (- 1)]\<rparr>) = Done () t \<and>
     lock_release ConsoleLock t = Inl Assert_Spin"
proof -
  let ?s = "s1\<lparr>locks := [ConsoleLock \<mapsto> held_lock 1 (- 1)]\<rparr>"
  have "locks ?s ConsoleLock = Some (held_lock 1 (- 1))" "current_task ?s = Some 1"
    by (simp_all add: s1_def demo_def)
  from lock_count_wraps [OF this] show ?thesis by blast
qed

section \<open>Whole runs\<close>

text \<open>The tasks of \<open>s6\<close> with the shortest slices there are, all of them hooked.\<close>

definition short :: "task_struct \<Rightarrow> task_struct" where
  "short ts = ts\<lparr>ticks := 0, priority := 0, is_hook := True\<rparr>"

definition s8 :: sys where
  "s8 = s6\<lparr>tasks := [1 \<mapsto> short (demo_task 1 TASK_RUNNING), 2 \<mapsto> short (demo_task 2 TASK_READY),
     3 \<mapsto> short (demo_task 3 TASK_RUNNING)]\<rparr>"

lemma s8_facts: "current_task s8 = Some 1" "tasks s8 1 = Some (short (demo_task 1 TASK_RUNNING))"
    "timers s8 = t2" "dom (tasks s8) = {1, 2, 3}" "\<not> dozing s8" "demo_q q6 ReadyList = [] @ 2 # []"
  by (auto simp: s8_def s6_facts dozing_def marks_def short_def demo_task_def zero_task_def)

lemma s8_order: "in_order 0 s8 (demo_q q6) w2 1000"
proof -
  have t: "tasks s6 = [1 \<mapsto> demo_task 1 TASK_RUNNING, 2 \<mapsto> demo_task 2 TASK_READY, 3 \<mapsto> demo_task 3 TASK_RUNNING]"
    by (auto simp: s6_def demo_def fun_eq_iff)
  let ?a = "s6\<lparr>tasks := (tasks s6)(1 \<mapsto> short (demo_task 1 TASK_RUNNING))\<rparr>"
  let ?b = "?a\<lparr>tasks := (tasks ?a)(2 \<mapsto> short (demo_task 2 TASK_READY))\<rparr>"
  have "timers_ok ?a (demo_q q6) w2 1000" by (rule timers_ok_upd [OF s6_timers]) (simp_all add: t short_def)
  then have "timers_ok ?b (demo_q q6) w2 1000" by (rule timers_ok_upd) (simp_all add: t short_def)
  then have "timers_ok (?b\<lparr>tasks := (tasks ?b)(3 \<mapsto> short (demo_task 3 TASK_RUNNING))\<rparr>) (demo_q q6) w2 1000"
    by (rule timers_ok_upd) (simp_all add: t short_def)
  then have T: "timers_ok s8 (demo_q q6) w2 1000" by (simp add: s8_def t fun_upd_twist)
  have "locks s8 = locks s6" "main_task s8 = Some 1" "tid_bitmap s8 = b1"
    by (simp_all add: s8_def s6_def demo_def)
  moreover have "locks s6 k = Some free_lock \<and> demo_q q6 (Waiters k) = []" if "k \<in> {TidLock, ConsoleLock}" for k
    using that by (auto simp: s6_def demo_def demo_q_def q6_def)
  moreover have "live s8 (demo_q q6) w2 \<subseteq> set (demo_q q6 AllList) - set (demo_q q6 PoolList)"
    by (auto simp: live_def s8_facts w_members calls_def t2_ok(3) wake_node_def demo_q_def q6_def split: if_splits)
  moreover have "slices_le 0 (slices s8)"
    by (auto simp: slices_le_def slices_def s8_def short_def demo_task_def zero_task_def split: if_splits)
  moreover have "\<forall>t\<in>set (demo_q q6 ReadyList). marks s8 t = Some False"
    by (simp add: s8_facts(6) marks_def s8_def short_def demo_task_def zero_task_def)
  ultimately show ?thesis
    using T b1_map s8_facts(4) by (auto simp: in_order_def pool_map_def)
qed

text \<open>A world in which every allocation succeeds: the tasks are at the addresses from \<open>10\<close> on.\<close>

definition w0 :: "(32 word) world" where
  "w0 = \<lparr>main_env = env1, manager_ok = True, boot_clock = at_ms 1009, clean_node = Some 8,
     timer_set = (\<lambda>_. 0), task_env = (\<lambda>i. \<lparr>new_task = Some (i + 10), new_stack = 0x10000, entrance = 0x400\<rparr>),
     written = (\<lambda>_. 30), replaced = lc1\<rparr>"

lemma w0_start: "fresh_start s0 w0 9 8 (\<lambda>i. i + 10) m"
proof -
  have "ConsoleLock \<notin> dom (locks s0)" "TimerLock \<notin> dom (locks s0)" "tnodes (timers s0) = Map.empty"
      "\<forall>n. tlinks (timers s0) (Node n) = None"
    by (simp_all add: s0_def demo_def)
  then show ?thesis using s0_boot by (auto simp: fresh_start_def w0_def env1_def inj_on_def)
qed

text \<open>C9: Whole runs. After the library has been started, let alarms come and tasks start others, sleep in
any of the three ways, print, hook themselves and end, in any order the conditions of
\<open>event_ok\<close> admit: the clock does not wrap, \<open>malloc\<close> and the tid pool have something left, somebody
is ready when a task sleeps or ends, a task ends only while nine tasks exist, and tasks are started
only while none has ended (a start after an end spins). Each call is one event, without an alarm in
it. Then no assertion
fails, no access is bad, nothing spins. After every event the state is in order: the lists and the
marks agree, the wheel and its timers are well formed, each waking a sleeping task of its own, all
locks are free, every task that can still run is on the list of all tasks, and no ready task is
still marked as sleeping.\<close>

theorem runs_stay_in_order:
  assumes "fresh_start s W t n a m" and "3 \<le> P"
  shows "\<exists>u. start_library W s = Done () u \<and> (\<forall>es. events_ok lc client P es u \<longrightarrow>
    (\<exists>v q w j. run_events lc client es u = Inr v \<and> in_order P v q w j))"
proof -
  obtain u where u: "start_library W s = Done () u"
      "in_order P u (main_queues t) (first_wheel (get_jiffies (boot_clock W)) n) (get_jiffies (boot_clock W))"
    using started_in_order [OF assms] by blast
  then show ?thesis using events_run [OF u(2)] by blast
qed

theorem runs_stay_in_order_witness:
  "\<exists>u v q w j. start_library w0 s0 = Done () u \<and> in_order 3 v q w j \<and>
    run_events lc1 (\<lambda>_ _. Inr) (replicate 50 (On_Alarm (at_ms 1009) None zero_context)) u = Inr v"
proof -
  let ?es = "replicate 50 (On_Alarm (at_ms 1009) None zero_context)"
  have j: "get_jiffies (boot_clock w0) = 1009" using at_ms_1009 by (simp add: w0_def)
  from runs_stay_in_order [OF w0_start, of 3 lc1 "\<lambda>_ _. Inr"] obtain u where u: "start_library w0 s0 = Done () u"
      "\<And>es. events_ok lc1 (\<lambda>_ _. Inr) 3 es u \<Longrightarrow>
        \<exists>v q w j. run_events lc1 (\<lambda>_ _. Inr) es u = Inr v \<and> in_order 3 v q w j"
    by auto
  have o: "in_order 3 u (main_queues 9) (first_wheel 1009 8) 1009"
    using started_in_order [OF w0_start, of 3] u(1) by (auto simp: j)
  have "tasks u = [9 \<mapsto> fresh_task (main_env w0) ''main'' 3 1 TASK_RUNNING False]" "current_task u = Some 9"
    using start_library_run [OF w0_start] u(1) by auto
  then have "\<not> dozing u" by (simp add: dozing_def marks_def fresh_task_def)
  from alarms_alone [OF o this, of "at_ms 1009" lc1 "\<lambda>_ _. Inr" 50 None zero_context]
  have "events_ok lc1 (\<lambda>_ _. Inr) 3 ?es u" by (simp add: at_ms_1009)
  from u(2) [OF this] show ?thesis using u(1) by blast
qed

text \<open>C10: In the runs of alarms and calls that satisfy \<open>events_ok\<close> no ready task starves: one that has \<open>n\<close>
others before it runs after at most \<open>(P + 1) * (n + 1)\<close> alarms, where \<open>P\<close> is the largest priority,
that is the longest slice, however many tasks are started or woken by timers meanwhile. When it
runs, a \<open>sleep\<close> it was in returns. The calls of these runs are the three ways of sleeping, printing,
hooking, starting a task and ending; blocking on a lock, a semaphore or an I/O queue is not among
them: \<open>task_unblock\<close> pushes the task it wakes to the front of the ready list, before the others.\<close>

theorem no_starvation:
  assumes "in_order P s q w j" and "q ReadyList = xs @ t # ys" and "events_ok lc client P es s"
    and "Suc P * Suc (length xs) \<le> alarm_count es"
  shows "\<exists>fs gs u. es = fs @ gs \<and> alarm_count fs \<le> Suc P * Suc (length xs) \<and>
    run_events lc client fs s = Inr u \<and> current_task u = Some t \<and> sleep_loop u = Done 0 u"
proof -
  have b: "Suc (ticks_left s + length xs * Suc P) \<le> Suc P * Suc (length xs)"
    using ticks_left_le [OF assms(1)] by simp
  have "ticks_left s + length xs * Suc P < alarm_count es" using b assms(4) by linarith
  from ready_runs [OF assms(1,3,2) this] obtain fs gs u where u: "es = fs @ gs"
      "alarm_count fs \<le> Suc (ticks_left s + length xs * Suc P)" "run_events lc client fs s = Inr u"
      "current_task u = Some t" "marks u t = Some False"
    by blast
  have "alarm_count fs \<le> Suc P * Suc (length xs)" using u(2) b by linarith
  then show ?thesis using u(1,3,4) sleep_loop_awake [OF u(4,5)] by blast
qed

theorem no_starvation_witness:
  "\<exists>u. run_events lc1 (\<lambda>_ _. Inr) [On_Alarm (at_ms 1009) None zero_context] s8 = Inr u \<and> current_task u = Some 2"
proof -
  let ?a = "On_Alarm (at_ms 1009) None zero_context"
  have ok: "events_ok lc1 (\<lambda>_ _. Inr) 0 (replicate 1 ?a) s8"
    by (rule alarms_alone [OF s8_order s8_facts(5)]) (simp_all add: at_ms_1009)
  from no_starvation [OF s8_order s8_facts(6) ok] obtain fs gs u where u: "[?a] = fs @ gs"
      "run_events lc1 (\<lambda>_ _. Inr) fs s8 = Inr u" "current_task u = Some 2"
    by (auto simp: is_alarm_def)
  have "fs \<noteq> []" using u(2,3) s8_facts(1) by auto
  then have "fs = [?a]" using u(1) by (cases fs) auto
  then show ?thesis using u(2,3) by blast
qed

text \<open>C11: A call of \<open>sleep\<close> returns. A hooked task calls \<open>sleep(n)\<close> and an alarm takes it off the processor.
Whatever the other tasks do then, once the wheel is past the time of its timer, and after that
\<open>P + 1\<close> alarms for each task have come, there was a moment at which it ran again, and its loop in
\<open>sleep\<close> returned \<open>0\<close>.\<close>

theorem sleep_returns:
  assumes "in_order P s q w j" and "current_task s = Some c" and "tasks s c = Some ts" and "is_hook ts"
    and "nap = [Call_Sleep n, On_Alarm clock new frame]" and "events_ok lc client P (nap @ es1 @ es2) s"
    and "Suc (unat (get_jiffies clock)) + unat (n * 1000) < 2 ^ 32"
    and "run_events lc client (nap @ es1) s = Inr u" and "manager_mem (timers u) = Some m"
    and "Suc (unat (get_jiffies clock)) + unat (n * 1000) < unat (uJiffies m)"
    and "finite (dom (tasks u))" and "Suc P * card (dom (tasks u)) \<le> alarm_count es2"
  shows "\<exists>fs gs v. es1 @ es2 = fs @ gs \<and> run_events lc client (nap @ fs) s = Inr v \<and>
    current_task v = Some c \<and> sleep_loop v = Done 0 v"
  using sleep_call_runs [OF assms] sleep_loop_awake by blast

theorem sleep_returns_witness:
  "\<exists>k v. run_events lc1 (\<lambda>_ _. Inr) ([Call_Sleep 1, On_Alarm (at_ms 1009) (Some 9) zero_context] @
      replicate k (On_Alarm (at_ms 2010) None zero_context)) s8 = Inr v \<and>
    k \<le> 4 \<and> current_task v = Some 1 \<and> sleep_loop v = Done 0 v"
proof -
  let ?cl = "\<lambda>_ _. Inr :: sys \<Rightarrow> sys result"
  let ?a = "On_Alarm (at_ms 1009) (Some 9) zero_context" and ?b = "On_Alarm (at_ms 2010) None zero_context"
  let ?nap = "[Call_Sleep 1, ?a]" and ?st = "short (demo_task 1 TASK_RUNNING)"
  let ?s = "s8\<lparr>tasks := (tasks s8)(1 \<mapsto> marked_asleep (1 * 1000) ?st)\<rparr>"
  have h: "is_hook ?st" by (simp add: short_def)
  have j: "get_jiffies (at_ms 2010) = 2010" by (simp add: get_jiffies_def at_ms_def signed_divide_int_def)
  have 1: "event_step lc1 ?cl (Call_Sleep 1) s8 = Inr ?s"
    using sleep_run(1) [OF s8_facts(1,2) h, where lc = lc1 and n = 1] by simp
  then have o: "in_order 0 ?s (demo_q q6) w2 1000"
    using sleep_moves(1) [OF s8_order, of lc1 1] by (auto simp: event_moves_def)
  have a: "event_ok 0 ?a ?s"
    using lists_empty(1) [OF in_orderD(2) [OF o]] by (simp add: s8_facts t2_ok at_ms_1009)
  then obtain s2 q2 w2' where 2: "event_step lc1 ?cl ?a ?s = Inr s2" "in_order 0 s2 q2 w2' 1010" "\<not> dozing s2"
    using alarm_moves [OF o a, where client = ?cl] by (auto simp: event_moves_def at_ms_1009)
  have nap: "run_events lc1 ?cl (?nap @ es) s8 = run_events lc1 ?cl es s2" for es
    by (simp only: append.simps run_events.simps andthen_Inr 1 2(1))
  have okn: "events_ok lc1 ?cl 0 (replicate k ?b) s2" for k
    by (rule alarms_alone [OF 2(2,3)]) (simp_all add: j)
  have d: "dom (tasks s2) = {1, 2, 3}"
    using alarm_moves [OF o a, where client = ?cl] 2(1) s8_facts(4) by (auto simp: insert_absorb)
  obtain u qu wu where u: "run_events lc1 ?cl (replicate 1 ?b) s2 = Inr u" "in_order 0 u qu wu 2011"
      "dom (tasks u) = {1, 2, 3}"
    using alarms_alone(2) [OF 2(2,3), of "at_ms 2010" lc1 ?cl 1 None zero_context] by (auto simp: j d)
  have es: "events_ok lc1 ?cl 0 (?nap @ replicate 1 ?b @ replicate 3 ?b) s8"
    using okn [of 4] a 1 2(1) s8_facts(5)
    by (simp add: numeral_eq_Suc del: event_step.simps(1) event_ok.simps(1))
  have m: "manager_mem (timers u) = Some \<lparr>uExitFlag = 0, uJiffies = 2011\<rparr>"
    using timers_okD(2) [OF in_orderD(1) [OF u(2)]] .
  have "run_events lc1 ?cl (?nap @ replicate 1 ?b) s8 = Inr u" unfolding nap by (rule u(1))
  from sleep_returns [OF s8_order s8_facts(1,2) h refl es _ this m] u(3)
  obtain fs gs v where v: "replicate 1 ?b @ replicate 3 ?b = fs @ gs" "run_events lc1 ?cl (?nap @ fs) s8 = Inr v"
      "current_task v = Some 1" "sleep_loop v = Done 0 v"
    by (auto simp: at_ms_1009)
  have "fs @ gs = replicate 4 ?b" using v(1) by (simp add: numeral_eq_Suc)
  then have "fs = take (length fs) (replicate 4 ?b)" "length fs \<le> 4"
    by (metis append_eq_conv_conj, metis le_add1 length_append length_replicate)
  then have "fs = replicate (length fs) ?b" by (simp add: min_absorb2)
  then show ?thesis using v(2-4) \<open>length fs \<le> 4\<close> by metis
qed

text \<open>C12: The interrupt does what the abstract scheduler does. The wheel makes its \<open>k\<close> turns; the tasks whose
timers have run, and no others, go to the end of the ready list, awake and with a new slice. Then,
if the running task asked to sleep, it gets a timer and the first ready task runs; if its slice is
used up, it goes to the end of the list and the first of the list runs; otherwise it goes on in
the context it was interrupted in, with one tick less. No lock, no id and no other task changes.\<close>

theorem alarm_refines:
  assumes "timers_ok s q w j" and "current_task s = Some c" and "tasks s c = Some ts"
    and "stack_magic ts = 0x19991120"
    and "unat j + k = Suc (unat (get_jiffies clock))" and "Suc (unat (get_jiffies clock)) < 2 ^ 32"
    and "is_collaborative_schedule ts \<longrightarrow>
      (\<exists>n. new = Some n \<and> n \<notin> dom (tnodes (timers s))) \<and> q ReadyList \<noteq> []"
  defines "b \<equiv> is_collaborative_schedule ts" and "x \<equiv> turns k j (tnodes (timers s), w)"
  shows "\<exists>frame' s' w' wk. signal_headler client clock new frame s = Done frame' s' \<and>
    distinct (c # wk) \<and> set wk = {t. \<exists>n\<in>members w - members (snd x). wakes (calls (tnodes (timers s))) n t} \<and>
    (let nt = next_task b (ticks ts) c (q ReadyList @ wk) in
       timers_ok s' (q(ReadyList := snd nt)) w' (get_jiffies clock + 1) \<and> current_task s' = Some (fst nt)) \<and>
    slices s' = next_slices b (ticks ts) c (refill (set wk) (slices s)) \<and>
    marks s' = (\<lambda>t. if t \<in> set wk then Some False else marks s t) \<and>
    (tnodes (timers s'), w') =
      (if b then set_wake (get_jiffies clock + 1) (the new) c (sleep_millisecond ts) x else x) \<and>
    (\<not> b \<and> ticks ts \<noteq> 0 \<longrightarrow> frame' = frame) \<and> locks s' = locks s \<and> same_ids s' s \<and> \<not> blocked s'"
proof -
  from interrupt_run [OF assms(1-7), where client = client and frame = frame, folded b_def x_def]
  obtain frame' s' w' wk nt where r: "signal_headler client clock new frame s = Done frame' s'" "distinct wk"
      "set wk = {t. \<exists>n\<in>members w - members (snd x). wakes (calls (tnodes (timers s))) n t}"
      "nt = next_task b (ticks ts) c (q ReadyList @ wk)"
      "timers_ok s' (q(ReadyList := snd nt)) w' (get_jiffies clock + 1)" "current_task s' = Some (fst nt)"
      "marks s' = (\<lambda>t. if t \<in> set wk then Some False else marks s t)"
      "slices s' = next_slices b (ticks ts) c (refill (set wk) (slices s))"
      "(tnodes (timers s'), w') =
        (if b then set_wake (get_jiffies clock + 1) (the new) c (sleep_millisecond ts) x else x)"
      "locks s' = locks s" "same_ids s' s" "\<not> blocked s'" "c \<notin> set wk" "\<not> b \<and> ticks ts \<noteq> 0 \<longrightarrow> frame' = frame"
    by (elim exE conjE) (rule that; assumption)
  have "distinct (c # wk)" using r(2,13) by simp
  moreover have "let nt = next_task b (ticks ts) c (q ReadyList @ wk) in
       timers_ok s' (q(ReadyList := snd nt)) w' (get_jiffies clock + 1) \<and> current_task s' = Some (fst nt)"
    using r(4-6) by simp
  ultimately show ?thesis
    by (intro exI [of _ frame'] exI [of _ s'] exI [of _ w'] exI [of _ wk] conjI) (rule r; fail | assumption)+
qed

theorem alarm_refines_witness:
  "\<exists>frame' s' w' wk. signal_headler (\<lambda>_ _. Inr) (at_ms 1009) None zero_context s6 = Done frame' s' \<and>
     timers_ok s' ((demo_q q6)(ReadyList := [2] @ wk)) w' 1010 \<and> current_task s' = Some 1 \<and> frame' = zero_context \<and>
     map_option fst (slices s' 1) = Some 2 \<and> map_option fst (slices s' 2) = Some 3"
proof -
  let ?ts = "demo_task 1 TASK_RUNNING"
  have t: "stack_magic ?ts = 0x19991120" "\<not> is_collaborative_schedule ?ts" "ticks ?ts = 3"
    by (simp_all add: demo_task_def zero_task_def)
  have s: "map_option fst (slices s6 1) = Some 3" "map_option fst (slices s6 2) = Some 3" "map_option (fst \<circ> snd) (slices s6 2) = Some 3"
    by (simp_all add: slices_def s6_def demo_def demo_task_def)
  from alarm_refines [OF s6_timers s6_facts(1,2) t(1), of 10 "at_ms 1009" None "\<lambda>_ _. Inr" zero_context] t
  obtain frame' s' w' wk where r: "signal_headler (\<lambda>_ _. Inr) (at_ms 1009) None zero_context s6 = Done frame' s'"
      "1 \<notin> set wk" "timers_ok s' ((demo_q q6)(ReadyList := [2] @ wk)) w' 1010" "current_task s' = Some 1"
      "slices s' = spend 1 (refill (set wk) (slices s6))" "frame' = zero_context"
    by (auto simp: at_ms_1009 next_task_def next_slices_def s6_facts)
  have "map_option fst (slices s' 1) = Some 2" "map_option fst (slices s' 2) = Some 3"
    using r(2) s by (auto simp: r(5) spend_def refill_def)
  then show ?thesis using r by blast
qed
section \<open>The timer interrupt\<close>

text \<open>C13: The alarm comes when the clock shows \<open>now\<close>, and the wheel has \<open>k\<close> milliseconds to catch up. The
state stays in order. Every sleeping task whose timer had less than \<open>k\<close> turns to wait is on the
ready list or runs, and when it runs its loop in \<open>sleep\<close> returns \<open>0\<close>; every other timer of a
sleeping task still waits, \<open>k\<close> turns less.\<close>

theorem sleeper_wakes:
  assumes "timers_ok s q w j" and "current_task s = Some c" and "tasks s c = Some ts"
    and "stack_magic ts = 0x19991120"
    and "unat j + k = Suc (unat (get_jiffies clock))" and "Suc (unat (get_jiffies clock)) < 2 ^ 32"
    and "is_collaborative_schedule ts \<Longrightarrow>
      (\<exists>m. new = Some m \<and> m \<notin> dom (tnodes (timers s))) \<and> q ReadyList \<noteq> []"
  shows "\<exists>frame' s' q' w'. signal_headler client clock new frame s = Done frame' s' \<and>
    timers_ok s' q' w' (get_jiffies clock + 1) \<and>
    (\<forall>n t e r. pending n (wake_node e t) r j (tnodes (timers s), w) \<longrightarrow>
      (if r < k then (t \<in> set (q' ReadyList) \<or> current_task s' = Some t \<and> sleep_loop s' = Done 0 s')
       else pending n (wake_node e t) (r - k) (get_jiffies clock + 1) (tnodes (timers s'), w')))"
  using interrupt_ok [OF assms, where client = client and frame = frame] sleep_loop_awake by metis

theorem sleeper_wakes_witness:
  "\<exists>frame' s' q' w'. signal_headler (\<lambda>_ _. Inr) (at_ms 1009) None zero_context s6 = Done frame' s' \<and>
     timers_ok s' q' w' 1010 \<and>
     (3 \<in> set (q' ReadyList) \<or> current_task s' = Some 3 \<and> sleep_loop s' = Done 0 s')"
proof -
  have "stack_magic (demo_task 1 TASK_RUNNING) = 0x19991120"
      "\<not> is_collaborative_schedule (demo_task 1 TASK_RUNNING)"
    by (simp_all add: demo_task_def zero_task_def)
  with sleeper_wakes [OF s6_timers s6_facts(1,2), of 10 "at_ms 1009" None "\<lambda>_ _. Inr" zero_context,
      unfolded at_ms_1009]
  obtain frame' s' q' w' where r: "signal_headler (\<lambda>_ _. Inr) (at_ms 1009) None zero_context s6 = Done frame' s'"
      "timers_ok s' q' w' 1010"
      "\<forall>n t e r. pending n (wake_node e t) r 1000 (tnodes (timers s6), w2) \<longrightarrow>
        (if r < 10 then (t \<in> set (q' ReadyList) \<or> current_task s' = Some t \<and> sleep_loop s' = Done 0 s')
         else pending n (wake_node e t) (r - 10) (1009 + 1) (tnodes (timers s'), w'))"
    by auto
  then show ?thesis using s6_pending s6_facts(3) by fastforce
qed

text \<open>C14: A hooked task that calls \<open>sleep(n)\<close> is marked and loops. The next alarm makes a timer of the
\<open>n * 1000\<close> milliseconds, as a 32-bit number, saves the context of the task, puts it on no list,
and runs the first ready task. The timer is due after \<open>fires_after\<close> of the milliseconds.\<close>

theorem sleep_starts:
  assumes "timers_ok s q w j" and "current_task s = Some c" and "tasks s c = Some ts"
    and "is_hook ts" and "stack_magic ts = 0x19991120"
    and "unat j + k = Suc (unat (get_jiffies clock))" and "m \<notin> dom (tnodes (timers s))"
    and "q ReadyList = t # ns"
    and "Suc (unat (get_jiffies clock)) + unat (n * 1000) < 2 ^ 32"
  shows "\<exists>st frame' s' q' w'. sleep lc n s = Switch st sleep_loop \<and>
    signal_headler client clock (Some m) frame st = Done frame' s' \<and>
    timers_ok s' q' w' (get_jiffies clock + 1) \<and> current_task s' = Some t \<and>
    sleeping s' q' c \<and> map_option tcontext (tasks s' c) = Some frame \<and>
    pending m (wake_node (get_jiffies clock + 1 + n * 1000) c)
      (fires_after (unat (get_jiffies clock + 1 + n * 1000)) (unat (n * 1000))) (get_jiffies clock + 1) (tnodes (timers s'), w')"
proof -
  let ?ts = "marked_asleep (n * 1000) ts"
  let ?s = "s\<lparr>tasks := (tasks s)(c \<mapsto> ?ts)\<rparr>"
  have "timers_ok ?s q w j" by (rule timers_ok_upd [OF assms(1,3)]) (simp add: marked_asleep_def)
  from interrupt_sleeps [OF this, of c ?ts k clock m client frame] assms(2,5-9)
  have "\<exists>frame' s' q' w'. signal_headler client clock (Some m) frame ?s = Done frame' s' \<and>
    timers_ok s' q' w' (get_jiffies clock + 1) \<and> sleeping s' q' c \<and>
    pending m (wake_node (get_jiffies clock + 1 + n * 1000) c)
      (fires_after (unat (get_jiffies clock + 1 + n * 1000)) (unat (n * 1000))) (get_jiffies clock + 1) (tnodes (timers s'), w') \<and>
    map_option tcontext (tasks s' c) = Some frame \<and> current_task s' = Some t"
    by (simp add: marked_asleep_def)
  then show ?thesis using sleep_run(1) [OF assms(2-4)] by metis
qed

theorem sleep_starts_witness:
  "\<exists>st frame' s' q' w'. sleep lc1 1 s7 = Switch st sleep_loop \<and>
    signal_headler (\<lambda>_ _. Inr) (at_ms 1009) (Some 9) zero_context st = Done frame' s' \<and>
    timers_ok s' q' w' 1010 \<and> current_task s' = Some 2 \<and> sleeping s' q' 1 \<and>
    pending 9 (wake_node 2010 1) 232 1010 (tnodes (timers s'), w')"
proof -
  have "fires_after 2010 1000 = 232" by (simp add: fires_after_def early_first)
  then show ?thesis
    using sleep_starts [OF s7_timers s7_facts(1,2), of 10 "at_ms 1009" 9 2 "[]" 1 lc1 "\<lambda>_ _. Inr" zero_context]
    by (auto simp: at_ms_1009 s7_facts t2_ok(3) demo_task_def zero_task_def) blast
qed

text \<open>The invariant of the library between two alarms: the lists of tasks and the marks of the tasks on
them agree, the rings of the wheel hold allocated nodes, each in one place, nobody holds or waits
for the lock of the timers, and every timer cleans the pool or wakes a sleeping task, no task has
two. An alarm keeps it, on every branch of the handler, as long as the clock has not wrapped and
a task that goes to sleep gets its timer and leaves a ready task behind.\<close>

theorem interrupt_keeps_order:
  assumes "timers_ok s q w j" and "current_task s = Some c" and "tasks s c = Some ts"
    and "stack_magic ts = 0x19991120"
    and "unat j \<le> Suc (unat (get_jiffies clock))" and "Suc (unat (get_jiffies clock)) < 2 ^ 32"
    and "is_collaborative_schedule ts \<Longrightarrow>
      (\<exists>m. new = Some m \<and> m \<notin> dom (tnodes (timers s))) \<and> q ReadyList \<noteq> []"
  shows "\<exists>frame' s' q' w'. signal_headler client clock new frame s = Done frame' s' \<and>
    timers_ok s' q' w' (get_jiffies clock + 1) \<and> \<not> blocked s'"
proof -
  have "unat j + (Suc (unat (get_jiffies clock)) - unat j) = Suc (unat (get_jiffies clock))"
    using assms(5) by simp
  from interrupt_ok [OF assms(1-4) this assms(6,7), of client frame] show ?thesis by blast
qed

theorem interrupt_keeps_order_witness:
  "\<exists>frame' s' q' w'. signal_headler (\<lambda>_ _. Inr) (at_ms 1009) None zero_context s6 = Done frame' s' \<and>
     timers_ok s' q' w' 1010 \<and> \<not> blocked s'"
  using interrupt_keeps_order [OF s6_timers s6_facts(1,2), of "at_ms 1009" None "\<lambda>_ _. Inr" zero_context]
  by (simp add: at_ms_1009 demo_task_def zero_task_def)

text \<open>C15: The code refines an abstract wheel, in which each slot has the list of the nodes in it and one
turn cascades, empties the slot of the millisecond, frees the nodes that run once and puts the
others at the place of their next expiry. \<open>run_timer\<close> returns, has made one turn for each
millisecond up to the one of the clock, and has put the tasks whose timers are gone on the ready
list, each once.\<close>

theorem run_timer_turns:
  assumes "timers_ok s q w j" and "current_task s = Some c"
    and "unat j + k = Suc (unat (get_jiffies clock))" and "Suc (unat (get_jiffies clock)) < 2 ^ 32"
  shows "\<exists>s' w' wk. run_timer client clock s = Done () s' \<and> wheel_ok (timers s') w' \<and>
    (tnodes (timers s'), w') = turns k j (tnodes (timers s), w) \<and>
    manager_mem (timers s') = Some \<lparr>uExitFlag = 0, uJiffies = get_jiffies clock + 1\<rparr> \<and>
    sched_ok s' (q(ReadyList := q ReadyList @ wk)) \<and> distinct wk \<and>
    set wk = {t. \<exists>n\<in>members w - members w'. \<exists>e. tnodes (timers s) n = Some (wake_node e t)}"
proof -
  have h: "handler_timers client clock s = run_timer client clock s"
    using timers_okD(7,8) [OF assms(1)] by (simp add: handler_timers_def)
  obtain s' w' wk where r: "run_timer client clock s = Done () s'"
      "timers_ok s' (wake_list wk q) w' (get_jiffies clock + 1)"
      "(tnodes (timers s'), w') = turns k j (tnodes (timers s), w)" "distinct wk"
      "set wk = {t. \<exists>n\<in>members w - members w'. wakes (calls (tnodes (timers s))) n t}"
    using handler_timers_run [OF assms, of client] unfolding h by blast
  have "wakes (calls (tnodes (timers s))) n t = (\<exists>e. tnodes (timers s) n = Some (wake_node e t))" for n t
  proof (cases "tnodes (timers s) n")
    case (Some d)
    then show ?thesis by (cases d) (auto simp: calls_def wake_node_def)
  qed (simp add: calls_def)
  then show ?thesis
    using r timers_okD(1,2,5) [OF r(2)]
    by (intro exI [of _ s'] exI [of _ w'] exI [of _ wk]) (simp add: wake_list_def)
qed

theorem run_timer_turns_witness:
  "\<exists>s' w' wk. run_timer (\<lambda>_ _. Inr) (at_ms 1009) s6 = Done () s' \<and> wheel_ok (timers s') w' \<and>
    (tnodes (timers s'), w') = turns 10 1000 (tnodes t2, w2) \<and> sched_ok s' ((demo_q q6)(ReadyList := 2 # wk))"
  using run_timer_turns [OF s6_timers s6_facts(1), of 10 "at_ms 1009" "\<lambda>_ _. Inr"]
  by (auto simp: at_ms_1009 s6_facts)

text \<open>C16: When a one-shot timer runs. A timer that is created for \<open>due\<close> milliseconds is freed in the
turn after \<open>due - early\<close> others, whichever arrays it moves through. Below 2560 milliseconds it
is freed after \<open>due mod 256\<close>: too early from 256 on, since the code takes the first array for up
to 2559 milliseconds, while it has 256 places. So a sleep of one second ends after 232
milliseconds. Up to 163839 milliseconds, which is what the second array is used for, it runs in
its millisecond. Beyond it can come from a higher array into the first one with up to 2559
milliseconds left, and runs early again, by 2304 milliseconds at most. It never runs late.\<close>

theorem timer_fires_after:
  assumes "wheel_ok ts w" and "n \<notin> dom (tnodes ts)" and "manager_mem ts = Some m"
    and "unat (uJiffies m) + unat due < 2 ^ 32"
  defines "e \<equiv> unat (uJiffies m + due)" and "d \<equiv> unat due"
  shows "\<exists>ts' w'. insert_timer n due (alloc_node n f p 0 ts) = Inr ts' \<and> wheel_ok ts' w' \<and>
    (\<forall>k. (fst (turns k (uJiffies m) (tnodes ts', w')) n = None) = (d - early e d < k)) \<and>
    early e d \<le> d \<and> early e d \<le> 2304 \<and> (d < 2560 \<longrightarrow> early e d = d - d mod 256) \<and>
    (2560 \<le> d \<and> d < 163840 \<longrightarrow> early e d = 0)"
proof -
  let ?j = "uJiffies m" and ?e = "uJiffies m + due" and ?r = "fires_after e d"
  let ?c = "\<lparr>uExpires = ?e, uPeriod = 0, timerFn = f, pParam = p\<rparr>"
  obtain ts' where t: "insert_timer n due (alloc_node n f p 0 ts) = Inr ts'"
      "wheel_ok ts' (put (\<lambda>_. ?e) ?j n w)" "tnodes ts' = (tnodes ts)(n \<mapsto> ?c)"
    using insert_timer_run [OF assms(1-3), of due f p 0] by blast
  let ?x = "(tnodes ts', put (\<lambda>_. ?e) ?j n w)"
  have w: "waits n ?c (timer_slot (uExpires ?c) ?j) ?x"
    using wheel_ok_apart [OF t(2)] by (simp add: waits_def t(3) put_def Let_def)
  have u: "unat ?j + unat due = unat (uExpires ?c)" using assms(4) by (simp add: unat_word_ariths(1))
  have fire: "if ?r < k then gone n (turns k ?j ?x) else pending n ?c (?r - k) (?j + of_nat k) (turns k ?j ?x)" for k
    using turns_fire [OF w _ u, of k] unfolding e_def d_def by (auto split: if_splits)
  have "(fst (turns k ?j ?x) n = None) = (d - early e d < k)" for k
  proof -
    obtain nd' v where "turns k ?j ?x = (nd', v)" by fastforce
    then show ?thesis
      using fire [of k] pending_member(1) [of n ?c "?r - k" "?j + of_nat k" nd' v]
      by (auto simp: gone_def fires_after_def split: if_splits)
  qed
  then show ?thesis using t(1,2) early_le [of e d] early_first [of d e] early_second [of d e] by blast
qed

theorem timer_fires_after_witness:
  "(\<exists>ts' w'. insert_timer 9 1000 (alloc_node 9 (Client 0) (Client_Param 0) 0 t2) = Inr ts' \<and> wheel_ok ts' w' \<and>
    (\<forall>k. (fst (turns k 1000 (tnodes ts', w')) 9 = None) = (232 < k))) \<and>
   (\<exists>ts' w'. insert_timer 9 180224 (alloc_node 9 (Client 0) (Client_Param 0) 0 t2) = Inr ts' \<and> wheel_ok ts' w' \<and>
    (\<forall>k. (fst (turns k 1000 (tnodes ts', w')) 9 = None) = (179456 < k)))"
proof (rule conjI)
  have "early 2000 1000 = 768" by (simp add: early_first)
  then show "\<exists>ts' w'. insert_timer 9 1000 (alloc_node 9 (Client 0) (Client_Param 0) 0 t2) = Inr ts' \<and>
      wheel_ok ts' w' \<and> (\<forall>k. (fst (turns k 1000 (tnodes ts', w')) 9 = None) = (232 < k))"
    using timer_fires_after [OF t2_ok(1) _ t2_ok(2), of 9 1000 "Client 0" "Client_Param 0"]
    by (auto simp: t2_ok(3))
  have "early 181224 180224 = 768" by (simp add: early_higher early_first level_def)
  then show "\<exists>ts' w'. insert_timer 9 180224 (alloc_node 9 (Client 0) (Client_Param 0) 0 t2) = Inr ts' \<and>
      wheel_ok ts' w' \<and> (\<forall>k. (fst (turns k 1000 (tnodes ts', w')) 9 = None) = (179456 < k))"
    using timer_fires_after [OF t2_ok(1) _ t2_ok(2), of 9 180224 "Client 0" "Client_Param 0"]
    by (auto simp: t2_ok(3))
qed

text \<open>C17: The choice of the array and the index in \<open>add_timer\<close>, with its masks, shifts and 64-bit casts, is
this function on natural numbers. The branch for timers in the past and the one that cuts the
distance are never taken: a timer in the past has a distance near \<open>2 ^ 32\<close> and is put in the
last array.\<close>

theorem timer_slot_levels:
  "timer_slot e j = (let d = (unat e + 2 ^ 32 - unat j) mod 2 ^ 32 div 10 in
     if d < 256 then Slot 1 (unat e mod 256)
     else if d < 256 * 64 then Slot 2 (unat e div 256 mod 64)
     else if d < 256 * 64 ^ 2 then Slot 3 (unat e div (256 * 64) mod 64)
     else if d < 256 * 64 ^ 3 then Slot 4 (unat e div (256 * 64 ^ 2) mod 64)
     else Slot 5 (unat e div (256 * 64 ^ 3) mod 64))"
proof -
  have b: "unat j < 2 ^ 32" using unsigned_less [of j, where 'a = nat] by simp
  have "unat (e - j) = (unat e + 2 ^ 32 - unat j) mod 2 ^ 32"
    using b unsigned_less [of e, where 'a = nat] by (auto simp: unat_sub_if' mod_if)
  then show ?thesis by (simp add: timer_slot_nat unat_div_distrib Let_def)
qed

text \<open>C18: The loop of \<open>run_timer\<close> compares two 32-bit times as numbers, and ends for every other time of
the clock. When the clock has wrapped and the wheel has not, no timer runs, until the clock is up
to the time of the wheel again. At the largest time of the clock the time of the wheel wraps
inside the loop, is never past it, and the loop does not end.\<close>

theorem run_timer_at_wrap:
  assumes "timers_ok s q w j" and "current_task s = Some c"
  shows "(get_jiffies clock < j \<longrightarrow> run_timer client clock s = Done () (s\<lparr>blocked := False\<rparr>)) \<and>
    (get_jiffies clock = 0xffffffff \<longrightarrow> run_timer client clock s = Fail Diverges)"
proof (intro conjI impI)
  note o = timers_okD [OF assms(1)]
  assume "get_jiffies clock < j"
  then have "run_loop client (get_jiffies clock) (s\<lparr>locks := l, blocked := b\<rparr>) = Some (Inr (s\<lparr>locks := l, blocked := b\<rparr>))"
    for l b by (intro run_loop_behind [of _ w "\<lparr>uExitFlag = 0, uJiffies = j\<rparr>"]) (use o(1,2) in simp_all)
  moreover have "sched_ok (s\<lparr>locks := (locks s)(TimerLock \<mapsto> held_lock c 1), blocked := False\<rparr>) q"
    using o(3,5) by (subst sched_ok_frame [of _ s]) (auto simp: insert_absorb)
  from release_quiet [OF this _ _ o(6), of c] assms(2)
  have "lock_release TimerLock (s\<lparr>locks := (locks s)(TimerLock \<mapsto> held_lock c 1), blocked := False\<rparr>) =
      Inr (s\<lparr>blocked := False\<rparr>)"
    using fun_upd_idem [of "locks s" TimerLock, OF o(3)] by simp
  ultimately show "run_timer client clock s = Done () (s\<lparr>blocked := False\<rparr>)"
    using acquire_free_lock(1) [OF o(3) assms(2)] o(7) by (simp add: run_timer_def returns_def Let_def)
next
  note o = timers_okD [OF assms(1)]
  assume n: "get_jiffies clock = 0xffffffff"
  show "run_timer client clock s = Fail Diverges"
    by (rule sl.run_timer_stalls [OF o(1,2) matches_calls while_firing_start [OF o(4)] _ o(3) assms(2)])
      (use n wheel_okD(2) [OF o(1)] in simp_all)
qed

theorem run_timer_at_wrap_witness:
  "run_timer (\<lambda>_ _. Inr) (at_ms 999) s6 = Done () (s6\<lparr>blocked := False\<rparr>) \<and>
   run_timer (\<lambda>_ _. Inr) (at_ms 4294967295) s6 = Fail Diverges"
  using run_timer_at_wrap [OF s6_timers s6_facts(1), of "at_ms 999" "\<lambda>_ _. Inr"]
    run_timer_at_wrap [OF s6_timers s6_facts(1), of "at_ms 4294967295" "\<lambda>_ _. Inr"]
  by (simp_all add: at_ms_def get_jiffies_def signed_divide_int_def)

text \<open>What an alarm does to a running task that does not sleep. While it has ticks left it goes on in
the same context with one tick less. When it has none, the ready list, which has got the tasks
that were woken, and the running task rotate by one.\<close>

theorem time_slice:
  assumes "timers_ok s q w j" and "current_task s = Some c" and "tasks s c = Some ts"
    and "stack_magic ts = 0x19991120" and "\<not> is_collaborative_schedule ts"
    and "unat j + k = Suc (unat (get_jiffies clock))" and "Suc (unat (get_jiffies clock)) < 2 ^ 32"
  shows "\<exists>wk frame' s' w'. signal_headler client clock new frame s = Done frame' s' \<and>
    (if ticks ts = 0
     then timers_ok s' (q(ReadyList := tl (q ReadyList @ wk @ [c]))) w' (get_jiffies clock + 1) \<and>
       current_task s' = Some (hd (q ReadyList @ wk @ [c]))
     else timers_ok s' (wake_list wk q) w' (get_jiffies clock + 1) \<and> frame' = frame \<and>
       current_task s' = Some c \<and> map_option ticks (tasks s' c) = Some (ticks ts - 1))"
proof -
  have "is_collaborative_schedule ts \<longrightarrow> (\<exists>n. new = Some n \<and> n \<notin> dom (tnodes (timers s))) \<and> q ReadyList \<noteq> []"
    using assms(5) by simp
  from interrupt_run [OF assms(1-4,6,7) this, where client = client and frame = frame] assms(5)
  obtain frame' s' w' wk nt where r: "signal_headler client clock new frame s = Done frame' s'"
      "nt = next_task False (ticks ts) c (q ReadyList @ wk)" "c \<notin> set wk"
      "timers_ok s' (q(ReadyList := snd nt)) w' (get_jiffies clock + 1)" "current_task s' = Some (fst nt)"
      "slices s' = next_slices False (ticks ts) c (refill (set wk) (slices s))" "ticks ts \<noteq> 0 \<longrightarrow> frame' = frame"
    by (simp only: simp_thms) (elim exE conjE, rule that; assumption)
  have "map_option ticks (tasks s' c) = map_option fst (slices s' c)"
    by (simp add: slices_def option.map_comp comp_def)
  then have "map_option ticks (tasks s' c) = Some (ticks ts - 1)" if "ticks ts \<noteq> 0"
    using that r(3) assms(3) by (simp add: r(6) next_slices_def spend_def refill_def) (simp add: slices_def)
  then show ?thesis
    using r(1,2,4,5,7) by (intro exI [of _ wk] exI [of _ frame'] exI [of _ s'] exI [of _ w'])
      (cases "ticks ts = 0"; simp add: next_task_def wake_list_def)
qed

theorem time_slice_witness:
  "\<exists>wk frame' s' w'. signal_headler (\<lambda>_ _. Inr) (at_ms 1009) None zero_context s6 = Done frame' s' \<and>
     timers_ok s' (wake_list wk (demo_q q6)) w' 1010 \<and> frame' = zero_context \<and>
     current_task s' = Some 1 \<and> map_option ticks (tasks s' 1) = Some 2"
  using time_slice [OF s6_timers s6_facts(1,2), of 10 "at_ms 1009" "\<lambda>_ _. Inr" None zero_context]
  by (simp add: at_ms_1009 demo_task_def zero_task_def)

text \<open>C19: Starting the library. After \<open>init\<close> the main program is the running task, alone on the list of all
tasks, the three locks are free, the only timer is the one that cleans the pool every 150 seconds,
the alarm is not masked, and the invariant that each alarm keeps holds.\<close>

theorem init_ready:
  assumes "boot_state s" and "ConsoleLock \<notin> dom (locks s)" and "TimerLock \<notin> dom (locks s)"
    and "tnodes (timers s) = Map.empty" and "\<forall>n. tlinks (timers s) (Node n) = None"
    and "new_task env = Some t" and "\<And>v. setitimer v \<noteq> - 1"
  shows "\<exists>s'. init env True clock (Some n) setitimer s = Done () s' \<and>
    timers_ok s' (main_queues t) (first_wheel (get_jiffies clock) n) (get_jiffies clock) \<and>
    current_task s' = Some t \<and> (\<forall>k\<in>{ConsoleLock, TidLock, TimerLock}. locks s' k = Some free_lock) \<and>
    tasks s' = [t \<mapsto> fresh_task env ''main'' 3 1 TASK_RUNNING False] \<and> \<not> blocked s'"
proof -
  obtain s' where "init env True clock (Some n) setitimer s = Done () s'"
      "timers_ok s' (main_queues t) (first_wheel (get_jiffies clock) n) (get_jiffies clock)"
      "current_task s' = Some t" "locks s' ConsoleLock = Some free_lock" "locks s' TidLock = Some free_lock"
      "tasks s' = [t \<mapsto> fresh_task env ''main'' 3 1 TASK_RUNNING False]" "\<not> blocked s'"
    using init_run [OF assms(1-6), of setitimer clock n] assms(7) by blast
  then show ?thesis using timers_okD(3) by (intro exI [of _ s']) auto
qed

theorem init_ready_witness:
  "\<exists>s'. init env1 True (at_ms 1009) (Some 8) (\<lambda>_. 0) s0 = Done () s' \<and>
    timers_ok s' (main_queues 9) (first_wheel 1009 8) 1009"
proof -
  have "ConsoleLock \<notin> dom (locks s0)" "TimerLock \<notin> dom (locks s0)" "tnodes (timers s0) = Map.empty"
      "\<forall>n. tlinks (timers s0) (Node n) = None"
    by (simp_all add: s0_def demo_def)
  from init_ready [OF s0_boot this, of env1 9 "\<lambda>_. 0" "at_ms 1009" 8] show ?thesis
    by (auto simp: at_ms_1009 env1_def)
qed

text \<open>C20: A timer that is created is the last of its slot. Deleting it gives back the wheel as it was: the
same nodes in every slot, in the same order, the node freed, the lock free.\<close>

theorem create_delete:
  assumes "timers_ok s q w j" and "current_task s = Some c" and "n \<notin> dom (tnodes (timers s))"
  shows "\<exists>u u' v. create_timer (Some f) p due per (Some n) s = Done (Some n) u \<and>
    wheel_ok (timers u) v \<and> n \<in> set (v (timer_slot (j + due) j)) \<and>
    delete_timer (Some n) u = Done 0 u' \<and> wheel_ok (timers u') w \<and>
    tnodes (timers u') = tnodes (timers s) \<and> locks u' = locks s \<and> tasks u' = tasks s"
proof -
  note o = timers_okD [OF assms(1)]
  let ?a = "timer_slot (j + due) j" and ?v = "put (\<lambda>_. j + due) j n w"
  let ?c = "\<lparr>uExpires = j + due, uPeriod = per, timerFn = f, pParam = p\<rparr>"
  obtain ts where ts: "create_timer (Some f) p due per (Some n) s = Done (Some n) (s\<lparr>timers := ts, blocked := False\<rparr>)"
      "wheel_ok ts ?v" "tnodes ts = (tnodes (timers s))(n \<mapsto> ?c)"
    using create_timer_run [OF o(1,2) assms(3) o(5,6,3) assms(2), of f p due per] by auto
  let ?u = "s\<lparr>timers := ts, blocked := False\<rparr>"
  have a: "?a \<in> slots" "n \<in> set (?v ?a)" by (simp_all add: put_def Let_def)
  have nw: "n \<notin> members w" using wheel_okD(2) [OF o(1)] assms(3) by blast
  have restored: "?v(?a := remove1 n (?v ?a)) = w"
    using nw slot_members [OF a(1), of w] by (auto simp: put_def Let_def remove1_append remove1_idem)
  have "sched_ok ?u q" using o(5) by (subst sched_ok_frame [of _ s]) simp_all
  from delete_timer_run [of ?u ?v ?a n q c, OF _ a this o(6)] ts(2) o(3) assms(2) obtain ts' where
      "delete_timer (Some n) ?u = Done 0 (?u\<lparr>timers := ts', blocked := False\<rparr>)" "wheel_ok ts' w"
      "tnodes ts' = (tnodes ts)(n := None)"
    unfolding restored by auto
  moreover have "(tnodes ts)(n := None) = tnodes (timers s)"
    using ts(3) assms(3) by (auto simp: fun_eq_iff domIff)
  ultimately show ?thesis
    using ts(1,2) a(2)
    by (intro exI [of _ ?u] exI [of _ "?u\<lparr>timers := ts', blocked := False\<rparr>"] exI [of _ ?v]) simp
qed

theorem create_delete_witness:
  "\<exists>u u' v. create_timer (Some (Client 0)) (Client_Param 0) 20 0 (Some 9) s6 = Done (Some 9) u \<and>
    wheel_ok (timers u) v \<and> 9 \<in> set (v (Slot 1 252)) \<and>
    delete_timer (Some 9) u = Done 0 u' \<and> wheel_ok (timers u') w2 \<and> tnodes (timers u') = tnodes t2"
proof -
  have "timer_slot 1020 1000 = Slot 1 252" by (simp add: timer_slot_nat Let_def)
  then show ?thesis
    using create_delete [OF s6_timers s6_facts(1), of 9 "Client 0" "Client_Param 0" 20 0]
    by (auto simp: s6_facts t2_ok(3))
qed



text \<open>\<open>run_timer\<close> frees a timer that runs once, and the handle that \<open>create_timer\<close> has returned for it
stays with the caller. \<open>delete_timer\<close> of the handle then reads the links of the freed node.\<close>

theorem delete_timer_too_late:
  assumes "timers_ok s q w j" and "current_task s = Some c" and "pending n d r j (tnodes (timers s), w)"
    and "uPeriod d = 0" and "r < k"
    and "unat j + k = Suc (unat (get_jiffies clock))" and "Suc (unat (get_jiffies clock)) < 2 ^ 32"
  shows "\<exists>s'. run_timer client clock s = Done () s' \<and> delete_timer (Some n) s' = Fail Bad_Access"
proof -
  have h: "handler_timers client clock s = run_timer client clock s"
    using timers_okD(7,8) [OF assms(1)] by (simp add: handler_timers_def)
  obtain s' w' wk where r: "run_timer client clock s = Done () s'"
      "timers_ok s' (wake_list wk q) w' (get_jiffies clock + 1)"
      "(tnodes (timers s'), w') = turns k j (tnodes (timers s), w)" "current_task s' = Some c"
    using handler_timers_run [OF assms(1,2,6,7), of client] unfolding h by blast
  have "tnodes (timers s') n = None"
    using pending_turns [OF assms(3,4), of k] assms(5) by (simp add: r(3) [symmetric] gone_def)
  from delete_timer_freed [OF timers_okD(1) [OF r(2)] this timers_okD(3) [OF r(2)] r(4)] r(1)
  show ?thesis by blast
qed

theorem delete_timer_too_late_witness:
  "\<exists>s'. run_timer (\<lambda>_ _. Inr) (at_ms 1009) s6 = Done () s' \<and> delete_timer (Some 7) s' = Fail Bad_Access"
  using delete_timer_too_late [OF s6_timers s6_facts(1), of 7 "wake_node 1005 3" 5 10 "at_ms 1009" "\<lambda>_ _. Inr"]
    s6_pending by (simp add: s6_facts at_ms_1009 wake_node_def)

text \<open>\<open>destroy_timer_manager\<close> frees exactly the nodes in the wheel, and the manager. The pointer to the
manager is not reset: the next alarm reads the exit flag in freed memory.\<close>

theorem destroyed_timers:
  assumes "timers_ok s q w j" and "current_task s = Some c" and "tasks s c = Some ts"
    and "stack_magic ts = 0x19991120"
  shows "\<exists>s'. destroy_timer_manager s = Inr s' \<and>
    tnodes (timers s') = tnodes (timers s) |` (- members w) \<and>
    signal_headler client clock new frame s' = Fail Bad_Access"
proof -
  obtain s' where s': "destroy_timer_manager s = Inr s'" "tnodes (timers s') = tnodes (timers s) |` (- members w)"
      "timer_manager (timers s')" "manager_at (timers s') = Inl Bad_Access" "tasks s' = tasks s"
      "current_task s' = current_task s"
    using destroy_run [OF timers_okD(1,2) [OF assms(1)]] by blast
  from handler_after_destroy [OF s'(3,4)] assms(2-4) s'(1,2,5,6) show ?thesis by metis
qed

theorem destroyed_timers_witness:
  "\<exists>s'. destroy_timer_manager s6 = Inr s' \<and> tnodes (timers s') = Map.empty \<and>
     signal_headler (\<lambda>_ _. Inr) (at_ms 1009) None zero_context s' = Fail Bad_Access"
proof -
  have "tnodes t2 |` (- {7, 8}) = Map.empty" by (auto simp: t2_ok(3) restrict_map_def)
  then show ?thesis
    using destroyed_timers [OF s6_timers s6_facts(1,2), of "\<lambda>_ _. Inr" "at_ms 1009" None zero_context]
    by (simp add: s6_facts w_members demo_task_def zero_task_def)
qed

text \<open>C22: \<open>sleep\<close> marks the task before it stores the time; the call is its first store followed by the rest.
When the alarm comes after the first store, the task is taken off the processor with a timer for
the time left from the sleep before (0 in a task that has not slept): the time of this call does
not matter. Once the task runs with its mark taken away, which is what that timer does, the rest
of the call stores the time, too late, and returns 0 without giving the processor away again.\<close>

theorem sleep_race:
  assumes "timers_ok s q w j" and "current_task s = Some c" and "tasks s c = Some ts" and "is_hook ts"
    and "stack_magic ts = 0x19991120" and "ms = sleep_millisecond ts"
    and "unat j + k = Suc (unat (get_jiffies clock))"
    and "Suc (unat (get_jiffies clock)) + unat ms < 2 ^ 32"
    and "m \<notin> dom (tnodes (timers s))" and "q ReadyList \<noteq> []"
  shows "sleep lc n s = bind_run (lift_run (stores (take 1 (sleep_stores n)) s))
      (\<lambda>_. stores_and_loop (drop 1 (sleep_stores n))) \<and>
    (\<exists>st frame' s' q' w'. stores (take 1 (sleep_stores n)) s = Inr st \<and>
      signal_headler client clock (Some m) frame st = Done frame' s' \<and>
      timers_ok s' q' w' (get_jiffies clock + 1) \<and> sleeping s' q' c \<and>
      current_task s' = Some (hd (q ReadyList)) \<and>
      pending m (wake_node (get_jiffies clock + 1 + ms) c)
        (fires_after (unat (get_jiffies clock + 1 + ms)) (unat ms)) (get_jiffies clock + 1)
        (tnodes (timers s'), w')) \<and>
    (\<forall>u tu. current_task u = Some c \<and> tasks u c = Some tu \<and> \<not> is_collaborative_schedule tu \<longrightarrow>
      stores_and_loop (drop 1 (sleep_stores n)) u =
        Done 0 (u\<lparr>tasks := (tasks u)(c \<mapsto> tu\<lparr>sleep_millisecond := n * 1000\<rparr>)\<rparr>))"
proof -
  let ?ts = "ts\<lparr>is_collaborative_schedule := True\<rparr>"
  let ?s = "s\<lparr>tasks := (tasks s)(c \<mapsto> ?ts)\<rparr>"
  have mark: "stores (take 1 (sleep_stores n)) s = Inr ?s"
    using assms(2,3) by (simp add: sleep_stores_def sleep_mark_def step_simps)
  have call: "sleep lc n s = bind_run (lift_run (stores (take 1 (sleep_stores n)) s))
      (\<lambda>_. stores_and_loop (drop 1 (sleep_stores n)))"
    unfolding mark using hooked [OF assms(2,3)] assms(2-4)
    by (simp add: sleep_def stores_and_loop_Cons sleep_stores_def sleep_mark_def step_simps)
  have "timers_ok ?s q w j" by (rule timers_ok_upd [OF assms(1,3)]) simp
  from interrupt_sleeps [OF this, of c ?ts k clock m client frame] assms(2,5-10)
  have "\<exists>frame' s' q' w'. signal_headler client clock (Some m) frame ?s = Done frame' s' \<and>
    timers_ok s' q' w' (get_jiffies clock + 1) \<and> sleeping s' q' c \<and>
    current_task s' = Some (hd (q ReadyList)) \<and>
    pending m (wake_node (get_jiffies clock + 1 + ms) c)
      (fires_after (unat (get_jiffies clock + 1 + ms)) (unat ms)) (get_jiffies clock + 1)
      (tnodes (timers s'), w')"
    by simp blast
  then show ?thesis using call mark sleep_rest_awake by blast
qed

theorem sleep_race_witness:
  "\<exists>st frame' s' q' w'. stores (take 1 (sleep_stores 5)) s7 = Inr st \<and>
    signal_headler (\<lambda>_ _. Inr) (at_ms 1009) (Some 9) zero_context st = Done frame' s' \<and>
    timers_ok s' q' w' 1010 \<and> sleeping s' q' 1 \<and>
    pending 9 (wake_node 1010 1) 0 1010 (tnodes (timers s'), w')"
proof -
  have e: "fires_after e 0 = 0" for e by (simp add: fires_after_def)
  show ?thesis
    using sleep_race [OF s7_timers s7_facts(1,2), of 0 10 "at_ms 1009" 9 lc1 5 "\<lambda>_ _. Inr" zero_context]
    by (simp add: at_ms_1009 s7_facts t2_ok(3) demo_task_def zero_task_def e) blast
qed

section \<open>Replaced system calls\<close>

text \<open>C23: \<open>socket\<close> in a hooked task: the kernel's socket is made non-blocking, whatever its flags were, and
the entry of the table has its domain, the default timeouts and the flags without
\<open>O_NONBLOCK\<close>. A later \<open>fcntl\<close> of the task that sets flags keeps the descriptor
non-blocking as well, and stores what the task asked for.\<close>

theorem hooked_socket:
  assumes "current_is_hook s = Inr True"
    and "libc_socket c af ty proto k = (fd, k1)" and "0 \<le> sint fd" and "sint fd < 1000800"
    and "libc_fcntl c fd F_GETFL (Int_Arg 0) k1 = (fl, k2)"
    and "libc_fcntl c fd F_SETFL (Int_Arg (fl OR O_NONBLOCK)) k2 = (0, k3)"
    and "libc_fcntl c fd F_SETFL (Int_Arg (param OR O_NONBLOCK)) k3 = (0, k4)"
    and "tab (nat (sint fd)) = None"
  shows "\<exists>tab'. socket c True af ty proto s (tab, k) = Inr (fd, tab', k3) \<and>
    tab' = tab(nat (sint fd) \<mapsto> \<lparr>domain = af, fd_flag = fl, read_timeout = 1000, wirte_timeout = 1000\<rparr>) \<and>
    fcntl c True fd F_SETFL (Int_Arg param) s (tab', k3) = Inr (0,
      tab(nat (sint fd) \<mapsto> \<lparr>domain = af, fd_flag = param, read_timeout = 1000, wirte_timeout = 1000\<rparr>), k4)"
  using socket_run [of s c af ty proto k fd k1 fl k2 k3 tab] assms
    setfl_run [of fd "tab(nat (sint fd) \<mapsto> \<lparr>domain = af, fd_flag = fl, read_timeout = 1000,
      wirte_timeout = 1000\<rparr>)" _ s c param k3 0 k4 True]
  by (simp add: new_attributes_def)

theorem hooked_socket_witness:
  "\<exists>tab'. socket lc1 True 2 1 0 s7 (Map.empty, 0) = Inr (5, tab', 2050) \<and>
    fcntl lc1 True 5 F_SETFL (Int_Arg 1) s7 (tab', 2050) = Inr (0,
      [5 \<mapsto> \<lparr>domain = 2, fd_flag = 1, read_timeout = 1000, wirte_timeout = 1000\<rparr>], 2049)"
proof -
  have h: "current_is_hook s7 = Inr True" using hooked [OF s7_facts(1,2)] by simp
  show ?thesis
    using hooked_socket [OF h, of lc1 2 1 0 0 5 2 2 2 2050 1 2049 Map.empty]
    by (simp add: lc1_def)
qed

text \<open>The table of descriptors has 1000800 entries. The check in \<open>create_fd_attributes\<close> asks for a number
that is negative and too large, and refuses none: \<open>fcntl\<close> of a larger descriptor, whatever the
command, reads outside the table. A negative one gives back the number of a source line, which
is not the \<open>-1\<close> a caller of \<open>fcntl\<close> tests for.\<close>

theorem fd_table_bounds:
  "(sint fd < 0 \<longrightarrow> fcntl c ok fd cmd arg s (tab, k) = Inr (119, tab, k)) \<and>
   (1000800 \<le> sint fd \<longrightarrow> fcntl c ok fd cmd arg s (tab, k) = Inl Out_Of_Bounds)"
  using create_out_of_bounds [of fd ok tab] by (simp_all add: fcntl_def hook_line_def)

theorem fd_table_bounds_witness:
  "fcntl lc1 True (- 1) F_GETFL No_Arg s7 (Map.empty, 0) = Inr (119, Map.empty, 0) \<and>
   fcntl lc1 True 1000800 F_GETFL No_Arg s7 (Map.empty, 0) = Inl Out_Of_Bounds"
  using fd_table_bounds [of "- 1" lc1 True F_GETFL No_Arg s7 Map.empty 0]
    fd_table_bounds [of 1000800 lc1 True F_GETFL No_Arg s7 Map.empty 0] by simp_all

section \<open>Timers with a period\<close>

text \<open>C24: A timer with a period \<open>p\<close> below 163840 milliseconds, over \<open>k\<close> turns after which the time has not
wrapped. It first runs when a one-shot timer would, in the turn after \<open>fires_after\<close> others, and is
not freed; what \<open>uExpires\<close> holds after the \<open>k\<close> turns is one period after the last run before. From a
period of 2560 milliseconds on the runs are one period apart; below, \<open>p\<close> modulo 256 milliseconds,
and 256 when \<open>p\<close> is a multiple of 256: a timer for every second runs every 232 milliseconds, one for
every half second every 244. When the clock wraps \<open>run_timer\<close> stops turning the wheel, see \<open>run_timer_at_wrap\<close>.\<close>

theorem timer_repeats:
  assumes "wheel_ok ts w" and "n \<notin> dom (tnodes ts)" and "manager_mem ts = Some m"
    and "p \<noteq> 0" and "unat p < 163840"
    and "unat (uJiffies m) + unat due + k + unat p < 2 ^ 32"
  defines "r \<equiv> fires_after (unat (uJiffies m + due)) (unat due)"
    and "i \<equiv> (if unat p < 2560 then Suc ((unat p - 1) mod 256) else unat p)"
  shows "\<exists>ts' w'. insert_timer n due (alloc_node n f q p ts) = Inr ts' \<and> wheel_ok ts' w' \<and>
    map_option uExpires (fst (turns k (uJiffies m) (tnodes ts', w')) n) =
      Some (if k \<le> r then uJiffies m + due
        else uJiffies m + of_nat (r + i * ((k - Suc r) div i)) + p)"
proof -
  let ?j = "uJiffies m" and ?e = "uJiffies m + due"
  let ?c = "\<lparr>uExpires = ?e, uPeriod = p, timerFn = f, pParam = q\<rparr>"
  obtain ts' where t: "insert_timer n due (alloc_node n f q p ts) = Inr ts'"
      "wheel_ok ts' (put (\<lambda>_. ?e) ?j n w)" "tnodes ts' = (tnodes ts)(n \<mapsto> ?c)"
    using insert_timer_run [OF assms(1-3), of due f q p] by blast
  let ?x = "(tnodes ts', put (\<lambda>_. ?e) ?j n w)"
  have "waits n ?c (timer_slot (uExpires ?c) ?j) ?x"
    using wheel_ok_apart [OF t(2)] by (simp add: waits_def t(3) put_def Let_def)
  moreover have u: "unat ?j + unat due = unat (uExpires ?c)" using assms(6) by (simp add: unat_word_ariths(1))
  ultimately have "pending n ?c r ?j ?x" using placed_pending [of n ?c ?j ?x "unat due"] by (simp add: r_def)
  from periodic_turns [OF this _ assms(4,5), of k] assms(6) obtain r' where
    "pending n (if k \<le> r then ?c else ?c\<lparr>uExpires := ?j + of_nat (last_run r (interval (unat p)) k) + p\<rparr>)
      r' (?j + of_nat k) (turns k ?j ?x)" by auto
  then have f: "fst (turns k ?j ?x) n =
      Some (if k \<le> r then ?c else ?c\<lparr>uExpires := ?j + of_nat (last_run r (interval (unat p)) k) + p\<rparr>)"
    by (rule pending_node)
  have i: "interval (unat p) = i" by (simp add: interval_def i_def)
  have "map_option uExpires (fst (turns k ?j ?x) n) =
      Some (if k \<le> r then ?e else ?j + of_nat (r + i * ((k - Suc r) div i)) + p)"
    unfolding f i last_run_def by (cases "k \<le> r") simp_all
  then show ?thesis using t(1,2) by blast
qed

theorem timer_repeats_witness:
  "(\<exists>ts' w'. insert_timer 9 10000 (alloc_node 9 (Client 0) Manager_Param 10000 t2) = Inr ts' \<and> wheel_ok ts' w' \<and>
     map_option uExpires (fst (turns 30001 1000 (tnodes ts', w')) 9) = Some 41000) \<and>
   (\<exists>ts' w'. insert_timer 9 1000 (alloc_node 9 (Client 0) Manager_Param 1000 t2) = Inr ts' \<and> wheel_ok ts' w' \<and>
     map_option uExpires (fst (turns 465 1000 (tnodes ts', w')) 9) = Some 2464)"
proof (rule conjI)
  have r: "fires_after 11000 10000 = 10000" by (simp add: fires_after_def early_second)
  show "\<exists>ts' w'. insert_timer 9 10000 (alloc_node 9 (Client 0) Manager_Param 10000 t2) = Inr ts' \<and>
     wheel_ok ts' w' \<and> map_option uExpires (fst (turns 30001 1000 (tnodes ts', w')) 9) = Some 41000"
    using timer_repeats [OF t2_ok(1) _ t2_ok(2), of 9 10000 10000 30001 "Client 0" Manager_Param]
    by (simp add: t2_ok(3) r)
  have r: "fires_after 2000 1000 = 232" by (simp add: fires_after_def early_first)
  show "\<exists>ts' w'. insert_timer 9 1000 (alloc_node 9 (Client 0) Manager_Param 1000 t2) = Inr ts' \<and>
     wheel_ok ts' w' \<and> map_option uExpires (fst (turns 465 1000 (tnodes ts', w')) 9) = Some 2464"
    using timer_repeats [OF t2_ok(1) _ t2_ok(2), of 9 1000 1000 465 "Client 0" Manager_Param]
    by (simp add: t2_ok(3) r)
qed
section \<open>Alarms inside other operations\<close>


text \<open>A wheel at 1005, in whose slot is the timer of task \<open>3\<close>.\<close>

definition t3 :: timer_state where
  "t3 = t2\<lparr>manager_mem := Some \<lparr>uExitFlag = 0, uJiffies = 1005\<rparr>\<rparr>"






text \<open>C27: The handler takes the lock of the timers like any task. When another task holds it, the task that
was interrupted, which has nothing to do with the timers, is blocked in the handler, at the end of
the tasks that wait for the lock, and the next ready task runs. When it runs again and the lock is
free, the handler does what it would have done, for the time it had read.\<close>

theorem alarm_waits_for_lock:
  assumes "sched_ok s q" and "current_task s = Some c" and "tasks s c = Some ts" and "stack_magic ts = 0x19991120"
    and "manager_at (timers s) = Inr m" and "uExitFlag m = 0"
    and "locks s TimerLock = Some (held_lock h k)" and "h \<noteq> c" and "q ReadyList = n # ns"
  shows "\<exists>u f. signal_headler client clock new frame s = Switch u f \<and>
    sched_ok u (q(ReadyList := ns, Waiters TimerLock := q (Waiters TimerLock) @ [c])) \<and>
    current_task u = Some n \<and> locks u = locks s \<and> timers u = timers s \<and> has_status u c TASK_BLOCKED \<and>
    (\<forall>v. locks v TimerLock = Some free_lock \<and> current_task v = Some c \<and> timer_manager (timers v) \<longrightarrow>
      f v = bind_run (bind_run (run_timer client clock v) (\<lambda>_. handler_schedule new frame))
        (\<lambda>frame s. Done frame (s\<lparr>blocked := False\<rparr>)))"
  by (rule alarm_waits [OF assms])

theorem alarm_waits_for_lock_witness:
  "\<exists>u f. signal_headler (\<lambda>_ _. Inr) (at_ms 1009) None zero_context
      (s6\<lparr>locks := (locks s6)(TimerLock \<mapsto> held_lock 3 1)\<rparr>) = Switch u f \<and>
    current_task u = Some 2 \<and> has_status u 1 TASK_BLOCKED"
proof -
  let ?s = "s6\<lparr>locks := (locks s6)(TimerLock \<mapsto> held_lock 3 1)\<rparr>"
  have "sched_ok ?s (demo_q q6)"
    using s6_ok s6_facts(4) by (subst sched_ok_frame [of _ s6]) (auto simp: insert_absorb)
  moreover have "manager_at (timers ?s) = Inr \<lparr>uExitFlag = 0, uJiffies = 1000\<rparr>"
    using timers_okD(8) [OF s6_timers] by simp
  ultimately show ?thesis
    using alarm_waits_for_lock [of ?s "demo_q q6" 1 "demo_task 1 TASK_RUNNING" "\<lparr>uExitFlag = 0, uJiffies = 1000\<rparr>"
        3 1 2 "[]" "\<lambda>_ _. Inr" "at_ms 1009" None zero_context] s6_facts
    by (auto simp: demo_task_def zero_task_def)
qed

section \<open>The programs\<close>

text \<open>C28: A task of \<open>test_sleep.c\<close> that is given the number \<open>v\<close> as text. It hooks its calls, writes its line
into the array of 30 characters, and is taken off at its call of \<open>sleep\<close>; when it runs again with the
mark gone and the console free, the line is put out once and the next turn of the loop begins. Two
numbers of more than ten characters do not fit: from \<open>- 10 ^ 9\<close> down the line is too long.\<close>

theorem sleep_task_turn:
  assumes "current_task s = Some c" and "tasks s c = Some ts"
  shows "if sint v \<le> - (10 ^ 9) then sleep_test1 W (decimal v) (Suc n) s = Fail Buffer_Overflow
    else \<exists>k. sleep_test1 W (decimal v) (Suc n) s =
      Switch (s\<lparr>tasks := (tasks s)(c \<mapsto> marked_asleep (v * 1000) (ts\<lparr>is_hook := True\<rparr>))\<rparr>) k \<and>
    (\<forall>u q. sched_ok u q \<and> current_task u = Some c \<and> marks u c = Some False \<and>
       locks u ConsoleLock = Some free_lock \<longrightarrow>
       (\<exists>u'. k u = for_loop n (\<lambda>i. sleep_and_put W v (sleep_message v) (Suc i)) u' \<and>
          sched_ok u' (wake_queues ConsoleLock q) \<and> locks u' = locks u \<and> current_task u' = Some c \<and>
          console_out u' = console_out u @ take (written W 0) (sleep_message v)))"
  using sleep_test_turn [OF assms, of v W n] sleep_test_overflows [OF assms, of v W "Suc n"]
  by (cases "sint v \<le> - (10 ^ 9)") simp_all

theorem sleep_task_turn_witness:
  "(\<exists>k. sleep_test1 w0 (decimal 1) 1 s7 =
      Switch (s7\<lparr>tasks := (tasks s7)(1 \<mapsto> marked_asleep 1000 ((demo_task 1 TASK_RUNNING)\<lparr>is_hook := True\<rparr>))\<rparr>) k) \<and>
   sleep_test1 w0 (decimal (- 1000000000)) 1 s7 = Fail Buffer_Overflow"
proof (rule conjI)
  have "sint (1 :: 32 word) = 1" "sint (- 1000000000 :: 32 word) = - 1000000000" by simp_all
  note v = this
  show "\<exists>k. sleep_test1 w0 (decimal 1) 1 s7 =
      Switch (s7\<lparr>tasks := (tasks s7)(1 \<mapsto> marked_asleep 1000 ((demo_task 1 TASK_RUNNING)\<lparr>is_hook := True\<rparr>))\<rparr>) k"
    using sleep_task_turn [OF s7_facts(1,2), of 1 w0 0] v(1) by auto
  show "sleep_test1 w0 (decimal (- 1000000000)) 1 s7 = Fail Buffer_Overflow"
    using sleep_task_turn [OF s7_facts(1,2), of "- 1000000000" w0 0] v(2) by simp
qed

text \<open>C29: The program of \<open>test_timer.c\<close>. Its timer is in the wheel beside the one that cleans the pool, to run
\<open>timer_test\<close> after 10000 turns, in its millisecond. Its hundred tasks are on the ready list, but what
they will call is the address 10: \<open>task_start\<close> is given the constant \<open>thread_number\<close> for the function.\<close>

theorem timer_program_jumps:
  assumes "fresh_start s W t n a 100" and "m \<noteq> n" and "unat (get_jiffies (boot_clock W)) + 10000 < 2 ^ 32"
  defines "j \<equiv> get_jiffies (boot_clock W)"
  shows "\<exists>u w. timer_main W (Some m) arg k s = for_loop k (sleep_and_put W 1 ''maiN '') u \<and>
    sched_ok u (started (map a [0..<100]) (main_queues t)) \<and> wheel_ok (timers u) w \<and>
    pending m \<lparr>uExpires = j + 10000, uPeriod = 10000, timerFn = Client 0, pParam = Manager_Param\<rparr>
      10000 j (tnodes (timers u), w) \<and>
    (\<forall>i<100. map_option (\<lambda>ts. rdi (tcontext ts)) (tasks u (a i)) = Some 10)"
proof -
  let ?c = "\<lparr>uExpires = j + 10000, uPeriod = 10000, timerFn = Client 0, pParam = Manager_Param\<rparr>"
  let ?w = "put (\<lambda>_. j + 10000) j m (first_wheel j n)"
  obtain u where u: "timer_main W (Some m) arg k s = for_loop k (sleep_and_put W 1 ''maiN '') u"
      "sched_ok u (started (map a [0..<100]) (main_queues t))" "wheel_ok (timers u) ?w"
      "tnodes (timers u) m = Some ?c"
      "\<forall>i<100. \<exists>ts. tasks u (a i) = Some ts \<and> status ts = TASK_READY \<and>
         rdi (tcontext ts) = 10 \<and> rsi (tcontext ts) = arg"
    using timer_main_run [OF assms(1,2), of arg k] unfolding j_def by blast
  have "waits m ?c (timer_slot (uExpires ?c) j) (tnodes (timers u), ?w)"
    using wheel_ok_apart [OF u(3)] by (simp add: waits_def u(4) put_def Let_def)
  moreover have "unat j + 10000 = unat (uExpires ?c)" using assms(3) by (simp add: unat_word_ariths(1) j_def)
  ultimately have "pending m ?c (fires_after (unat (uExpires ?c)) 10000) j (tnodes (timers u), ?w)"
    by (rule placed_pending)
  then have "pending m ?c 10000 j (tnodes (timers u), ?w)" by (simp add: fires_after_def early_second)
  moreover have "\<forall>i<100. map_option (\<lambda>ts. rdi (tcontext ts)) (tasks u (a i)) = Some 10" using u(5) by fastforce
  ultimately show ?thesis using u(1-3) by blast
qed

theorem timer_program_jumps_witness:
  "\<exists>u. timer_main w0 (Some 7) 0x2010 0 s0 = Done () u \<and>
    map_option (\<lambda>ts. rdi (tcontext ts)) (tasks u 109) = Some 10"
proof -
  have w: "get_jiffies (boot_clock w0) = 1009" using at_ms_1009 by (simp add: w0_def)
  have "(99 :: nat) < 100" "(99 :: nat) + 10 = 109" by simp_all
  with timer_program_jumps [where m = 7 and arg = "0x2010" and k = 0, OF w0_start, unfolded w] show ?thesis
    unfolding for_loop.simps(1) by fastforce
qed

section \<open>The scheduler\<close>

text \<open>C30: Round robin: the running task followed by the ready queue is a ring; \<open>n\<close> calls of \<open>schedule\<close>, as the
timer interrupt makes them at the end of each slice, rotate it \<open>n\<close> times, whatever the interrupted
contexts are. So every ready task runs within as many slices as there are ready tasks, and none
is lost, when nothing else changes the ready list.\<close>

theorem round_robin:
  assumes "sched_ok s q" and "current_task s = Some c"
  shows "\<exists>t. schedules n frame s = Inr t \<and>
    current_task t = Some (hd (rotate n (c # q ReadyList))) \<and>
    sched_ok t (q(ReadyList := tl (rotate n (c # q ReadyList)))) \<and> locks t = locks s"
  by (rule schedules_run [OF assms])

theorem round_robin_witness:
  "\<exists>t. schedules 5 (\<lambda>_. zero_context) s2 = Inr t \<and> current_task t = Some 3"
proof -
  have "current_task s2 = Some 1" by (simp add: s2_def demo_def)
  from round_robin [OF s2_ok this, of 5 "\<lambda>_. zero_context"] show ?thesis
    by (auto simp: demo_q_def q2_def eval_nat_numeral)
qed

text \<open>C31: A timer interrupt saves the interrupted context in the task, in \<open>schedule\<close> and in \<open>collaborative_schedule\<close>.
When the task is the first of the ready list and one of the two functions makes it run again, the
interrupt returns exactly this context, provided nothing wrote to the saved context meanwhile. A
task that is resumed by the assembly routines, \<open>context_swap\<close> or \<open>context_set\<close>, is not covered: they
load the registers but not the flags.\<close>

theorem preemption_keeps_context:
  assumes "sched_ok s q" and "current_task s = Some c" and "q ReadyList \<noteq> []"
    and "schedule frame s = Inr (f, t) \<or> collaborative_schedule frame s = Inr (f, t)"
    and "sched_ok u q'" and "current_task u = Some b" and "q' ReadyList = c # cs"
    and "map_option tcontext (tasks u c) = map_option tcontext (tasks t c)"
  shows "(\<exists>v. schedule frame' u = Inr (frame, v)) \<and> (\<exists>v. collaborative_schedule frame' u = Inr (frame, v))"
proof -
  obtain n ns where q: "q ReadyList = n # ns" using assms(3) by (cases "q ReadyList") auto
  have n: "n \<noteq> c" using assms(1,2) q by (auto simp: sched_ok_def off_lists_ready)
  have "c \<in> dom (tasks s)" using assms(1,2) by (auto simp: sched_ok_def has_status_def)
  then obtain tc where tc: "tasks s c = Some tc" by blast
  have "map_option tcontext (tasks t c) = Some frame"
    using assms(4) schedule_run [OF assms(1,2) refl, of frame]
      collaborative_schedule_run [OF assms(1,2) tc q, of frame] n q by auto
  then have saved: "map_option tcontext (tasks u c) = Some frame" using assms(8) by simp
  have b: "c \<noteq> b" using assms(5-7) by (auto simp: sched_ok_def off_lists_ready)
  have "b \<in> dom (tasks u)" using assms(5,6) by (auto simp: sched_ok_def has_status_def)
  then obtain tb where "tasks u b = Some tb" by blast
  from collaborative_schedule_run [OF assms(5,6) this assms(7), of frame'] saved
  have "\<exists>v. collaborative_schedule frame' u = Inr (frame, v)" by auto
  moreover have "\<exists>v. schedule frame' u = Inr (frame, v)"
    using schedule_run [OF assms(5,6), of c frame'] assms(7) saved b by auto
  ultimately show ?thesis by blast
qed

theorem preemption_keeps_context_witness:
  "\<exists>f1 t1 f2 t2 v v'. schedule (zero_context\<lparr>rip := 77\<rparr>) s2 = Inr (f1, t1) \<and>
     schedule f1 t1 = Inr (f2, t2) \<and> schedule f2 t2 = Inr (zero_context\<lparr>rip := 77\<rparr>, v) \<and>
     collaborative_schedule f2 t2 = Inr (zero_context\<lparr>rip := 77\<rparr>, v')"
proof -
  let ?f = "zero_context\<lparr>rip := 77\<rparr>"
  have c: "current_task s2 = Some 1" by (simp add: s2_def demo_def)
  have q: "demo_q q2 ReadyList = [2, 3]" by (simp add: demo_q_def q2_def)
  obtain f1 t1 where 1: "schedule ?f s2 = Inr (f1, t1)"
      "sched_ok t1 ((demo_q q2)(ReadyList := [3, 1]))" "current_task t1 = Some 2"
    using schedule_ok [OF s2_ok c, of ?f] q by auto
  obtain f2 t2 where 2: "schedule f1 t1 = Inr (f2, t2)"
      "sched_ok t2 ((demo_q q2)(ReadyList := [1, 2]))" "current_task t2 = Some 3"
      "map_option tcontext (tasks t2 1) = map_option tcontext (tasks t1 1)"
    using schedule_ok [OF 1(2,3), of f1] schedule_run [OF 1(2,3) refl, of f1] by auto
  from preemption_keeps_context [OF s2_ok c _ _ 2(2,3) _ 2(4), of "?f" f1 "[2]" f2] q 1 2
  show ?thesis by auto
qed

text \<open>C32: A task that blocks is switched away inside \<open>context_swap\<close>; when its saved context is loaded
again, by \<open>context_swap\<close> or by \<open>context_set\<close>, it continues at the return address of the call with
the stack pointer above it and with the sixteen other registers it had.\<close>

theorem block_keeps_context:
  assumes "sched_ok s q" and "current_task s = Some c" and "q ReadyList \<noteq> []"
    and "task_block_switch TASK_BLOCKED s = Inr t"
    and "map_option tcontext (tasks u c) = map_option tcontext (tasks t c)"
    and "context_set c u = Inr v \<or> (context_swap b c u = Inr v \<and> b \<noteq> c)"
  shows "resumed (cpu s) (mem s) (cpu v)"
proof -
  obtain n ns where q: "q ReadyList = n # ns" using assms(3) by (cases "q ReadyList") auto
  have nc: "n \<noteq> c" using assms(1,2) q by (auto simp: sched_ok_def off_lists_ready)
  obtain tc where "tasks s c = Some tc"
      "map_option tcontext (tasks t c) = Some (context_save (cpu s) (mem s) (tcontext tc))"
    using task_block_ok [OF assms(1) q assms(2), of TASK_BLOCKED] assms(4) nc by auto
  then obtain tu where "tasks u c = Some tu"
      "tcontext tu = context_save (cpu s) (mem s) (tcontext tc)"
    using assms(5) by auto
  then show ?thesis
    using assms(6) save_load_resumed
    by (auto simp: context_set_def context_swap_def step_simps split_beta andthen_eq_Inr
        split: option.splits)
qed

theorem block_keeps_context_witness:
  "\<exists>t v. task_block_switch TASK_BLOCKED s2 = Inr t \<and> context_set 1 t = Inr v \<and>
     rsp (cpu v) = rsp (cpu s2) + 8 \<and> rip (cpu v) = mem s2 (rsp (cpu s2))"
proof -
  have c: "current_task s2 = Some 1" by (simp add: s2_def demo_def)
  have q: "demo_q q2 ReadyList = [2, 3]" by (simp add: demo_q_def q2_def)
  obtain t where t: "task_block_switch TASK_BLOCKED s2 = Inr t" "tasks t 1 \<noteq> None"
    using task_block_ok [OF s2_ok q c, of TASK_BLOCKED] by auto
  then obtain v where v: "context_set 1 t = Inr v"
    by (auto simp: context_set_def task_at_def split_beta)
  from block_keeps_context [OF s2_ok c _ t(1) refl, of v] v q
  have "resumed (cpu s2) (mem s2) (cpu v)" by auto
  then show ?thesis using t(1) v by (auto simp: resumed_def)
qed

text \<open>A task that blocks itself is marked with the status it asked for and leaves the scheduler's
lists, and the first ready task runs; with an empty ready list the call never returns.\<close>

theorem task_block_switches:
  assumes "sched_ok s q" and "current_task s = Some c"
    and "st = TASK_BLOCKED \<or> st = TASK_WAITING \<or> st = TASK_HANGING"
  shows "case q ReadyList of
      [] \<Rightarrow> task_block st s = Fail Idle_Spin
    | n # ns \<Rightarrow> \<exists>t. task_block st s = Switch t (\<lambda>u. Done () u) \<and>
        sched_ok t (q(ReadyList := ns)) \<and> current_task t = Some n \<and>
        has_status t c st \<and> has_status t n TASK_RUNNING"
proof (cases "q ReadyList")
  case Nil
  then show ?thesis using task_block_idle [OF assms(1) Nil assms(3)] by (simp add: task_block_def)
next
  case (Cons n ns)
  have "n \<noteq> c" using assms(1,2) Cons by (auto simp: sched_ok_def off_lists_ready)
  then show ?thesis
    using task_block_ok [OF assms(1) Cons assms(2,3)] Cons
    by (auto simp: task_block_def has_status_def)
qed

theorem task_block_switches_witness:
  "\<exists>t. task_block TASK_WAITING s2 = Switch t (\<lambda>u. Done () u) \<and> has_status t 1 TASK_WAITING"
proof -
  have "current_task s2 = Some 1" by (simp add: s2_def demo_def)
  from task_block_switches [OF s2_ok this, of TASK_WAITING] show ?thesis
    by (auto simp: demo_q_def q2_def)
qed

text \<open>Waking a task that is blocked, waiting or hanging puts it, marked ready, at the front of the
ready list and unmasks the alarm; for a task of any other status the assertion spins.\<close>

theorem task_unblock_readies:
  assumes "sched_ok s q" and "tasks s t = Some ts" and "current_task s \<noteq> Some t"
    and "off_lists (valid_lists s) q ReadyList t"
  shows "if status ts = TASK_BLOCKED \<or> status ts = TASK_WAITING \<or> status ts = TASK_HANGING
    then \<exists>u. task_unblock t s = Inr u \<and> sched_ok u (q(ReadyList := t # q ReadyList)) \<and>
      has_status u t TASK_READY \<and> \<not> blocked u
    else task_unblock t s = Inl Assert_Spin"
proof (cases "status ts = TASK_BLOCKED \<or> status ts = TASK_WAITING \<or> status ts = TASK_HANGING")
  case True
  then show ?thesis using task_unblock_ok [OF assms(1-3) True assms(4)] by auto
next
  case False
  then have "status ts \<in> {TASK_RUNNING, TASK_READY, TASK_DIED}" by (cases "status ts") auto
  then show ?thesis using False task_unblock_refuses [OF assms(2)] by simp
qed

theorem task_unblock_readies_witness:
  "\<exists>s t u. has_status s t TASK_WAITING \<and> task_unblock t s = Inr u \<and> has_status u t TASK_READY"
proof -
  have c: "current_task s2 = Some 1" by (simp add: s2_def demo_def)
  have q: "demo_q q2 ReadyList = [2, 3]" by (simp add: demo_q_def q2_def)
  obtain t tc where t: "sched_ok t ((demo_q q2)(ReadyList := [3]))" "current_task t = Some 2"
      "tasks t 1 = Some tc" "status tc = TASK_WAITING" "locks t = locks s2"
    using task_block_ok [OF s2_ok q c, of TASK_WAITING] by auto
  have "off_lists (valid_lists t) ((demo_q q2)(ReadyList := [3])) ReadyList 1"
    using t(5) by (auto simp: off_lists_def valid_lists_def demo_q_def q2_def s2_def demo_def)
  from task_unblock_readies [OF t(1,3) _ this] t(2-4) show ?thesis
    by (auto simp: has_status_def)
qed
section \<open>The life of a task\<close>

text \<open>C33: With an empty pool \<open>task_start\<close> returns the new task: its fields are initialised, its context
enters \<open>task_entrance\<close> with the function and its argument on the new stack, its tid is the least
free one, it is last in the ready list and the list of all tasks, and the other tasks that do
not wait for the tid lock are untouched.\<close>

theorem task_start_adds:
  assumes "sched_ok s q" and "q PoolList = []" and "locks s TidLock = Some free_lock"
    and "new_task env = Some t" and "t \<notin> dom (tasks s)" and "Some t \<noteq> main_task s"
    and "length nm < 32"
    and "pool_map n (tid_bitmap s)" and "m < n" and "\<not> bit_of (tid_bitmap s) m"
    and "\<forall>i<m. bit_of (tid_bitmap s) i"
  shows "\<exists>u ts. task_start env nm prio func arg s = Done t u \<and> sched_ok u (start_queues t q) \<and>
    current_task u = current_task s \<and> task_all_nums u = task_all_nums s + 1 \<and> \<not> blocked u \<and>
    (\<forall>i. bit_of (tid_bitmap u) i = (i = m \<or> bit_of (tid_bitmap s) i)) \<and>
    tasks u t = Some ts \<and> tid ts = ucast (of_nat m + tid_start s) \<and> tname ts = nm \<and>
    status ts = TASK_READY \<and> priority ts = ucast prio \<and> ticks ts = ucast prio \<and>
    tcontext ts = first_context env (cpu s) func arg \<and>
    (\<forall>v. v \<noteq> t \<and> v \<notin> set (q (Waiters TidLock)) \<longrightarrow> tasks u v = tasks s v)"
  using task_start_new [OF assms, of prio func arg]
  by (auto simp: added_task_def fresh_task_def head_task_def)

theorem task_start_adds_witness:
  "\<exists>u ts. task_start env1 ''worker'' 5 0x500 7 s2 = Done 9 u \<and> tasks u 9 = Some ts \<and>
     tid ts = 5 \<and> status ts = TASK_READY \<and> rip (tcontext ts) = 0x400 \<and> rdi (tcontext ts) = 0x500"
proof -
  have p: "pool_map 16 (tid_bitmap s2)" "\<not> bit_of (tid_bitmap s2) 4" "\<forall>i<4. bit_of (tid_bitmap s2) i"
    using b1_map b1_bits by (simp_all add: s2_def demo_def)
  have "demo_q q2 PoolList = []" "locks s2 TidLock = Some free_lock" "new_task env1 = Some 9"
      "9 \<notin> dom (tasks s2)" "Some 9 \<noteq> main_task s2" "length ''worker'' < 32" "tid_start s2 = 1"
    by (simp_all add: demo_q_def q2_def s2_def demo_def env1_def)
  from task_start_adds [OF s2_ok this(1-6) p(1) _ p(2,3), of 5 "0x500" 7] this(7)
  show ?thesis by (auto simp: first_context_def env1_def)
qed

text \<open>When a new task is switched to for the first time, the processor is at \<open>task_entrance\<close>, with the
function and its argument in the two argument registers and the stack pointer at the top of its
stack; the word below it holds the address it entered at.\<close>

theorem new_task_enters:
  assumes "tasks s t = Some ts"
  shows "\<exists>u v. task_create env t func arg s = Inr u \<and> context_set t u = Inr v \<and>
    rip (cpu v) = entrance env \<and> rdi (cpu v) = func \<and> rsi (cpu v) = arg \<and>
    rsp (cpu v) = task_stack ts \<and> mem v = (mem s)(task_stack ts - 8 := entrance env)"
  using assms
  by (simp add: task_create_def context_set_def step_simps context_load_def get_reg_def)

theorem new_task_enters_witness:
  "\<exists>u v. task_create env1 1 0x500 7 s2 = Inr u \<and> context_set 1 u = Inr v \<and>
     rip (cpu v) = 0x400 \<and> rdi (cpu v) = 0x500"
  using new_task_enters [of s2 1 "demo_task 1 TASK_RUNNING" env1 "0x500" 7]
  by (auto simp: s2_def demo_def env1_def)

text \<open>C34: The pool of ended tasks is never reused: when it is not empty \<open>task_start\<close> takes its first task,
which is marked dead, and the assertion that it is not spins for ever.\<close>

theorem pooled_task_never_starts:
  assumes "sched_ok s q" and "q PoolList = t # ts" and "has_status s t TASK_DIED"
  shows "task_start env nm prio func arg s = Fail Assert_Spin"
  by (rule task_start_reuse [OF assms])

theorem pooled_task_never_starts_witness:
  "task_start env1 ''worker'' 5 0x500 7 s3 = Fail Assert_Spin"
  by (rule pooled_task_never_starts [OF s3_ok, of 5 "[]"])
    (simp_all add: demo_q_def q3_def has_status_def s3_def demo_def demo_task_def)

text \<open>The masking does not nest: \<open>init_task\<close>, called with the alarm masked, returns with it unmasked,
because releasing the tid lock unmasks it; what \<open>task_start\<close> does to the lists after that can be
interrupted.\<close>

theorem task_start_unmasks:
  assumes "sched_ok s q" and "locks s TidLock = Some free_lock" and "t \<notin> dom (tasks s)"
    and "Some t \<noteq> main_task s" and "length nm < 32" and "blocked s"
    and "pool_map n (tid_bitmap s)" and "m < n" and "\<not> bit_of (tid_bitmap s) m"
    and "\<forall>i<m. bit_of (tid_bitmap s) i"
  shows "\<exists>u. init_task env (Some t) nm prio s = Done t u \<and> \<not> blocked u \<and>
    in_list ReadyList (GeneralTag t) u = Inr False"
proof -
  let ?s1 = "s\<lparr>tasks := (tasks s)(t \<mapsto> head_task nm TASK_READY True), cells := clear_tags t (cells s)\<rparr>"
  have off: "t \<notin> set (q i)" if "i \<in> valid_lists s" for i
    by (rule fresh_off_lists [OF assms(1,3) that])
  have w: "t \<notin> set (q (Waiters TidLock))" by (rule off) (use assms(2) in auto)
  have "sched_ok ?s1 q" by (rule sched_ok_fresh [OF assms(1,3)]) auto
  from init_task_run [OF init_task_head_new [OF assms(5,4)] this, where n = n and m = m
      and st = TASK_READY and f = True and env = env and prio = prio] assms w
  obtain u b where u: "init_task env (Some t) nm prio s = Done t u"
      "sched_ok u (wake_queues TidLock q)"
      "added_task s q b t (fresh_task env nm prio (ucast (of_nat m + tid_start s)) TASK_READY True) u"
    by auto
  have "t \<notin> set (wake_queues TidLock q ReadyList)"
    using wake_queues_subset(2) [of TidLock q] off [of ReadyList] w by auto
  then have "in_list ReadyList (GeneralTag t) u = Inr False"
    using linked_find [of "valid_lists u" "dom (tasks u)" "cells u" "wake_queues TidLock q" ReadyList t]
      u(2) by (simp add: in_list_def sched_ok_def linked_def)
  then show ?thesis using u(1,3) by (auto simp: added_task_def)
qed

theorem task_start_unmasks_witness:
  "\<exists>u. init_task env1 (Some 9) ''worker'' 5 (interrupt_disable s2) = Done 9 u \<and> \<not> blocked u"
proof -
  let ?s = "interrupt_disable s2"
  have ok: "sched_ok ?s (demo_q q2)"
    using s2_ok by (subst sched_ok_frame [of _ s2]) (auto simp: interrupt_disable_def)
  have p: "pool_map 16 (tid_bitmap ?s)" "\<not> bit_of (tid_bitmap ?s) 4" "\<forall>i<4. bit_of (tid_bitmap ?s) i"
    using b1_map b1_bits by (simp_all add: s2_def demo_def interrupt_disable_def)
  have "locks ?s TidLock = Some free_lock" "9 \<notin> dom (tasks ?s)" "Some 9 \<noteq> main_task ?s"
      "length ''worker'' < 32" "blocked ?s"
    by (simp_all add: s2_def demo_def interrupt_disable_def)
  from task_start_unmasks [OF ok this p(1) _ p(2,3), of env1 5] show ?thesis by auto
qed

text \<open>A task that ends is marked dead, leaves the list of all tasks and, unless it is the main task,
goes to the end of the pool; its tid is free again; the first ready task runs, in its saved
context; and the call does not return.\<close>

theorem task_exit_switches:
  assumes "sched_ok s q" and "current_task s = Some t" and "tasks s t = Some ts"
    and "t \<in> set (q AllList)" and "t \<notin> set (q PoolList)"
    and "locks s TidLock = Some free_lock" and "q (Waiters TidLock) = []"
    and "pool_map n (tid_bitmap s)" and "unat (scast (tid ts) - tid_start s) < n"
    and "q ReadyList = r # rs"
  shows "\<exists>u tr. task_exit t s = Leave u \<and>
    sched_ok u (q(ReadyList := rs, AllList := remove1 t (q AllList),
      PoolList := (if Some t = main_task s then q PoolList else q PoolList @ [t]))) \<and>
    current_task u = Some r \<and> tasks u r = Some tr \<and> status tr = TASK_RUNNING \<and>
    cpu u = fst (context_load (tcontext tr) (cpu s, mem s)) \<and> has_status u t TASK_DIED \<and>
    task_all_nums u = task_all_nums s - 1 \<and>
    (\<forall>i. bit_of (tid_bitmap u) i = (i \<noteq> unat (scast (tid ts) - tid_start s) \<and> bit_of (tid_bitmap s) i))"
proof -
  have "wake_queues TidLock q = q" using assms(7) by (simp add: wake_queues_def)
  then have "wake_queues TidLock q ReadyList = r # rs" using assms(10) by simp
  from task_exit_run [OF assms(1-6,8,9) this] obtain u tr where u: "task_exit t s = Leave u"
      "sched_ok u ((wake_queues TidLock (exit_queues (Some t = main_task s) t q))(ReadyList := rs))"
      "current_task u = Some r" "has_status u r TASK_RUNNING" "has_status u t TASK_DIED"
      "task_all_nums u = task_all_nums s - 1"
      "\<forall>i. bit_of (tid_bitmap u) i = (i \<noteq> unat (scast (tid ts) - tid_start s) \<and> bit_of (tid_bitmap s) i)"
      "tasks u r = Some tr" "cpu u = fst (context_load (tcontext tr) (cpu s, mem s))"
    by blast
  have "(wake_queues TidLock (exit_queues (Some t = main_task s) t q))(ReadyList := rs) =
      q(ReadyList := rs, AllList := remove1 t (q AllList),
        PoolList := (if Some t = main_task s then q PoolList else q PoolList @ [t]))"
    using assms(7) by (auto simp: wake_queues_def exit_queues_def Let_def fun_eq_iff)
  with u show ?thesis by (auto simp: has_status_def)
qed

theorem task_exit_switches_witness:
  "\<exists>u. task_exit 1 s2 = Leave u \<and> current_task u = Some 2 \<and> has_status u 1 TASK_DIED \<and>
     \<not> bit_of (tid_bitmap u) 0"
proof -
  have p: "pool_map 16 (tid_bitmap s2)" using b1_map by (simp add: s2_def demo_def)
  have t: "current_task s2 = Some 1" "tasks s2 1 = Some (demo_task 1 TASK_RUNNING)"
      "1 \<in> set (demo_q q2 AllList)" "1 \<notin> set (demo_q q2 PoolList)" "locks s2 TidLock = Some free_lock"
      "demo_q q2 (Waiters TidLock) = []" "demo_q q2 ReadyList = 2 # [3]"
    by (simp_all add: demo_q_def q2_def s2_def demo_def)
  have b: "scast (tid (demo_task 1 TASK_RUNNING)) - tid_start s2 = (0 :: 32 word)"
    by (simp add: demo_task_def s2_def demo_def)
  from task_exit_switches [OF s2_ok t(1-6) p _ t(7)] b show ?thesis by auto
qed

text \<open>\<open>tid2task\<close> returns the first task of the list of all tasks that has the tid, and \<open>NULL\<close> exactly
when none has; a negative tid, for which the comparison is made in 32 bits, is found as well.\<close>

theorem tid2task_finds:
  assumes "sched_ok s q"
  shows "tid2task td s = Inr (find (\<lambda>t. \<exists>ts. tasks s t = Some ts \<and> tid ts = td) (q AllList))"
  using tid2task_find [of s q td] assms by (simp add: sched_ok_def scast_16_32_inj)

theorem tid2task_finds_witness: "tid2task 3 s2 = Inr (Some 3) \<and> tid2task 7 s2 = Inr None"
  using tid2task_finds [OF s2_ok, of 3] tid2task_finds [OF s2_ok, of 7]
  by (simp add: demo_q_def q2_def s2_def demo_def demo_task_def)

text \<open>C35: The condition of the loop of \<open>clean_dead_task\<close> is inverted: with at least eight live tasks it
frees nothing, whatever is in the pool; with fewer and a single ended task it frees this one and
then takes an element from the empty pool, through a \<open>NULL\<close> pointer.\<close>

theorem clean_dead_task_wrong:
  assumes "sched_ok s q" and "q PoolList = t # ts"
    and "\<forall>i\<in>valid_lists s. i \<noteq> PoolList \<longrightarrow> t \<notin> set (q i)" and "current_task s \<noteq> Some t"
  shows "(8 \<le> sint (task_all_nums s) \<longrightarrow> clean_dead_task s = Inr s) \<and>
    (0 \<le> sint (task_all_nums s) \<and> sint (task_all_nums s) < 8 \<and> ts = [] \<longrightarrow>
       clean_dead_task s = Inl Null_Deref)"
  using clean_many [OF assms(1,2)] clean_few [OF assms(1) _ assms(3,4)] assms(2) by auto

theorem clean_dead_task_wrong_witness: "clean_dead_task s3 = Inl Null_Deref"
proof -
  have "demo_q q3 PoolList = 5 # []" "\<forall>i\<in>valid_lists s3. i \<noteq> PoolList \<longrightarrow> 5 \<notin> set (demo_q q3 i)"
      "current_task s3 \<noteq> Some 5" "sint (task_all_nums s3) = 1"
    by (auto simp: demo_q_def q3_def s3_def demo_def valid_lists_def)
  from clean_dead_task_wrong [OF s3_ok this(1-3)] this(4) show ?thesis by simp
qed

text \<open>From the state the program starts in, \<open>task_init\<close> sets up the three lists and the tid pool and
makes the main program the running task, with tid 1 and the first bit of the pool taken, alone
on the list of all tasks; the invariant of the scheduler holds.\<close>

theorem task_init_starts:
  assumes "boot_state s" and "new_task env = Some t"
  shows "\<exists>u. task_init env s = Done () u \<and> main_only env t u \<and> sched_ok u ((\<lambda>_. [])(AllList := [t])) \<and>
    locks u = (locks s)(TidLock \<mapsto> free_lock)"
  using task_init_run [OF assms] by (auto simp: main_only_def main_queues_def)

theorem task_init_starts_witness:
  "\<exists>u. task_init env1 s0 = Done () u \<and> current_task u = Some 9 \<and> task_all_nums u = 1"
  using task_init_starts [OF s0_boot, of env1 9] by (auto simp: env1_def main_only_def)
section \<open>Tids and the bitmap\<close>

text \<open>The tid bitmap hands out distinct bits: from any map with at least \<open>k\<close> clear bits, \<open>k\<close> of them
can be taken one after the other, all different, all clear before, and exactly these are set then.\<close>

theorem tids_distinct:
  assumes "pool_map n b" and "k \<le> card ({i. unat i < n} - used_bits b)"
  shows "\<exists>is b'. take_many bitmap_take k b = Inr (is, b') \<and> length is = k \<and> distinct is \<and>
    pool_map n b' \<and> set is \<subseteq> {i. unat i < n} - used_bits b \<and>
    used_bits b' = used_bits b \<union> set is"
  by (rule tp.take_many_distinct [OF assms(1) _ assms(2)]) simp

theorem tids_distinct_witness:
  "\<exists>is b'. take_many bitmap_take 1 b1 = Inr (is, b') \<and> distinct is \<and> length is = 1"
proof -
  have "(4 :: 32 word) \<in> {i. unat i < 16} - used_bits b1" by (simp add: used_bits_def b1_bits)
  then have "1 \<le> card ({i :: 32 word. unat i < 16} - used_bits b1)"
    by (metis card_0_eq empty_iff finite less_one not_le)
  from tids_distinct [OF b1_map this] show ?thesis by blast
qed

text \<open>C36: With the tid lock free, \<open>allocate_tid\<close> returns the tid of the lowest clear bit of the pool, cut to
16 bits; afterwards this bit is set, the lock is free again and the alarm is unmasked.\<close>

theorem allocate_tid_least:
  assumes "sched_ok s q" and "locks s TidLock = Some free_lock" and "pool_map n (tid_bitmap s)"
    and "m < n" and "\<not> bit_of (tid_bitmap s) m" and "\<forall>i<m. bit_of (tid_bitmap s) i"
  shows "\<exists>u. allocate_tid s = Done (ucast (of_nat m + tid_start s)) u \<and>
    sched_ok u (wake_queues TidLock q) \<and> locks u = locks s \<and> \<not> blocked u \<and>
    pool_map n (tid_bitmap u) \<and> (\<forall>i. bit_of (tid_bitmap u) i = (i = m \<or> bit_of (tid_bitmap s) i))"
  using allocate_tid_run [OF assms] by (auto simp: pool_step_def)

theorem allocate_tid_least_witness: "\<exists>u. allocate_tid s2 = Done 5 u \<and> bit_of (tid_bitmap u) 4"
proof -
  have p: "pool_map 16 (tid_bitmap s2)" "\<not> bit_of (tid_bitmap s2) 4" "\<forall>i<4. bit_of (tid_bitmap s2) i"
    using b1_map b1_bits by (simp_all add: s2_def demo_def)
  have "locks s2 TidLock = Some free_lock" "tid_start s2 = 1" by (simp_all add: s2_def demo_def)
  from allocate_tid_least [OF s2_ok this(1) p(1) _ p(2,3)] this(2) show ?thesis by auto
qed

text \<open>A tid that is released frees the bit it was made from, and all other bits stay: allocation and
release are inverse for the first 32767 bits of the pool, those whose tid is positive in 16 bits.\<close>

theorem tid_returned:
  assumes "sched_ok s q" and "locks s TidLock = Some free_lock" and "pool_map n (tid_bitmap s)"
    and "tid_start s = 1" and "m < n" and "m < 32767" and "\<not> bit_of (tid_bitmap s) m"
    and "\<forall>i<m. bit_of (tid_bitmap s) i"
  shows "\<exists>td u v. allocate_tid s = Done td u \<and> release_tid td u = Done () v \<and>
    (\<forall>i. bit_of (tid_bitmap v) i = bit_of (tid_bitmap s) i)"
proof -
  let ?td = "ucast (of_nat m + 1 :: 32 word) :: 16 word"
  obtain u b where u: "allocate_tid s = Done ?td u" "pool_step s q b u" "pool_map n b"
      "\<forall>i. bit_of b i = (i = m \<or> bit_of (tid_bitmap s) i)"
    using allocate_tid_run [OF assms(1-3,5,7,8)] assms(4) by auto
  have s: "sched_ok u (wake_queues TidLock q)" "locks u TidLock = Some free_lock"
      "tid_bitmap u = b" "tid_start u = 1"
    using u(2) assms(2,4) by (auto simp: pool_step_def)
  have bit: "unat (scast ?td - tid_start u) = m"
    using tid_of_bit [OF assms(6)] s(4) assms(6) by (simp add: unat_of_nat take_bit_nat_eq_self)
  obtain v b' where v: "release_tid ?td u = Done () v" "pool_step u (wake_queues TidLock q) b' v"
      "\<forall>i. bit_of b' i = (i \<noteq> m \<and> bit_of b i)"
    using release_tid_run [OF s(1,2), of n ?td] s(3) u(3) bit assms(5) by auto
  moreover have "tid_bitmap v = b'" using v(2) by (auto simp: pool_step_def)
  ultimately show ?thesis using u(1,4) assms(7) by blast
qed

theorem tid_returned_witness:
  "\<exists>td u v. allocate_tid s2 = Done td u \<and> release_tid td u = Done () v \<and> \<not> bit_of (tid_bitmap v) 4"
proof -
  have p: "pool_map 16 (tid_bitmap s2)" "\<not> bit_of (tid_bitmap s2) 4" "\<forall>i<4. bit_of (tid_bitmap s2) i"
    using b1_map b1_bits by (simp_all add: s2_def demo_def)
  have "locks s2 TidLock = Some free_lock" "tid_start s2 = 1" by (simp_all add: s2_def demo_def)
  from tid_returned [OF s2_ok this(1) p(1) this(2) _ _ p(2,3)] p(2) show ?thesis by auto
qed

text \<open>The pool has 1000800 bits but a tid has 16 bits. A tid whose sign bit is set, such as the one
made from bit 32767, indexes the bitmap far outside its bytes when it is released.\<close>

theorem negative_tid_lost:
  assumes "sched_ok s q" and "locks s TidLock = Some free_lock"
    and "pool_map 1000800 (tid_bitmap s)" and "tid_start s = 1" and "td <s 0"
  shows "release_tid td s = Fail Out_Of_Bounds"
proof (rule release_tid_out [OF assms(1-3)])
  have neg: "sint td < 0" using assms(5) by (simp add: word_sless_alt)
  have lo: "- 32768 \<le> sint td" using sint_greater_eq [of td] by simp
  have "scast td - tid_start s = (word_of_int (sint td - 1) :: 32 word)"
    using assms(4) by simp
  then have "uint (scast td - tid_start s) = (sint td - 1) mod 2 ^ 32"
    by (simp only: unsigned_of_int) (simp add: take_bit_eq_mod)
  moreover have "(sint td - 1) mod 2 ^ 32 = sint td - 1 + 2 ^ 32"
    using neg lo by (subst mod_add_self2 [symmetric], subst mod_pos_pos_trivial) simp_all
  ultimately show "1000800 \<le> unat (scast td - tid_start s)"
    using lo by (simp flip: nat_uint_eq add: le_nat_iff)
qed

theorem negative_tid_lost_witness:
  "\<exists>u. task_init env1 s0 = Done () u \<and> release_tid (ucast (32767 + 1 :: 32 word)) u = Fail Out_Of_Bounds"
proof -
  obtain u where u: "task_init env1 s0 = Done () u" "main_only env1 9 u"
      "locks u = (locks s0)(TidLock \<mapsto> free_lock)"
    using task_init_run [OF s0_boot, of env1 9] by (auto simp: env1_def)
  then have m: "sched_ok u (main_queues 9)" "locks u TidLock = Some free_lock"
      "pool_map 1000800 (tid_bitmap u)" "tid_start u = 1"
    by (simp_all add: main_only_def)
  have "release_tid (ucast (32767 + 1 :: 32 word)) u = Fail Out_Of_Bounds"
    by (rule negative_tid_lost [OF m]) (simp add: word_sless_alt)
  with u(1) show ?thesis by blast
qed

text \<open>When every bit is set the search reads past the end of the bitmap; the documented result \<open>-1\<close> is
never returned, and \<open>allocate_tid\<close> does not return.\<close>

theorem full_pool_fails:
  assumes "sched_ok s q" and "locks s TidLock = Some free_lock" and "pool_map n (tid_bitmap s)"
    and "\<forall>i<n. bit_of (tid_bitmap s) i"
  shows "bitmap_scan (tid_bitmap s) 1 = Inl Out_Of_Bounds \<and> allocate_tid s = Fail Out_Of_Bounds"
proof
  have "\<not> run_free (tid_bitmap s) r (Suc 0)" for r
    using assms(3,4) by (auto simp: run_free_1 pool_map_def)
  then show "bitmap_scan (tid_bitmap s) 1 = Inl Out_Of_Bounds"
    using bitmap_scan_first_run [of "tid_bitmap s" 1] assms(3)
    by (simp add: first_run_def pool_map_def)
  show "allocate_tid s = Fail Out_Of_Bounds" by (rule allocate_tid_full [OF assms])
qed

theorem full_pool_fails_witness:
  "allocate_tid (s2\<lparr>tid_bitmap := \<lparr>btmp_bytes_len = 1, bits = [255]\<rparr>\<rparr>) = Fail Out_Of_Bounds"
proof -
  let ?s = "s2\<lparr>tid_bitmap := \<lparr>btmp_bytes_len = 1, bits = [255]\<rparr>\<rparr>"
  have ok: "sched_ok ?s (demo_q q2)" using s2_ok by (subst sched_ok_frame [of _ s2]) auto
  have p: "pool_map 8 (tid_bitmap ?s)" by (simp add: pool_map_def wf_bitmap_def nbits_def)
  have f: "\<forall>i<8. bit_of (tid_bitmap ?s) i"
    using full_byte [of 255] by (simp add: bit_of_def)
  have "locks ?s TidLock = Some free_lock" by (simp add: s2_def demo_def)
  from full_pool_fails [OF ok this p f] show ?thesis by simp
qed

text \<open>C37: For every positive length, \<open>bitmap_scan\<close> returns the lowest index at which that many consecutive
bits are clear; when there is no such run it reads outside the array.\<close>

theorem bitmap_scan_least:
  assumes "wf_bitmap b" and "cnt \<noteq> 0"
  shows "if \<exists>r. run_free b r (unat cnt)
    then \<exists>r. bitmap_scan b cnt = Inr r \<and> run_free b (unat r) (unat cnt) \<and>
      (\<forall>s<unat r. \<not> run_free b s (unat cnt))
    else bitmap_scan b cnt = Inl Out_Of_Bounds"
  using bitmap_scan_first_run [OF assms] by (simp add: first_run_def)

theorem bitmap_scan_least_witness: "\<exists>r. bitmap_scan b1 3 = Inr r \<and> run_free b1 (unat r) 3"
proof -
  have "run_free b1 4 (unat (3 :: 32 word))"
    by (simp add: run_free_def b1_bits) (simp add: nbits_def b1_def)
  moreover have "wf_bitmap b1" using b1_map by (simp add: pool_map_def)
  ultimately show ?thesis using bitmap_scan_least [of b1 3] by (auto split: if_splits)
qed

text \<open>A bit reads back as it was written, every other bit reads as before, and an index outside the
array is an access out of bounds for the write and for the test.\<close>

theorem bitmap_set_test:
  assumes "v = 0 \<or> v = 1"
  shows "if unat i < nbits b
    then \<exists>b'. bitmap_set b i v = Inr b' \<and> bitmap_scan_test b' i = Inr (v = 1) \<and>
      (\<forall>j. j \<noteq> i \<longrightarrow> bitmap_scan_test b' j = bitmap_scan_test b j)
    else bitmap_set b i v = Inl Out_Of_Bounds \<and> bitmap_scan_test b i = Inl Out_Of_Bounds"
proof (cases "unat i < nbits b")
  case True
  from bitmap_set_spec [OF this assms] obtain b' where "bitmap_set b i v = Inr b'"
      "nbits b' = nbits b" "\<forall>n. bit_of b' n = (if n = unat i then v = 1 else bit_of b n)"
    by blast
  then show ?thesis
    using True by (auto simp: bitmap_scan_test_spec word_eq_iff_unsigned [where ?'a = nat])
next
  case False
  then show ?thesis using bitmap_set_out [OF False assms] by (simp add: bitmap_scan_test_spec)
qed

theorem bitmap_set_test_witness:
  "\<exists>b'. bitmap_set b1 9 1 = Inr b' \<and> bitmap_scan_test b' 9 = Inr True"
  using bitmap_set_test [of 1 9 b1] by (auto simp: nbits_def b1_def)

section \<open>Lists\<close>

text \<open>C38: On a heap of several disjoint lists, appending a free cell puts it at the end, it is found there,
and removing it gives back the lists as they were; the other lists are not touched.\<close>

theorem list_append_remove:
  assumes "heap_lists L D h lv" and "i \<in> D" and "free_cell L D h lv e"
  shows "\<exists>h1 h2. list_append (L i) e h = Inr h1 \<and> heap_lists L D h1 (lv(i := lv i @ [e])) \<and>
    elem_find (L i) e h1 = Inr True \<and> list_remove (Some e) h1 = Inr h2 \<and>
    heap_lists L D h2 lv \<and> dom h2 = dom h"
proof -
  obtain h1 where h1: "list_append (L i) e h = Inr h1" "heap_lists L D h1 (lv(i := lv i @ [e]))"
      "dom h1 = dom h"
    using hl_append [OF assms] by blast
  have e: "e \<in> set ((lv(i := lv i @ [e])) i)" by simp
  have ne: "e \<notin> set (lv i)" using assms(2,3) by (auto simp: free_cell_def list_cells_def)
  then have orig: "(lv(i := lv i @ [e]))(i := remove1 e ((lv(i := lv i @ [e])) i)) = lv"
    by (simp add: remove1_append)
  from hl_remove [OF h1(2) assms(2) e] obtain h2 where "list_remove (Some e) h1 = Inr h2"
      "heap_lists L D h2 lv" "dom h2 = dom h1"
    unfolding orig by blast
  moreover have "elem_find (L i) e h1 = Inr True"
    using elem_find_spec [OF heap_lists_dll [OF h1(2) assms(2)]] by simp
  ultimately show ?thesis using h1 by auto
qed

theorem list_append_remove_witness:
  "\<exists>h1 h2. list_append (list_at ReadyList) (PoolTag 2) (cells s2) = Inr h1 \<and>
     list_remove (Some (PoolTag 2)) h1 = Inr h2"
proof -
  have h: "heap_lists list_at (valid_lists s2) (cells s2) (lview (demo_q q2))"
    using s2_ok by (simp add: sched_ok_def linked_def linked_cells_def)
  have "free_cell list_at (valid_lists s2) (cells s2) (lview (demo_q q2)) (PoolTag 2)"
    by (auto simp: free_cell_def list_cells_def valid_lists_def s2_def q2_def demo_eval)
  from list_append_remove [OF h _ this, of ReadyList] show ?thesis by auto
qed

section \<open>I/O queues and the console\<close>

text \<open>C39: A consumer that finds the queue empty gives the processor to the next task while it holds the
lock of the queue. A byte that this task puts into the queue makes the consumer the first of the
ready list, and once the consumer runs again it takes that byte and has released the lock.\<close>

theorem ioq_handover:
  assumes "sched_ok s q" and "current_task s = Some c" and "q ReadyList = n # ns"
    and "ioqs s i = Some r" and "ring_ok r" and "contents r = []"
    and "ioq_consumer r = None" and "ioq_producer r = None"
    and "locks s (IoqLock i) = Some free_lock"
  shows "\<exists>u k t. ioq_getchar i s = Switch u k \<and> current_task u = Some n \<and>
    locks u (IoqLock i) = Some (held_lock c 1) \<and>
    ioq_putchar i x u = Done () t \<and> sched_ok t (q(ReadyList := c # ns)) \<and>
    (\<forall>v q'. sched_ok v q' \<and> current_task v = Some c \<and> ioqs v = ioqs t \<and> locks v = locks t \<longrightarrow>
       (\<exists>w. k v = Done x w \<and> locks w (IoqLock i) = Some free_lock))"
proof -
  have "must_sleep Consumer r" using ioq_empty_contents assms(5,6) by simp
  then obtain u where u: "ioq_sleep i Consumer s = Switch u (sleep_rest i Consumer)"
      "sched_ok u (q(ReadyList := ns))" "current_task u = Some n"
      "ioqs u = (ioqs s)(i \<mapsto> r\<lparr>ioq_consumer := Some c\<rparr>)"
      "locks u = (locks s)(IoqLock i \<mapsto> held_lock c 1)" "asleep u (q(ReadyList := ns)) (Some c)"
    using ioq_sleep_blocks [OF assms(1,4) _ _ assms(9,3,2), of Consumer] assms(7) by auto
  let ?k = "\<lambda>v. bind_run (sleep_rest i Consumer v) (\<lambda>_ s. lift_val (ioq_take i s))"
  let ?r = "r\<lparr>ioq_consumer := Some c\<rparr>"
  have r: "ring_ok ?r" "ioqs u i = Some ?r" "contents ?r = []" using assms(5,6) u(4) by simp_all
  have nf: "\<not> ioq_full ?r" using ioq_full_contents [OF r(1)] r(3) by simp
  obtain t r' where t: "ioq_store i x u = Inr t" "sched_ok t (q(ReadyList := c # ns))"
      "ioqs t = (ioqs u)(i \<mapsto> r')" "ring_ok r'" "contents r' = [x]" "ioq_consumer r' = None"
      "ioq_producer r' = None" "locks t = locks u"
    using ioq_store_run [OF u(2) r(2,1) nf, of x] u(6) r(3) assms(8) by (auto simp: woken_def)
  have put: "ioq_putchar i x u = Done () t"
    using ioq_sleep_pass [OF r(2), of Producer] nf t(1) by (simp add: ioq_putchar_def)
  have get: "\<exists>w. ?k v = Done x w \<and> locks w (IoqLock i) = Some free_lock"
    if v: "sched_ok v q'" "current_task v = Some c" "ioqs v = ioqs t" "locks v = locks t" for v q'
  proof -
    have "ioqs v i = Some r'" "locks v (IoqLock i) = Some (held_lock c 1)" "\<not> must_sleep Consumer r'"
      using v t(3,8) u(5) ioq_empty_contents [OF t(4)] t(5) by simp_all
    then obtain w where w: "sleep_rest i Consumer v = Done () w" "sched_ok w (wake_queues (IoqLock i) q')"
        "ioqs w i = Some r'" "locks w (IoqLock i) = Some free_lock"
      using sleep_rest_run [OF v(1) _ _ _ v(2)] by fastforce
    have "\<not> ioq_empty r'" using ioq_empty_contents [OF t(4)] t(5) by simp
    from ioq_take_run [OF w(2,3) t(4) this] t(5,7) show ?thesis using w(1,4) by (auto simp: asleep_def)
  qed
  have "ioq_getchar i s = Switch u ?k" using u(1) by (simp add: ioq_getchar_def)
  moreover have "locks u (IoqLock i) = Some (held_lock c 1)" using u(5) by simp
  ultimately show ?thesis using u(3) put t(2) get by blast
qed

theorem ioq_handover_witness:
  "\<exists>u k t. ioq_getchar 0 s4 = Switch u k \<and> ioq_putchar 0 65 u = Done () t"
  using ioq_handover [OF s4_ok s4_facts(1,3,2) r4_facts(1,2,5,4) s4_facts(4), of 65] by blast

text \<open>On a queue that is not full \<open>ioq_putchar\<close> returns at once, the byte is appended to those in the
queue, and a task sleeping in the consumer's place leaves it for the front of the ready list.\<close>

theorem ioq_put_appends:
  assumes "sched_ok s q" and "ioqs s i = Some r" and "ring_ok r" and "length (contents r) < 63"
    and "asleep s q (ioq_consumer r)"
  shows "\<exists>u r'. ioq_putchar i x s = Done () u \<and> ioqs u = (ioqs s)(i \<mapsto> r') \<and> ring_ok r' \<and>
    contents r' = contents r @ [x] \<and> ioq_consumer r' = None \<and> ioq_producer r' = ioq_producer r \<and>
    sched_ok u (woken (ioq_consumer r) q) \<and> locks u = locks s"
proof -
  have "\<not> ioq_full r" using ioq_full_contents [OF assms(3)] assms(4) by simp
  then show ?thesis
    using ioq_store_run [OF assms(1-3) _ assms(5), of x] ioq_sleep_pass [OF assms(2), of Producer]
    by (auto simp: ioq_putchar_def)
qed

theorem ioq_put_appends_witness:
  "\<exists>u r. ioq_putchar 0 65 s4 = Done () u \<and> ioqs u 0 = Some r \<and> contents r = [65]"
proof -
  have "asleep s4 (demo_q q4) (ioq_consumer r4)" by (simp add: r4_facts asleep_def)
  from ioq_put_appends [OF s4_ok s4_facts(2) r4_facts(1) _ this, of 65] r4_facts(2) show ?thesis
    by auto
qed

text \<open>On a queue that is not empty \<open>ioq_getchar\<close> returns at once with the first of its bytes, which is
removed, and a task sleeping in the producer's place leaves it for the front of the ready list.\<close>

theorem ioq_get_takes_first:
  assumes "sched_ok s q" and "ioqs s i = Some r" and "ring_ok r" and "contents r = x # xs"
    and "asleep s q (ioq_producer r)"
  shows "\<exists>u r'. ioq_getchar i s = Done x u \<and> ioqs u = (ioqs s)(i \<mapsto> r') \<and> ring_ok r' \<and>
    contents r' = xs \<and> ioq_producer r' = None \<and> ioq_consumer r' = ioq_consumer r \<and>
    sched_ok u (woken (ioq_producer r) q) \<and> locks u = locks s"
proof -
  have "\<not> ioq_empty r" using ioq_empty_contents [OF assms(3)] assms(4) by simp
  then show ?thesis
    using ioq_take_run [OF assms(1-3) _ assms(5)] ioq_sleep_pass [OF assms(2), of Consumer] assms(4)
    by (auto simp: ioq_getchar_def)
qed

theorem ioq_get_takes_first_witness:
  "\<exists>u t r. ioq_putchar 0 65 s4 = Done () u \<and> ioq_getchar 0 u = Done 65 t \<and> ioqs t 0 = Some r \<and>
     contents r = []"
proof -
  have e: "\<not> ioq_full r4" "asleep s4 (demo_q q4) (ioq_consumer r4)"
    by (simp_all add: r4_facts asleep_def)
  obtain u r where u: "ioq_store 0 65 s4 = Inr u" "sched_ok u (woken (ioq_consumer r4) (demo_q q4))"
      "ioqs u 0 = Some r" "ring_ok r" "contents r = [65]" "ioq_producer r = None"
    using ioq_store_run [OF s4_ok s4_facts(2) r4_facts(1) e, of 65] r4_facts by auto
  have "ioq_putchar 0 65 s4 = Done () u"
    using ioq_sleep_pass [OF s4_facts(2), of Producer] e(1) u(1) by (simp add: ioq_putchar_def)
  moreover have "asleep u (woken (ioq_consumer r4) (demo_q q4)) (ioq_producer r)"
    by (simp add: u(6) asleep_def)
  from ioq_get_takes_first [OF u(2-5) this]
  obtain t r' where "ioq_getchar 0 u = Done 65 t" "ioqs t 0 = Some r'" "contents r' = []" by auto
  ultimately show ?thesis by blast
qed

text \<open>\<open>ioq_empty\<close> and \<open>ioq_full\<close> hold when the queue has no byte and 63 bytes, of 64 places, and
\<open>ioq_length\<close> is the number of bytes in it, wherever the two positions are.\<close>

theorem ring_is_queue:
  assumes "ring_ok r"
  shows "(ioq_empty r \<longleftrightarrow> contents r = []) \<and> (ioq_full r \<longleftrightarrow> length (contents r) = 63) \<and>
    ioq_length r = of_nat (length (contents r)) \<and> length (contents r) \<le> 63"
  using ioq_empty_contents [OF assms] ioq_full_contents [OF assms] ioq_length_contents [OF assms]
    contents_length_less [OF assms] by auto

theorem ring_is_queue_witness:
  "ring_ok (r4\<lparr>ioq_head := 2\<rparr>) \<and> ioq_length (r4\<lparr>ioq_head := 2\<rparr>) = 3 \<and>
     length (contents (r4\<lparr>ioq_head := 2\<rparr>)) = 3"
proof -
  have r: "ring_ok (r4\<lparr>ioq_head := 2\<rparr>)" by (simp add: r4_def ring_ok_def)
  have "length (contents (r4\<lparr>ioq_head := 2\<rparr>)) = 3"
    by (simp add: contents_def ring_count_def r4_def)
  with r ring_is_queue [OF r] show ?thesis by simp
qed

text \<open>C40: A consumer that finds the queue empty takes the lock, records itself (\<open>ioq_record\<close>) and is then
blocked. Between the two the alarm is not masked. When the slice of the consumer is used up, the
handler of an alarm there puts it on the ready list and goes on to the next task, and the byte that
this task puts into the queue makes it spin for ever in the assertion of \<open>task_unblock\<close>: the
recorded sleeper is ready, not blocked.\<close>

theorem preempted_consumer_spins:
  assumes "sched_ok s q" and "current_task s = Some c" and "q ReadyList = n # ns"
    and "tasks s c = Some ts" and "ticks ts = 0" and "\<not> is_collaborative_schedule ts"
    and "ioqs s i = Some r" and "ring_ok r" and "contents r = []" and "ioq_consumer r = None"
    and "locks s (IoqLock i) = Some free_lock"
  shows "\<exists>s1 s2 u k f s3. lock_acquire (IoqLock i) s = Done () s1 \<and> ioq_record i Consumer s1 = Inr s2 \<and>
    ioq_getchar i s = Switch u k \<and> task_block_switch TASK_BLOCKED s2 = Inr u \<and> \<not> blocked s2 \<and>
    handler_schedule new frame s2 = Done f s3 \<and> current_task s3 = Some n \<and>
    ioq_putchar i x s3 = Fail Assert_Spin"
proof -
  let ?s1 = "s\<lparr>locks := (locks s)(IoqLock i \<mapsto> held_lock c 1), blocked := False\<rparr>"
  let ?r = "r\<lparr>ioq_consumer := Some c\<rparr>"
  let ?s2 = "?s1\<lparr>ioqs := (ioqs s)(i \<mapsto> ?r)\<rparr>"
  have ok2: "sched_ok ?s2 q" and c2: "current_task ?s2 = Some c"
    using assms(1,2,11) by (subst sched_ok_frame [of _ s], auto simp: insert_absorb)
  from schedule_ok [OF ok2 c2, of frame] assms(3) obtain f s3 where s3:
      "schedule frame ?s2 = Inr (f, s3)" "sched_ok s3 (q(ReadyList := ns @ [c]))"
      "current_task s3 = Some n" "ioqs s3 = ioqs ?s2"
    by auto
  have h: "handler_schedule new frame ?s2 = Done f s3"
    using s3(1) assms(2,4-6) by (simp add: handler_schedule_def step_simps)
  have lk: "lock_acquire (IoqLock i) s = Done () ?s1" using acquire_free_lock(1) [OF assms(11,2)] .
  have rec: "ioq_record i Consumer ?s1 = Inr ?s2" using assms(2,7,10) by (simp add: ioq_record_def ioq_simps)
  obtain u where u: "task_block_switch TASK_BLOCKED ?s2 = Inr u"
    using task_block_ok [OF ok2 assms(3) c2, of TASK_BLOCKED] by auto
  have "must_sleep Consumer r" using ioq_empty_contents assms(8,9) by simp
  from ioq_sleep_parts [OF assms(7) this lk rec u]
  have get: "ioq_getchar i s = Switch u (\<lambda>v. bind_run (sleep_rest i Consumer v) (\<lambda>_ s. lift_val (ioq_take i s)))"
    by (simp add: ioq_getchar_def)
  have nf: "\<not> ioq_full ?r" using ioq_full_contents [of ?r] assms(8,9) by simp
  have "has_status s3 c TASK_READY" using s3(2) by (simp add: sched_ok_def)
  then obtain tc where "tasks s3 c = Some tc" "status tc = TASK_READY" by (auto simp: has_status_def)
  then have un: "task_unblock c s3' = Inl Assert_Spin" if "tasks s3' = tasks s3" for s3'
    using that task_unblock_refuses [of s3' c tc] by simp
  have "ring_ok ?r" using assms(8) by simp
  from ring_bounds [OF this] have "ioq_store i x s3 = Inl Assert_Spin"
    using s3(4) by (simp add: ioq_store_def wakeup_def ioq_simps un)
  then have put: "ioq_putchar i x s3 = Fail Assert_Spin"
    using ioq_sleep_pass [of s3 i ?r Producer] nf s3(4) by (simp add: ioq_putchar_def)
  have "\<not> blocked ?s2" by simp
  then show ?thesis using lk rec get u h s3(3) put by blast
qed

theorem preempted_consumer_spins_witness:
  "\<exists>s1 s2 f s3. lock_acquire (IoqLock 0) (s4\<lparr>tasks := (tasks s4)(1 \<mapsto> (demo_task 1 TASK_RUNNING)\<lparr>ticks := 0\<rparr>)\<rparr>) = Done () s1 \<and>
    ioq_record 0 Consumer s1 = Inr s2 \<and> \<not> blocked s2 \<and> handler_schedule None zero_context s2 = Done f s3 \<and>
    ioq_putchar 0 65 s3 = Fail Assert_Spin"
proof -
  let ?s = "s4\<lparr>tasks := (tasks s4)(1 \<mapsto> (demo_task 1 TASK_RUNNING)\<lparr>ticks := 0\<rparr>)\<rparr>"
  have t: "tasks s4 1 = Some (demo_task 1 TASK_RUNNING)" by (simp add: s4_def demo_def)
  have ok: "sched_ok ?s (demo_q q4)" by (rule sched_ok_upd [OF s4_ok t]) simp_all
  show ?thesis
    using preempted_consumer_spins [OF ok _ s4_facts(3), of 1 "(demo_task 1 TASK_RUNNING)\<lparr>ticks := 0\<rparr>" 0 r4 None zero_context 65]
      s4_facts r4_facts by (simp add: demo_task_def zero_task_def) blast
qed

text \<open>\<open>ioqueue_init\<close> makes any 64-byte buffer an empty queue without sleepers, whose lock is free
and has an empty wait list; the other lists and queues stay as they are.\<close>

theorem ioqueue_init_empty:
  assumes "sched_ok s q" and "unused_lock s (IoqLock i)" and "ioqs s i = Some r"
    and "length (ioq_buf r) = 64"
  shows "\<exists>t r'. ioqueue_init i s = Inr t \<and> ioqs t = (ioqs s)(i \<mapsto> r') \<and> ring_ok r' \<and>
    contents r' = [] \<and> ioq_consumer r' = None \<and> ioq_producer r' = None \<and>
    sched_ok t (q(Waiters (IoqLock i) := [])) \<and> locks t = (locks s)(IoqLock i \<mapsto> free_lock)"
proof -
  obtain h where h: "lock_init (IoqLock i) s =
        Inr (s\<lparr>cells := h, locks := (locks s)(IoqLock i \<mapsto> free_lock)\<rparr>)"
      "sched_ok (s\<lparr>cells := h, locks := (locks s)(IoqLock i \<mapsto> free_lock)\<rparr>)
        (q(Waiters (IoqLock i) := []))"
    using lock_init_run [OF assms(1,2)] by blast
  let ?r = "r\<lparr>ioq_producer := None, ioq_consumer := None, ioq_head := 0, ioq_tail := 0\<rparr>"
  let ?t = "s\<lparr>cells := h, locks := (locks s)(IoqLock i \<mapsto> free_lock), ioqs := (ioqs s)(i \<mapsto> ?r)\<rparr>"
  have "ioqueue_init i s = Inr ?t"
    using h(1) assms(3) by (simp add: ioqueue_init_def ioq_simps)
  moreover have ok: "ring_ok ?r" using assms(4) by (simp add: ring_ok_def)
  moreover have "ioq_empty ?r" by (simp add: ioq_empty_def)
  then have "contents ?r = []" using ioq_empty_contents [OF ok] by blast
  moreover have "sched_ok ?t (q(Waiters (IoqLock i) := []))"
    using h(2) by (rule iffD2 [OF sched_ok_frame, rotated 4]) simp_all
  ultimately show ?thesis by (intro exI [of _ ?t] exI [of _ ?r]) simp
qed

theorem ioqueue_init_empty_witness:
  "\<exists>t r. ioqueue_init 1 (s4\<lparr>cells := (cells s4)(HeadOf (Waiters (IoqLock 1)) \<mapsto> \<lparr>prev = None, nxt = None\<rparr>,
       TailOf (Waiters (IoqLock 1)) \<mapsto> \<lparr>prev = None, nxt = None\<rparr>), ioqs := [1 \<mapsto> r4]\<rparr>) = Inr t \<and>
     ioqs t 1 = Some r \<and> contents r = []"
proof -
  let ?s = "s4\<lparr>cells := (cells s4)(HeadOf (Waiters (IoqLock 1)) \<mapsto> \<lparr>prev = None, nxt = None\<rparr>,
      TailOf (Waiters (IoqLock 1)) \<mapsto> \<lparr>prev = None, nxt = None\<rparr>), ioqs := [1 \<mapsto> r4]\<rparr>"
  have "sched_ok ?s (demo_q q4)"
    unfolding s4_def q4_def by (auto simp: demo_eval)
  moreover have "unused_lock ?s (IoqLock 1)" by (simp add: unused_lock_def s4_def demo_def)
  moreover have "length (ioq_buf r4) = 64" "ioqs ?s 1 = Some r4" by (simp_all add: r4_def)
  ultimately show ?thesis using ioqueue_init_empty [of ?s "demo_q q4" 1 r4] by auto
qed

text \<open>While another task has the console a call of \<open>console_put_str\<close> writes nothing and gives the
processor away; when the task is resumed with the console free, the characters that \<open>write\<close>
takes are appended to the output and the console is free again.\<close>

theorem console_put_exclusive:
  assumes "sched_ok s q" and "locks s ConsoleLock = Some (held_lock d m)"
    and "current_task s = Some c" and "d \<noteq> c" and "q ReadyList = t # ts"
  shows "\<exists>u k. console_put_str n str s = Switch u k \<and> console_out u = console_out s \<and>
    current_task u = Some t \<and>
    sched_ok u (q(ReadyList := ts, Waiters ConsoleLock := q (Waiters ConsoleLock) @ [c])) \<and>
    (\<forall>v q'. sched_ok v q' \<and> current_task v = Some c \<and> locks v ConsoleLock = Some free_lock \<longrightarrow>
       (\<exists>w. k v = Done () w \<and> console_out w = console_out v @ take n str \<and> locks w = locks v))"
  using put.when_taken [OF assms, of n str] unfolding console_put_str_def [symmetric] by fastforce

theorem console_put_exclusive_witness:
  "\<exists>u k. console_put_str 2 ''hi'' (s1\<lparr>current_task := Some 1, locks := (locks s1)(ConsoleLock \<mapsto> held_lock 7 1)\<rparr>) =
     Switch u k \<and> console_out u = [] \<and> current_task u = Some 2"
proof -
  let ?s = "s1\<lparr>current_task := Some 1, locks := (locks s1)(ConsoleLock \<mapsto> held_lock 7 1)\<rparr>"
  have f: "current_task s1 = Some 1" "locks s1 ConsoleLock = Some (held_lock 1 1)" "console_out s1 = []"
      "demo_q q1 ReadyList = [2, 3]"
    by (simp_all add: s1_def demo_def demo_q_def q1_def)
  have "sched_ok ?s (demo_q q1)" using s1_ok f by (subst sched_ok_frame [of _ s1]) (auto simp: insert_absorb)
  from console_put_exclusive [OF this, of 7 1 1 2 "[3]" 2 "''hi''"] f show ?thesis by auto
qed

text \<open>With the console free the three output functions return with the console free again. A string
and a character are written as far as \<open>write\<close> takes them; a number goes through the buffer of
\<open>printf\<close>, so that it can come out after text that was put later.\<close>

theorem console_output:
  assumes "sched_ok s q" and "locks s ConsoleLock = Some free_lock" and "current_task s = Some c"
  shows "(\<exists>u. console_put_str n str s = Done () u \<and> locks u = locks s \<and>
      console_out u = console_out s @ take n str \<and> stdio_buf u = stdio_buf s) \<and>
    (\<exists>u. console_put_char n ch s = Done () u \<and> locks u = locks s \<and>
      console_out u = console_out s @ take n [ch] \<and> stdio_buf u = stdio_buf s) \<and>
    (\<exists>u. console_put_int m w s = Done () u \<and> locks u = locks s \<and>
      console_out u @ stdio_buf u = console_out s @ stdio_buf s @ decimal w \<and>
      length (stdio_buf u) = length (stdio_buf s @ decimal w) - m)"
proof -
  obtain u1 where u1: "console_put_str n str s = Done () u1" "locks u1 = locks s"
      "console_out u1 = console_out s @ take n str" "stdio_buf u1 = stdio_buf s"
    using put.when_free [OF assms, of n str] unfolding console_put_str_def [symmetric] by auto
  obtain u2 where u2: "console_put_char n ch s = Done () u2" "locks u2 = locks s"
      "console_out u2 = console_out s @ take n [ch]" "stdio_buf u2 = stdio_buf s"
    using put.when_free [OF assms, of n "[ch]"] unfolding console_put_char_def [symmetric] by auto
  let ?b = "stdio_buf s @ decimal w"
  obtain u3 where u3: "console_put_int m w s = Done () u3" "locks u3 = locks s"
      "console_out u3 = console_out s @ take m ?b" "stdio_buf u3 = drop m ?b"
    using put_int.when_free [OF assms, of m w] unfolding console_put_int_def [symmetric]
    by (auto simp del: take_append drop_append)
  have "console_out u3 @ stdio_buf u3 = console_out s @ ?b"
    by (simp only: u3(3,4) append_assoc append_take_drop_id)
  moreover have "length (stdio_buf u3) = length ?b - m" by (simp only: u3(4) length_drop)
  ultimately show ?thesis using u1 u2 u3(1,2) by blast
qed

theorem console_output_witness:
  "\<exists>u. console_put_int 0 7 s2 = Done () u \<and> console_out u @ stdio_buf u = ''7''"
proof -
  have f: "current_task s2 = Some 1" "locks s2 ConsoleLock = Some free_lock" "console_out s2 = []"
      "stdio_buf s2 = []"
    by (simp_all add: s2_def demo_def)
  have "decimal 7 = ''7''" by code_simp
  with console_output [OF s2_ok f(2,1), of 0 "[]" "CHR ''x''" 0 7] f show ?thesis by auto
qed

end
